(* ===== verification/Prelude.thy ===== *)
theory Prelude
  imports Main "HOL-Library.Word" "HOL-Library.Monad_Syntax" "HOL-Library.Signed_Division"
begin

text \<open>
  Shared ground of the development: the C integer types, the error values, checked access to
  byte arrays, little-endian storage, and the generic lemmas on words and lists that the
  components use.

  Conventions.  A C function that returns \<open>0\<close> or a negative errno is a function into
  \<open>'a res\<close>: \<open>Inl e\<close> stands for \<open>-e\<close>, \<open>Inr x\<close> for success with the value \<open>x\<close>.
  The extra error \<open>Fault\<close> is no errno: it marks undefined behaviour (an access outside an
  object, a shift by the width of the type or more, a signed overflow, a division by zero, a
  failed \<open>assert\<close>), so that "never returns \<open>Inl Fault\<close>" is memory safety.
  A pointer argument that the code compares with \<open>NULL\<close> is an \<open>option\<close>.
\<close>

unbundle bit_operations_syntax

type_synonym u8 = "8 word"
type_synonym u16 = "16 word"
type_synonym u32 = "32 word"
type_synonym u64 = "64 word"

datatype error =
    EPERM | ENOENT | EINTR | EIO | EAGAIN | ENOMEM | EEXIST | EINVAL | EPIPE | ERANGE
  | ENOSYS | EPROTO | ETIMEDOUT | EINPROGRESS | E2BIG
  | Errno nat  \<comment> \<open>any other errno an operating system call reports\<close>
  | Fault      \<comment> \<open>undefined behaviour\<close>

type_synonym 'a res = "error + 'a"

definition bindR :: "'a res \<Rightarrow> ('a \<Rightarrow> 'b res) \<Rightarrow> 'b res" where
  "bindR m f = (case m of Inl e \<Rightarrow> Inl e | Inr x \<Rightarrow> f x)"

lemma bindR_simps [simp]:
  "bindR (Inl e) f = Inl e"
  "bindR (Inr x) f = f x"
  by (simp_all add: bindR_def)

lemma bindR_Inr_iff: "bindR m f = Inr y \<longleftrightarrow> (\<exists>x. m = Inr x \<and> f x = Inr y)"
  by (cases m) simp_all

lemma bindR_cong [fundef_cong]:
  "m = m' \<Longrightarrow> (\<And>x. m' = Inr x \<Longrightarrow> f x = g x) \<Longrightarrow> bindR m f = bindR m' g"
  by (cases m') (simp_all add: bindR_def)

subsection \<open>Checked access to arrays\<close>

definition read_at :: "'a list \<Rightarrow> nat \<Rightarrow> 'a res" where
  "read_at m i = (if i < length m then Inr (m ! i) else Inl Fault)"

definition write_at :: "'a list \<Rightarrow> nat \<Rightarrow> 'a \<Rightarrow> 'a list res" where
  "write_at m i x = (if i < length m then Inr (m[i := x]) else Inl Fault)"

text \<open>\<open>memcpy\<close> of a range: both ranges must lie in their objects.\<close>

definition mem_read :: "nat \<Rightarrow> nat \<Rightarrow> 'a list \<Rightarrow> 'a list" where
  "mem_read i n m = take n (drop i m)"

definition mem_write :: "nat \<Rightarrow> 'a list \<Rightarrow> 'a list \<Rightarrow> 'a list" where
  "mem_write i xs m = take i m @ xs @ drop (i + length xs) m"

lemma length_mem_read [simp]: "i + n \<le> length m \<Longrightarrow> length (mem_read i n m) = n"
  by (simp add: mem_read_def)

lemma length_mem_write [simp]: "i + length xs \<le> length m \<Longrightarrow> length (mem_write i xs m) = length m"
  by (simp add: mem_write_def)

lemma mem_write_Nil [simp]: "mem_write i [] m = m"
  by (simp add: mem_write_def)

lemma nth_mem_write:
  "i + length xs \<le> length m \<Longrightarrow> k < length m \<Longrightarrow>
   mem_write i xs m ! k = (if k < i then m ! k else if k < i + length xs then xs ! (k - i) else m ! k)"
  by (auto simp: mem_write_def nth_append min_def)

lemma nth_mem_read: "i + n \<le> length m \<Longrightarrow> k < n \<Longrightarrow> mem_read i n m ! k = m ! (i + k)"
  by (simp add: mem_read_def)

lemma list_update_append_drop:
  "i < length m \<Longrightarrow> take i (m[i := x]) @ x # drop (Suc i) (m[i := x]) = take i m @ x # drop (Suc i) m"
  by simp

subsection \<open>Words\<close>

lemma unat_ucast_le: "LENGTH('a::len) \<le> LENGTH('b::len) \<Longrightarrow> unat (ucast (w :: 'a word) :: 'b word) = unat w"
  by (metis is_up.rep_eq uint_up_ucast unat_eq_nat_uint)

lemma unat_of_nat_small: "n < 2 ^ LENGTH('a) \<Longrightarrow> unat (of_nat n :: 'a::len word) = n"
  by (simp add: unat_of_nat take_bit_nat_eq_self)

lemma unat_bound: "unat (w :: 'a::len word) < 2 ^ LENGTH('a)"
  by (rule unsigned_less)

lemma unat_exp: "k < LENGTH('a) \<Longrightarrow> unat (2 ^ k :: 'a::len word) = 2 ^ k"
  using unat_of_nat_small [where 'a = 'a, of "2 ^ k"] by simp

lemma unat_and_mask: "unat (w AND mask n :: 'a::len word) = unat w mod 2 ^ n"
  by (simp flip: take_bit_eq_mask take_bit_eq_mod add: unsigned_take_bit_eq)

lemma unat_drop_bit: "unat (drop_bit n w :: 'a::len word) = unat w div 2 ^ n"
  using unat_drop_bit_eq [of n w] by (simp only: drop_bit_eq_div)

lemma word_and_15_mask: "(w :: 'a::len word) AND 15 = w AND mask 4"
  by (simp add: mask_eq_exp_minus_1)

subsection \<open>32-bit values in memory\<close>

text \<open>The four bytes of a value in memory (little-endian), as it is copied to a buffer or a file.\<close>

definition u32_bytes :: "u32 \<Rightarrow> u8 list" where
  "u32_bytes w = [ucast w, ucast (drop_bit 8 w), ucast (drop_bit 16 w), ucast (drop_bit 24 w)]"

definition bytes_u32 :: "u8 list \<Rightarrow> u32" where
  "bytes_u32 bs = ucast (bs ! 0) OR push_bit 8 (ucast (bs ! 1)) OR push_bit 16 (ucast (bs ! 2)) OR push_bit 24 (ucast (bs ! 3))"

lemma bytes_u32_u32_bytes: "bytes_u32 (u32_bytes w) = w"
proof (rule bit_word_eqI)
  fix n assume "n < LENGTH(32)"
  then consider "n < 8" | "8 \<le> n" "n < 16" | "16 \<le> n" "n < 24" | "24 \<le> n" "n < 32" by fastforce
  then show "bit (bytes_u32 (u32_bytes w)) n = bit w n"
    by cases (auto simp: bytes_u32_def u32_bytes_def bit_simps less_diff_conv2)
qed

lemma length_u32_bytes [simp]: "length (u32_bytes w) = 4"
  by (simp add: u32_bytes_def)

end
