(* ===== verification/Varint.thy ===== *)
theory Varint
  imports Prelude
begin

text \<open>
  Component \<open>varint\<close> (src/varint.c): variable-length quantities, seven bits per byte, least
  significant group first, the top bit of a byte telling that more follow; signed values are
  ZigZag encoded first.

  \<open>src\<close> and \<open>dst\<close> are the memory that can be read or written from the pointer, as a byte list
  (\<open>None\<close> for \<open>NULL\<close>); its length and the length argument are independent, as in C, so an access
  beyond the object is a \<open>Fault\<close>.  The out-parameters \<open>val\<close> and \<open>val_len\<close> are \<open>option\<close>s, too:
  \<open>None\<close> for \<open>NULL\<close>, otherwise the current content, and every function returns their content
  afterwards, because the code also writes \<open>*val\<close> when it fails.
\<close>

subsection \<open>The generic reader and writer\<close>

function varint_read_loop :: "u8 list \<Rightarrow> nat \<Rightarrow> nat \<Rightarrow> nat \<Rightarrow> nat \<Rightarrow> u64 \<Rightarrow> nat res \<times> u64" where
  "varint_read_loop src src_len val_len_max shift offset val =
    (if length src \<le> offset \<or> 64 \<le> shift then (Inl Fault, val)
     else
       let val' = val OR push_bit shift (ucast (src ! offset AND 0x7f));
           more = src ! offset AND 0x80;
           offset' = offset + 1
       in if src_len < offset' \<or> val_len_max < offset' then (Inl EPROTO, val')
          else if offset' = val_len_max \<and> length src \<le> offset' then (Inl Fault, val')
          else if offset' = val_len_max \<and> src ! offset' AND 0x0f \<noteq> 0 then (Inl EPROTO, val')
          else if more \<noteq> 0 then varint_read_loop src src_len val_len_max (shift + 7) offset' val'
          else (Inr offset', val'))"
  by pat_completeness auto
termination
  by (relation "measure (\<lambda>(src, _, _, _, offset, _). length src - offset)") auto

declare varint_read_loop.simps [simp del]

definition futils_varint_read ::
  "u8 list option \<Rightarrow> nat \<Rightarrow> u64 option \<Rightarrow> nat option \<Rightarrow> nat
   \<Rightarrow> unit res \<times> u64 option \<times> nat option" where
  "futils_varint_read src src_len val val_len val_len_max =
    (case (src, val, val_len) of
       (Some m, Some _, Some _) \<Rightarrow>
         if src_len = 0 then (Inl EINVAL, val, val_len)
         else (case varint_read_loop m src_len val_len_max 0 0 0 of
                 (Inl e, v) \<Rightarrow> (Inl e, Some v, val_len)
               | (Inr n, v) \<Rightarrow> (Inr (), Some v, Some n))
     | _ \<Rightarrow> (Inl EINVAL, val, val_len))"

function varint_write_loop :: "u8 list \<Rightarrow> nat \<Rightarrow> u64 \<Rightarrow> (u8 list \<times> nat) res" where
  "varint_write_loop dst off val =
    (let byte = ucast (val AND 0x7f) :: u8;
         val' = drop_bit 7 val;
         more = val' \<noteq> 0;
         byte' = (if more then byte OR 0x80 else byte)
     in if length dst \<le> off then Inl Fault
        else if more then varint_write_loop (dst[off := byte']) (off + 1) val'
        else Inr (dst[off := byte'], off + 1))"
  by pat_completeness auto
termination
  by (relation "measure (\<lambda>(dst, off, _). length dst - off)") auto

declare varint_write_loop.simps [simp del]

definition futils_varint_write ::
  "u8 list option \<Rightarrow> nat \<Rightarrow> u64 \<Rightarrow> nat option \<Rightarrow> nat
   \<Rightarrow> unit res \<times> u8 list option \<times> nat option" where
  "futils_varint_write dst dst_len val val_len val_len_max =
    (case (dst, val_len) of
       (Some m, Some _) \<Rightarrow>
         if dst_len < val_len_max then (Inl EINVAL, dst, val_len)
         else (case varint_write_loop m 0 val of
                 Inl e \<Rightarrow> (Inl e, dst, val_len)
               | Inr (m', n) \<Rightarrow> (Inr (), Some m', Some n))
     | _ \<Rightarrow> (Inl EINVAL, dst, val_len))"

subsection \<open>The typed readers and writers\<close>

definition futils_varint_read_u16 ::
  "u8 list option \<Rightarrow> nat \<Rightarrow> u16 option \<Rightarrow> nat option \<Rightarrow> unit res \<times> u16 option \<times> nat option" where
  "futils_varint_read_u16 src src_len val val_len =
    (case val of None \<Rightarrow> (Inl EINVAL, None, val_len)
     | Some _ \<Rightarrow>
         let (res, val64, val_len') = futils_varint_read src src_len (Some 0) val_len (2 + 1)
         in (res, map_option ucast val64, val_len'))"

definition futils_varint_write_u16 ::
  "u8 list option \<Rightarrow> nat \<Rightarrow> u16 \<Rightarrow> nat option \<Rightarrow> unit res \<times> u8 list option \<times> nat option" where
  "futils_varint_write_u16 dst dst_len val val_len =
    futils_varint_write dst dst_len (ucast val) val_len (2 + 1)"

text \<open>
  The 16-bit ZigZag expressions are evaluated in \<open>int\<close> after integer promotion (32 bits); the
  left shift of a negative value is the two's-complement shift every C compiler emits.
\<close>

definition futils_varint_read_i16 ::
  "u8 list option \<Rightarrow> nat \<Rightarrow> u16 option \<Rightarrow> nat option \<Rightarrow> unit res \<times> u16 option \<times> nat option" where
  "futils_varint_read_i16 src src_len val val_len =
    (case val of None \<Rightarrow> (Inl EINVAL, None, val_len)
     | Some _ \<Rightarrow>
         let (res, val64, val_len') = futils_varint_read src src_len (Some 0) val_len (2 + 1)
         in (res,
             map_option (\<lambda>v. ucast ((scast (ucast (drop_bit 1 v) :: u16) :: u32) XOR
                                    - (scast (ucast (v AND 1) :: u16) :: u32))) val64,
             val_len'))"

definition futils_varint_write_i16 ::
  "u8 list option \<Rightarrow> nat \<Rightarrow> u16 \<Rightarrow> nat option \<Rightarrow> unit res \<times> u8 list option \<times> nat option" where
  "futils_varint_write_i16 dst dst_len val val_len =
    (let val64 = ucast (ucast (push_bit 1 (scast val :: u32) XOR signed_drop_bit 15 (scast val :: u32)) :: u16)
     in futils_varint_write dst dst_len val64 val_len (2 + 1))"

definition futils_varint_read_u32 ::
  "u8 list option \<Rightarrow> nat \<Rightarrow> u32 option \<Rightarrow> nat option \<Rightarrow> unit res \<times> u32 option \<times> nat option" where
  "futils_varint_read_u32 src src_len val val_len =
    (case val of None \<Rightarrow> (Inl EINVAL, None, val_len)
     | Some _ \<Rightarrow>
         let (res, val64, val_len') = futils_varint_read src src_len (Some 0) val_len (4 + 1)
         in (res, map_option ucast val64, val_len'))"

definition futils_varint_write_u32 ::
  "u8 list option \<Rightarrow> nat \<Rightarrow> u32 \<Rightarrow> nat option \<Rightarrow> unit res \<times> u8 list option \<times> nat option" where
  "futils_varint_write_u32 dst dst_len val val_len =
    futils_varint_write dst dst_len (ucast val) val_len (4 + 1)"

definition futils_varint_read_i32 ::
  "u8 list option \<Rightarrow> nat \<Rightarrow> u32 option \<Rightarrow> nat option \<Rightarrow> unit res \<times> u32 option \<times> nat option" where
  "futils_varint_read_i32 src src_len val val_len =
    (case val of None \<Rightarrow> (Inl EINVAL, None, val_len)
     | Some _ \<Rightarrow>
         let (res, val64, val_len') = futils_varint_read src src_len (Some 0) val_len (4 + 1)
         in (res, map_option (\<lambda>v. ucast (drop_bit 1 v) XOR - ucast (v AND 1)) val64, val_len'))"

definition futils_varint_write_i32 ::
  "u8 list option \<Rightarrow> nat \<Rightarrow> u32 \<Rightarrow> nat option \<Rightarrow> unit res \<times> u8 list option \<times> nat option" where
  "futils_varint_write_i32 dst dst_len val val_len =
    (let val64 = ucast (push_bit 1 val XOR signed_drop_bit 31 val)
     in futils_varint_write dst dst_len val64 val_len (4 + 1))"

definition futils_varint_read_u64 ::
  "u8 list option \<Rightarrow> nat \<Rightarrow> u64 option \<Rightarrow> nat option \<Rightarrow> unit res \<times> u64 option \<times> nat option" where
  "futils_varint_read_u64 src src_len val val_len =
    futils_varint_read src src_len val val_len (8 + 2)"

definition futils_varint_write_u64 ::
  "u8 list option \<Rightarrow> nat \<Rightarrow> u64 \<Rightarrow> nat option \<Rightarrow> unit res \<times> u8 list option \<times> nat option" where
  "futils_varint_write_u64 dst dst_len val val_len =
    futils_varint_write dst dst_len val val_len (8 + 2)"

definition futils_varint_read_i64 ::
  "u8 list option \<Rightarrow> nat \<Rightarrow> u64 option \<Rightarrow> nat option \<Rightarrow> unit res \<times> u64 option \<times> nat option" where
  "futils_varint_read_i64 src src_len val val_len =
    (case val of None \<Rightarrow> (Inl EINVAL, None, val_len)
     | Some _ \<Rightarrow>
         let (res, val64, val_len') = futils_varint_read src src_len (Some 0) val_len (8 + 2)
         in (res, map_option (\<lambda>v. drop_bit 1 v XOR - (v AND 1)) val64, val_len'))"

definition futils_varint_write_i64 ::
  "u8 list option \<Rightarrow> nat \<Rightarrow> u64 \<Rightarrow> nat option \<Rightarrow> unit res \<times> u8 list option \<times> nat option" where
  "futils_varint_write_i64 dst dst_len val val_len =
    (let val64 = push_bit 1 val XOR signed_drop_bit 63 val
     in futils_varint_write dst dst_len val64 val_len (8 + 2))"

subsection \<open>Groups of seven bits\<close>

text \<open>The encoding as a list of bytes: little-endian base 128 digits, all but the last marked.\<close>

fun vlq :: "nat \<Rightarrow> u8 list" where
  "vlq n = (if n < 128 then [of_nat n] else of_nat (n mod 128 + 128) # vlq (n div 128))"

declare vlq.simps [simp del]

lemma u8_group: "unat (b AND 0x7f :: u8) = unat b mod 128"
  using unat_and_mask [of b 7] by (simp add: mask_eq_exp_minus_1)

lemma u8_more: "(b AND 0x80 :: u8) \<noteq> 0 \<longleftrightarrow> 128 \<le> unat b"
proof -
  have "b AND 0x80 = 0 \<longleftrightarrow> \<not> bit b 7"
    using and_exp_eq_0_iff_not_bit [of b 7] by simp
  also have "bit b 7 \<longleftrightarrow> odd (unat b div 128)"
    using bit_unsigned_iff [where ?'a = nat, of b 7] by (simp add: bit_iff_odd)
  also have "\<dots> \<longleftrightarrow> 128 \<le> unat b"
  proof -
    have "unat b < 256" using unsigned_less [of b, where ?'a = nat] by simp
    then have "unat b div 128 = (if 128 \<le> unat b then 1 else 0)"
      by (cases "128 \<le> unat b") (simp_all add: div_if)
    then show ?thesis by simp
  qed
  finally show ?thesis by blast
qed

lemma u64_group: "ucast (v AND 0x7f :: u64) = (of_nat (unat v mod 128) :: u8)"
proof -
  have "unat (v AND 0x7f) = unat v mod 128"
    using unat_and_mask [of v 7] by (simp add: mask_eq_exp_minus_1)
  then show ?thesis by (metis of_nat_unat)
qed

lemma u64_or_push:
  fixes v :: u64
  assumes "unat v < 2 ^ s" "s < 64"
  shows "v OR push_bit s x = v + push_bit s x"
proof -
  have "\<not> bit v k \<or> \<not> bit (push_bit s x) k" for k
  proof (cases "k < s")
    case False
    with assms have "unat v < 2 ^ k" by (meson not_less order_less_le_trans one_le_numeral power_increasing)
    then have "\<not> bit (unat v) k" by (simp add: bit_iff_odd)
    then show ?thesis by (simp add: bit_unsigned_iff)
  qed (simp add: bit_push_bit_iff)
  then have "v AND push_bit s x = 0" by (auto simp: bit_eq_iff bit_and_iff)
  from disjunctive_add_eq_or [OF this] show ?thesis by simp
qed

lemma length_vlq_le: "n < 128 ^ Suc k \<Longrightarrow> length (vlq n) \<le> Suc k"
proof (induction n arbitrary: k rule: vlq.induct)
  case (1 n)
  show ?case
  proof (cases "n < 128")
    case False
    then obtain k' where k: "k = Suc k'" using "1.prems" by (cases k) auto
    with "1.prems" have "n div 128 < 128 ^ Suc k'" by (simp add: less_mult_imp_div_less mult.commute)
    with False k "1.IH" show ?thesis by (simp add: vlq.simps [of n])
  qed (simp add: vlq.simps [of n])
qed

lemma length_vlq_pos [simp]: "0 < length (vlq n)" "vlq n \<noteq> []"
  by (simp_all add: vlq.simps [of n])

lemma vlq_hd:
  assumes "drop off src = vlq n @ rest"
  shows "off < length src" "unat (src ! off) = (if n < 128 then n else n mod 128 + 128)"
    "\<not> n < 128 \<Longrightarrow> drop (off + 1) src = vlq (n div 128) @ rest"
    "n < 128 \<Longrightarrow> drop (off + 1) src = rest"
proof -
  show off: "off < length src" using assms by (metis append_is_Nil_conv drop_all leI length_vlq_pos(2))
  have dr: "drop off src = src ! off # drop (off + 1) src" using off by (simp add: Cons_nth_drop_Suc)
  show "unat (src ! off) = (if n < 128 then n else n mod 128 + 128)"
  proof (cases "n < 128")
    case False
    have "unat (of_nat (n mod 128 + 128) :: u8) = n mod 128 + 128"
      by (rule unat_of_nat_small) simp
    then show ?thesis using assms dr False by (simp add: vlq.simps [of n] del: of_nat_add)
  qed (use assms dr in \<open>simp add: vlq.simps [of n] unat_of_nat_small\<close>)
  show "\<not> n < 128 \<Longrightarrow> drop (off + 1) src = vlq (n div 128) @ rest"
    "n < 128 \<Longrightarrow> drop (off + 1) src = rest"
    using assms dr by (auto simp: vlq.simps [of n])
qed

text \<open>What the reader does with the byte after a value of maximal length.\<close>

definition after_value :: "nat \<Rightarrow> nat \<Rightarrow> u8 list \<Rightarrow> nat res" where
  "after_value mx k rest =
    (if k = mx then (case rest of [] \<Rightarrow> Inl Fault | b # _ \<Rightarrow> if b AND 0x0f \<noteq> 0 then Inl EPROTO else Inr k)
     else Inr k)"

lemma varint_read_loop_vlq:
  assumes "drop off src = vlq n @ rest"
    and "off + length (vlq n) \<le> src_len" "off + length (vlq n) \<le> mx"
    and "shift < 64" "unat val < 2 ^ shift" "unat val + n * 2 ^ shift < 2 ^ 64"
  shows "varint_read_loop src src_len mx shift off val =
           (after_value mx (off + length (vlq n)) rest, of_nat (unat val + n * 2 ^ shift))"
  using assms
proof (induction n arbitrary: off shift val rule: vlq.induct)
  case (1 n)
  note hd = vlq_hd [OF "1.prems"(1)]
  let ?b = "src ! off"
  let ?val = "val OR push_bit shift (ucast (?b AND 0x7f))"
  have grp: "ucast (?b AND 0x7f) = (of_nat (n mod 128) :: u64)"
  proof -
    have "unat (?b AND 0x7f) = n mod 128" by (simp add: u8_group hd(2))
    then show ?thesis by (metis of_nat_unat)
  qed
  have val: "?val = of_nat (unat val + n mod 128 * 2 ^ shift)"
    unfolding grp u64_or_push [OF "1.prems"(5,4)] by (simp add: push_bit_eq_mult)
  show ?case
  proof (cases "n < 128")
    case True
    have "(?b AND 0x80) = 0" using u8_more [of ?b] hd(2) True by simp
    moreover have "length src \<le> Suc off \<longleftrightarrow> rest = []" "rest \<noteq> [] \<Longrightarrow> hd rest = src ! Suc off"
      using hd(4) True by (auto simp: hd_drop_conv_nth)
    ultimately show ?thesis using 1 True hd(1) val
      by (subst varint_read_loop.simps)
        (auto simp: vlq.simps [of n] Let_def after_value_def split: list.split)
  next
    case False
    let ?v' = "of_nat (unat val + n mod 128 * 2 ^ shift) :: u64"
    have more: "(?b AND 0x80) \<noteq> 0" using u8_more [of ?b] hd(2) False by simp
    have len: "length (vlq n) = Suc (length (vlq (n div 128)))" using False by (simp add: vlq.simps [of n])
    have eq: "unat val + n * 2 ^ shift = (unat val + n mod 128 * 2 ^ shift) + n div 128 * 2 ^ (shift + 7)"
    proof -
      define q r where "q = n div 128" and "r = n mod 128"
      have "n = 128 * q + r" by (simp add: q_def r_def)
      then show ?thesis unfolding q_def [symmetric] r_def [symmetric] by (simp add: power_add algebra_simps)
    qed
    have sm: "unat val + n mod 128 * 2 ^ shift < 2 ^ (shift + 7)"
    proof -
      have "unat val + n mod 128 * 2 ^ shift < 2 ^ shift + n mod 128 * 2 ^ shift"
        using "1.prems"(5) by simp
      also have "\<dots> = (n mod 128 + 1) * 2 ^ shift" by simp
      also have "\<dots> \<le> 128 * 2 ^ shift"
        by (intro mult_le_mono1) (simp add: Suc_le_eq)
      finally show ?thesis by (simp add: power_add)
    qed
    have uv: "unat ?v' = unat val + n mod 128 * 2 ^ shift"
      by (rule unat_of_nat_small) (use "1.prems"(6) eq in \<open>simp; linarith\<close>)
    have sh: "shift + 7 < 64"
    proof (rule ccontr)
      assume "\<not> shift + 7 < 64"
      then have "(2::nat) ^ 64 \<le> 2 ^ (shift + 7)" by (intro power_increasing) auto
      also have "\<dots> \<le> n div 128 * 2 ^ (shift + 7)" using False by simp
      finally show False using "1.prems"(6) eq by simp
    qed
    have "varint_read_loop src src_len mx (shift + 7) (off + 1) ?v' =
      (after_value mx (off + 1 + length (vlq (n div 128))) rest, of_nat (unat ?v' + n div 128 * 2 ^ (shift + 7)))"
      using False "1.prems" len hd(3) sh sm uv eq by (intro "1.IH") auto
    moreover have "off + 1 < mx" "off + 1 \<le> src_len" using "1.prems"(2,3) len length_vlq_pos(1) [of "n div 128"] by linarith+
    ultimately show ?thesis using "1.prems"(4) False hd(1) val more len uv eq
      by (subst varint_read_loop.simps) (auto simp: Let_def)
  qed
qed

text \<open>The number a list of bytes stands for.\<close>

fun vlq_value :: "u8 list \<Rightarrow> nat" where
  "vlq_value [] = 0"
| "vlq_value (b # bs) = unat b mod 128 + 128 * vlq_value bs"

lemma varint_write_loop_vlq:
  "off + length (vlq (unat v)) \<le> length dst \<Longrightarrow>
   varint_write_loop dst off v =
     Inr (mem_write off (vlq (unat v)) dst, off + length (vlq (unat v)))"
proof (induction dst off v rule: varint_write_loop.induct)
  case (1 dst off v)
  let ?n = "unat v"
  have v': "unat (drop_bit 7 v) = ?n div 128" by (simp add: unat_drop_bit)
  have more: "drop_bit 7 v \<noteq> 0 \<longleftrightarrow> \<not> ?n < 128"
    using v' by (metis div_less div_greater_zero_iff leI less_numeral_extra(3) unat_eq_zero zero_less_numeral)
  have off: "off < length dst" using "1.prems" length_vlq_pos(1) [of ?n] by linarith
  show ?case
  proof (cases "?n < 128")
    case True
    then have "(of_nat (?n mod 128) :: u8) = of_nat ?n" by simp
    with True off more show ?thesis
      by (subst varint_write_loop.simps)
        (simp add: u64_group vlq.simps [of ?n] Let_def mem_write_def upd_conv_take_nth_drop)
  next
    case False
    let ?b = "(of_nat (?n mod 128) OR 0x80) :: u8"
    have b: "?b = of_nat (?n mod 128 + 128)"
    proof -
      have "(of_nat (?n mod 128) :: u8) AND 0x80 = 0"
        using u8_more [of "of_nat (?n mod 128)"] unat_of_nat_small [where ?'a = 8, of "?n mod 128"] by (auto simp: not_le)
      from disjunctive_add_eq_or [OF this] show ?thesis by simp
    qed
    have "varint_write_loop (dst[off := ?b]) (off + 1) (drop_bit 7 v) =
      Inr (mem_write (off + 1) (vlq (?n div 128)) (dst[off := ?b]), off + 1 + length (vlq (?n div 128)))"
      using 1 False off more by (simp add: u64_group v' vlq.simps [of ?n])
    moreover have "mem_write (off + 1) (vlq (?n div 128)) (dst[off := ?b]) = mem_write off (vlq ?n) dst"
      using False off b by (simp add: mem_write_def vlq.simps [of ?n] upd_conv_take_nth_drop min_def add.commute)
    ultimately show ?thesis using False off more
      by (subst varint_write_loop.simps) (simp add: u64_group Let_def vlq.simps [of ?n])
  qed
qed

lemma varint_read_loop_sound:
  assumes "varint_read_loop src sl mx shift off val = (Inr k, v)" "unat val < 2 ^ shift"
  shows "off < k \<and> k \<le> sl \<and> k \<le> mx \<and> k \<le> length src \<and>
    (\<forall>i. off \<le> i \<and> i < k - 1 \<longrightarrow> 128 \<le> unat (src ! i)) \<and> unat (src ! (k - 1)) < 128 \<and>
    (k = mx \<longrightarrow> k < length src \<and> src ! k AND 0x0f = 0) \<and>
    v = val + of_nat (vlq_value (mem_read off (k - off) src)) * 2 ^ shift"
  using assms
proof (induction src sl mx shift off val arbitrary: k v rule: varint_read_loop.induct)
  case (1 src sl mx shift off val)
  let ?b = "src ! off"
  let ?val = "val OR push_bit shift (ucast (?b AND 0x7f))"
  note eq = varint_read_loop.simps [of src sl mx shift off val]
  from "1.prems"(1) have off: "off < length src" and shift: "shift < 64"
    by (auto simp: eq Let_def split: if_splits)
  have grp: "(ucast (?b AND 0x7f) :: u64) = of_nat (unat ?b mod 128)"
    by (metis of_nat_unat u8_group)
  have val: "?val = val + of_nat (unat ?b mod 128) * 2 ^ shift"
    unfolding u64_or_push [OF "1.prems"(2) shift] grp by (simp add: push_bit_eq_mult)
  have step: "mem_read off n src = ?b # mem_read (Suc off) (n - 1) src" if "0 < n" for n
    using off that by (cases n) (simp_all add: mem_read_def Cons_nth_drop_Suc [symmetric])
  from "1.prems"(1) have le: "Suc off \<le> sl" "Suc off \<le> mx"
    and last: "Suc off = mx \<Longrightarrow> Suc off < length src \<and> src ! Suc off AND 0x0f = 0"
    using off shift by (auto simp: eq Let_def not_less split: if_splits)
  show ?case
  proof (cases "?b AND 0x80 = 0")
    case True
    then have b: "unat ?b < 128" using u8_more [of ?b] by simp
    from True "1.prems"(1) off shift le last have "k = Suc off" "v = ?val"
      by (auto simp: eq Let_def split: if_splits)
    with b le last off val step [of 1] show ?thesis by (auto simp: mem_read_def)
  next
    case False
    then have b: "128 \<le> unat ?b" using u8_more [of ?b] by simp
    have rec: "varint_read_loop src sl mx (shift + 7) (off + 1) ?val = (Inr k, v)"
      using False "1.prems"(1) off shift le last by (auto simp: eq Let_def split: if_splits)
    then have sh: "shift + 7 < 64" by (subst (asm) varint_read_loop.simps) (auto split: if_splits)
    have lt: "unat ?val < 2 ^ (shift + 7)"
    proof -
      have "unat val + unat ?b mod 128 * 2 ^ shift < (unat ?b mod 128 + 1) * 2 ^ shift"
        using "1.prems"(2) by simp
      also have "\<dots> \<le> 128 * 2 ^ shift" by (intro mult_le_mono1) (simp add: Suc_le_eq)
      finally have lt: "unat val + unat ?b mod 128 * 2 ^ shift < 2 ^ (shift + 7)" by (simp add: power_add)
      also have "\<dots> < 2 ^ 64" using sh by (intro power_strict_increasing) auto
      finally have "unat (of_nat (unat val + unat ?b mod 128 * 2 ^ shift) :: u64) = unat val + unat ?b mod 128 * 2 ^ shift"
        by (intro unat_of_nat_small) simp
      with lt show ?thesis by (simp add: val)
    qed
    have "off + 1 < k \<and> k \<le> sl \<and> k \<le> mx \<and> k \<le> length src \<and>
      (\<forall>i. off + 1 \<le> i \<and> i < k - 1 \<longrightarrow> 128 \<le> unat (src ! i)) \<and> unat (src ! (k - 1)) < 128 \<and>
      (k = mx \<longrightarrow> k < length src \<and> src ! k AND 0x0f = 0) \<and>
      v = ?val + of_nat (vlq_value (mem_read (off + 1) (k - (off + 1)) src)) * 2 ^ (shift + 7)"
      using False off shift le last sh rec lt by (intro "1.IH") auto
    moreover have "128 \<le> unat (src ! i)" if "off \<le> i" "i < k - 1" "\<forall>i. off + 1 \<le> i \<and> i < k - 1 \<longrightarrow> 128 \<le> unat (src ! i)" for i
      using that b by (cases "i = off") auto
    ultimately show ?thesis using val by (auto simp: step power_add algebra_simps)
  qed
qed

subsection \<open>ZigZag\<close>

definition zigzag :: "int \<Rightarrow> nat" where
  "zigzag z = (if 0 \<le> z then nat (2 * z) else nat (- 2 * z - 1))"

definition zz_enc :: "'a::len word \<Rightarrow> 'a word" where
  "zz_enc w = push_bit 1 w XOR signed_drop_bit (LENGTH('a) - 1) w"

definition zz_dec :: "'a::len word \<Rightarrow> 'a word" where
  "zz_dec e = drop_bit 1 e XOR - (e AND 1)"

lemma signed_drop_all:
  "signed_drop_bit (LENGTH('a) - 1) (w :: 'a::len word) = (if bit w (LENGTH('a) - 1) then - 1 else 0)"
proof (rule bit_word_eqI)
  fix n assume "n < LENGTH('a)"
  then show "bit (signed_drop_bit (LENGTH('a) - 1) w) n = bit (if bit w (LENGTH('a) - 1) then - 1 else 0 :: 'a word) n"
    by (cases n) (auto simp: bit_signed_drop_bit_iff)
qed

lemma zz_enc_cases:
  "zz_enc (w :: 'a::len word) = (if bit w (LENGTH('a) - 1) then NOT (push_bit 1 w) else push_bit 1 w)"
  by (simp only: zz_enc_def signed_drop_all split: if_split) simp

lemma zz_dec_cases:
  "zz_dec (e :: 'a::len word) = (if bit e 0 then NOT (drop_bit 1 e) else drop_bit 1 e)"
  by (simp add: zz_dec_def and_one_eq mod_2_eq_odd bit_0)

lemma bit_push_1: "bit (push_bit 1 (w :: 'a::len word)) n \<longleftrightarrow> 0 < n \<and> n < LENGTH('a) \<and> bit w (n - 1)"
  by (auto simp only: bit_push_bit_iff possible_bit_word)

lemma bit_times_2: "bit (w * 2 :: 'a::len word) n \<longleftrightarrow> 0 < n \<and> n < LENGTH('a) \<and> bit w (n - 1)"
  using bit_push_1 [of w n] by simp

lemma bit_drop_1: "bit (drop_bit 1 (w :: 'a::len word)) n \<longleftrightarrow> bit w (n + 1)"
  by (simp only: bit_drop_bit_eq o_apply add.commute)

lemma zz_dec_enc [simp]: "zz_dec (zz_enc w) = (w :: 'a::len word)"
proof (rule bit_word_eqI)
  fix i assume i: "i < LENGTH('a)"
  have 0: "bit (zz_enc w) 0 \<longleftrightarrow> bit w (LENGTH('a) - 1)"
    by (simp only: zz_enc_cases bit_not_iff bit_push_1 split: if_split) simp
  show "bit (zz_dec (zz_enc w)) i = bit w i"
    using i by (cases "i = LENGTH('a) - 1")
     (auto simp only: zz_dec_cases 0 zz_enc_cases bit_not_iff bit_drop_1 bit_push_1 possible_bit_word if_True if_False add_diff_cancel_right' add_gr_0 zero_less_one simp_thms split: if_splits)
qed

lemma zigzag_less: "zigzag (sint (w :: 'a::len word)) < 2 ^ LENGTH('a)"
proof -
  obtain n where n: "LENGTH('a) = Suc n" using len_gt_0 [where 'a = 'a] gr0_conv_Suc by blast
  have "- (2 ^ n) \<le> sint w" "sint w < 2 ^ n" using sint_ge [of w] sint_lt [of w] by (simp_all add: n)
  then have "int (zigzag (sint w)) < 2 * 2 ^ n" by (auto simp: zigzag_def)
  then show ?thesis unfolding n by (metis of_nat_less_iff of_nat_numeral of_nat_power power_Suc)
qed

lemma zz_enc_zigzag: "zz_enc (w :: 'a::len word) = of_nat (zigzag (sint w))"
proof (cases "sint w < 0")
  case True
  then have "zz_enc w = NOT (push_bit 1 w)" by (simp add: zz_enc_cases bit_last_iff)
  also have "\<dots> = - 2 * w - 1" by (simp add: not_eq_complement)
  also have "\<dots> = of_int (- 2 * sint w - 1)" by simp
  also have "\<dots> = of_nat (nat (- 2 * sint w - 1))" using True by (subst of_nat_nat) simp_all
  finally show ?thesis using True by (simp add: zigzag_def)
next
  case False
  then have "zz_enc w = push_bit 1 w" by (simp add: zz_enc_cases bit_last_iff)
  also have "\<dots> = of_int (2 * sint w)" by simp
  also have "\<dots> = of_nat (nat (2 * sint w))" using False by (subst of_nat_nat) simp_all
  finally show ?thesis using False by (simp add: zigzag_def)
qed

lemma unat_zz_enc: "unat (zz_enc (w :: 'a::len word)) = zigzag (sint w)"
  by (simp only: zz_enc_zigzag unat_of_nat_small zigzag_less)

lemma zz16: "ucast (push_bit 1 (scast v :: u32) XOR signed_drop_bit 15 (scast v :: u32)) = zz_enc (v :: u16)"
proof (rule bit_word_eqI)
  fix n assume "n < LENGTH(16)"
  then show "bit (ucast (push_bit 1 (scast v :: u32) XOR signed_drop_bit 15 (scast v :: u32)) :: u16) n = bit (zz_enc v) n"
   by (cases n) (auto simp: zz_enc_def bit_ucast_iff bit_xor_iff bit_times_2 bit_signed_drop_bit_iff bit_word_scast_iff dest: bit_imp_le_length)
qed
lemma zz16_dec:
  "ucast ((scast (ucast (drop_bit 1 v) :: u16) :: u32) XOR - (scast (ucast (v AND 1) :: u16) :: u32)) =
   zz_dec (ucast (v :: u64) :: u16)" if "unat v < 2 ^ 16"
proof (rule bit_word_eqI)
  fix n assume n: "n < LENGTH(16)"
  have e: "- (scast (ucast (v AND 1) :: u16) :: u32) = (if bit v 0 then - 1 else 0)"
    by (simp add: and_one_eq mod_2_eq_odd bit_0)
  have b: "\<not> bit v k" if "16 \<le> k" for k
  proof -
    have "unat v < 2 ^ k" using \<open>unat v < 2 ^ 16\<close> that
      by (meson not_less order_less_le_trans one_le_numeral power_increasing)
    then have "\<not> bit (unat v) k" by (simp add: bit_iff_odd)
    then show ?thesis by (simp add: bit_unsigned_iff)
  qed
  show "bit (ucast ((scast (ucast (drop_bit 1 v) :: u16) :: u32) XOR - (scast (ucast (v AND 1) :: u16) :: u32)) :: u16) n = bit (zz_dec (ucast v :: u16)) n"
    using n unfolding e by (cases "n = 15") (auto simp only: zz_dec_cases bit_ucast_iff bit_xor_iff bit_word_scast_iff
     bit_drop_1 bit_not_iff b if_True if_False split: if_splits, simp_all add: b)
qed

subsection \<open>The contract of a codec\<close>

lemma futils_varint_write_vlq:
  "mx \<le> dst_len \<Longrightarrow> length (vlq (unat v)) \<le> length dst \<Longrightarrow>
   futils_varint_write (Some dst) dst_len v (Some l) mx =
     (Inr (), Some (mem_write 0 (vlq (unat v)) dst), Some (length (vlq (unat v))))"
  by (simp add: futils_varint_write_def varint_write_loop_vlq)

lemma futils_varint_read_vlq:
  assumes "n < 2 ^ 64" "length (vlq n) \<le> src_len" "length (vlq n) \<le> mx"
  shows "futils_varint_read (Some (vlq n @ rest)) src_len (Some v0) (Some l) mx =
    (case after_value mx (length (vlq n)) rest of
       Inl e \<Rightarrow> (Inl e, Some (of_nat n), Some l)
     | Inr k \<Rightarrow> (Inr (), Some (of_nat n), Some k))"
proof -
  have "0 < src_len" using assms(2) length_vlq_pos(1) [of n] by linarith
  then show ?thesis
    using varint_read_loop_vlq [of 0 "vlq n @ rest" n rest src_len mx 0 0] assms
    by (simp add: futils_varint_read_def split: sum.split)
qed

text \<open>
  A codec stores a value \<open>v\<close> as the groups of the number \<open>code v\<close>, at most \<open>mx\<close> bytes.  Its
  writer needs a destination of at least \<open>mx\<close> bytes; its reader finds the value again, with the
  verdict \<open>after_value\<close> on what follows.
\<close>

locale varint_codec =
  fixes wr :: "u8 list option \<Rightarrow> nat \<Rightarrow> 'v \<Rightarrow> nat option \<Rightarrow> unit res \<times> u8 list option \<times> nat option"
    and rd :: "u8 list option \<Rightarrow> nat \<Rightarrow> 'v option \<Rightarrow> nat option \<Rightarrow> unit res \<times> 'v option \<times> nat option"
    and code :: "'v \<Rightarrow> nat"
    and mx :: nat
  assumes length_code: "length (vlq (code v)) \<le> mx"
    and write_code: "mx \<le> dst_len \<Longrightarrow> length (vlq (code v)) \<le> length dst \<Longrightarrow>
      wr (Some dst) dst_len v (Some l) =
        (Inr (), Some (mem_write 0 (vlq (code v)) dst), Some (length (vlq (code v))))"
    and read_code: "length (vlq (code v)) \<le> src_len \<Longrightarrow>
      rd (Some (vlq (code v) @ rest)) src_len (Some v0) (Some l) =
        (case after_value mx (length (vlq (code v))) rest of
           Inl e \<Rightarrow> (Inl e, Some v, Some l)
         | Inr k \<Rightarrow> (Inr (), Some v, Some k))"
begin

lemma write_mem: "length (vlq (code v)) \<le> length dst \<Longrightarrow>
    mem_write 0 (vlq (code v)) dst = vlq (code v) @ drop (length (vlq (code v))) dst"
  by (simp add: mem_write_def)

lemma round_trip:
  assumes dst: "mx \<le> dst_len" "mx < length dst" "dst ! mx AND 0x0f = 0"
  obtains m n where "wr (Some dst) dst_len v (Some l) = (Inr (), Some m, Some n)"
    "0 < n" "n \<le> mx" "length m = length dst" "drop n m = drop n dst"
    "rd (Some m) n (Some v0) (Some l0) = (Inr (), Some v, Some n)"
proof -
  let ?k = "length (vlq (code v))"
  let ?m = "vlq (code v) @ drop ?k dst"
  have k: "?k \<le> mx" "?k < length dst" using length_code [of v] dst(2) by linarith+
  have "after_value mx ?k (drop ?k dst) = Inr ?k"
    using k dst(3) by (cases "drop ?k dst") (auto simp: after_value_def dest: nth_via_drop)
  then have "rd (Some ?m) ?k (Some v0) (Some l0) = (Inr (), Some v, Some ?k)"
    by (simp add: read_code)
  moreover have "wr (Some dst) dst_len v (Some l) = (Inr (), Some ?m, Some ?k)"
    using dst(1) k by (simp add: write_code write_mem)
  ultimately show ?thesis using that [of ?m ?k] k by simp
qed

lemma full_then_next:
  assumes "length (vlq (code v)) = mx" "mx \<le> src_len"
  shows "rd (Some (vlq (code v))) src_len (Some v0) (Some l) = (Inl Fault, Some v, Some l)"
    and "b AND 0x0f \<noteq> 0 \<Longrightarrow>
      rd (Some (vlq (code v) @ b # rest)) src_len (Some v0) (Some l) = (Inl EPROTO, Some v, Some l)"
  using read_code [of v src_len "[]" v0 l] read_code [of v src_len "b # rest" v0 l] assms
  by (simp_all add: after_value_def)

lemma code_inj: "code v = code w \<Longrightarrow> v = w"
proof -
  assume "code v = code w"
  then have "rd (Some (vlq (code v) @ [0])) mx (Some v) (Some 0) = rd (Some (vlq (code w) @ [0])) mx (Some v) (Some 0)"
    by simp
  then show "v = w" by (simp add: read_code length_code after_value_def split: if_splits)
qed

end

lemma code_bound: "unat (v :: 'a::len word) < 2 ^ n" if "LENGTH('a) \<le> n"
  using unsigned_less [of v, where ?'a = nat] that
  by (meson one_le_numeral order_less_le_trans power_increasing)

lemma ucast_ucast_up [simp]:
  "LENGTH('a) \<le> LENGTH('b) \<Longrightarrow> ucast (ucast v :: 'b::len word) = (v :: 'a::len word)"
  by (simp add: ucast_up_ucast_id is_up.rep_eq)

lemma zz_dec_ucast:
  fixes e :: "'a::len word"
  assumes "LENGTH('a) \<le> LENGTH('b)"
  shows "ucast (drop_bit 1 (ucast e :: 'b::len word)) XOR - ucast (ucast e AND 1 :: 'b word) = zz_dec e"
proof -
  have "ucast (ucast e AND 1 :: 'b word) = e AND 1"
    using assms by (intro bit_word_eqI) (auto simp: bit_ucast_iff bit_and_iff bit_1_iff)
  moreover have "ucast (drop_bit 1 (ucast e :: 'b word)) = drop_bit 1 e"
    using assms by (intro bit_word_eqI)
      (auto simp only: bit_ucast_iff bit_drop_1 possible_bit_word simp_thms dest: bit_imp_le_length)
  ultimately show ?thesis by (simp only: zz_dec_def)
qed

lemma zz_code: "(of_nat (zigzag (sint (v :: 'a::len word))) :: 'b::len word) = ucast (zz_enc v)"
  by (metis of_nat_unat unat_zz_enc)

lemma groups_bound: "(n::nat) < 2 ^ m \<Longrightarrow> m \<le> 7 * Suc k \<Longrightarrow> length (vlq n) \<le> Suc k"
proof (rule length_vlq_le)
  assume "n < 2 ^ m" "m \<le> 7 * Suc k"
  then have "n < 2 ^ (7 * Suc k)" by (meson one_le_numeral order_less_le_trans power_increasing)
  also have "\<dots> = 128 ^ Suc k" by (simp only: power_mult) simp
  finally show "n < 128 ^ Suc k" .
qed

lemma length_zigzag: "LENGTH('a) \<le> 7 * Suc k \<Longrightarrow> length (vlq (zigzag (sint (v :: 'a::len word)))) \<le> Suc k"
  by (rule groups_bound [OF zigzag_less])

lemma length_unat: "LENGTH('a) \<le> 7 * Suc k \<Longrightarrow> length (vlq (unat (v :: 'a::len word))) \<le> Suc k"
  by (rule groups_bound [OF unsigned_less])

interpretation vu16: varint_codec futils_varint_write_u16 futils_varint_read_u16 unat 3
  using length_unat [where ?'a = 16 and k = 2] code_bound [where ?'a = 16 and n = 64]
  by unfold_locales (simp_all add: futils_varint_write_u16_def futils_varint_read_u16_def
      futils_varint_write_vlq futils_varint_read_vlq unat_ucast_le split: sum.split)

interpretation vu32: varint_codec futils_varint_write_u32 futils_varint_read_u32 unat 5
  using length_unat [where ?'a = 32 and k = 4] code_bound [where ?'a = 32 and n = 64]
  by unfold_locales (simp_all add: futils_varint_write_u32_def futils_varint_read_u32_def
      futils_varint_write_vlq futils_varint_read_vlq unat_ucast_le split: sum.split)

interpretation vu64: varint_codec futils_varint_write_u64 futils_varint_read_u64 unat 10
  using length_unat [where ?'a = 64 and k = 9] code_bound [where ?'a = 64 and n = 64]
  by unfold_locales (simp_all add: futils_varint_write_u64_def futils_varint_read_u64_def
      futils_varint_write_vlq futils_varint_read_vlq split: sum.split)

lemma zigzag_64: "LENGTH('a) \<le> 64 \<Longrightarrow> zigzag (sint (v :: 'a::len word)) < 2 ^ 64"
  using zigzag_less [of v] by (meson one_le_numeral order_less_le_trans power_increasing)

interpretation vi32: varint_codec futils_varint_write_i32 futils_varint_read_i32 "\<lambda>v. zigzag (sint v)" 5
proof
  fix v v0 :: u32 and dst_len src_len l :: nat and dst rest :: "u8 list"
  have enc: "push_bit 1 v XOR signed_drop_bit 31 v = zz_enc v" by (simp only: zz_enc_def) simp
  show len: "length (vlq (zigzag (sint v))) \<le> 5" using length_zigzag [of 4 v] by simp
  show "5 \<le> dst_len \<Longrightarrow> length (vlq (zigzag (sint v))) \<le> length dst \<Longrightarrow>
      futils_varint_write_i32 (Some dst) dst_len v (Some l) =
        (Inr (), Some (mem_write 0 (vlq (zigzag (sint v))) dst), Some (length (vlq (zigzag (sint v)))))"
    by (simp only: futils_varint_write_i32_def enc Let_def)
      (simp add: futils_varint_write_vlq unat_ucast_le unat_zz_enc)
  show "length (vlq (zigzag (sint v))) \<le> src_len \<Longrightarrow>
      futils_varint_read_i32 (Some (vlq (zigzag (sint v)) @ rest)) src_len (Some v0) (Some l) =
        (case after_value 5 (length (vlq (zigzag (sint v)))) rest of
           Inl e \<Rightarrow> (Inl e, Some v, Some l) | Inr k \<Rightarrow> (Inr (), Some v, Some k))"
    using len zigzag_64 [of v] zz_dec_ucast [where ?'b = 64, of "zz_enc v"]
    by (simp add: futils_varint_read_i32_def futils_varint_read_vlq zz_code split: sum.split)
qed

interpretation vi64: varint_codec futils_varint_write_i64 futils_varint_read_i64 "\<lambda>v. zigzag (sint v)" 10
proof
  fix v v0 :: u64 and dst_len src_len l :: nat and dst rest :: "u8 list"
  have enc: "push_bit 1 v XOR signed_drop_bit 63 v = zz_enc v" by (simp only: zz_enc_def) simp
  show len: "length (vlq (zigzag (sint v))) \<le> 10" using length_zigzag [of 9 v] by simp
  show "10 \<le> dst_len \<Longrightarrow> length (vlq (zigzag (sint v))) \<le> length dst \<Longrightarrow>
      futils_varint_write_i64 (Some dst) dst_len v (Some l) =
        (Inr (), Some (mem_write 0 (vlq (zigzag (sint v))) dst), Some (length (vlq (zigzag (sint v)))))"
    by (simp only: futils_varint_write_i64_def enc Let_def)
      (simp add: futils_varint_write_vlq unat_zz_enc)
  show "length (vlq (zigzag (sint v))) \<le> src_len \<Longrightarrow>
      futils_varint_read_i64 (Some (vlq (zigzag (sint v)) @ rest)) src_len (Some v0) (Some l) =
        (case after_value 10 (length (vlq (zigzag (sint v)))) rest of
           Inl e \<Rightarrow> (Inl e, Some v, Some l) | Inr k \<Rightarrow> (Inr (), Some v, Some k))"
    using len zigzag_64 [of v] zz_dec_ucast [where ?'b = 64, of "zz_enc v"]
    by (simp add: futils_varint_read_i64_def futils_varint_read_vlq zz_code split: sum.split)
qed

interpretation vi16: varint_codec futils_varint_write_i16 futils_varint_read_i16 "\<lambda>v. zigzag (sint v)" 3
proof
  fix v v0 :: u16 and dst_len src_len l :: nat and dst rest :: "u8 list"
  show len: "length (vlq (zigzag (sint v))) \<le> 3" using length_zigzag [of 2 v] by simp
  show "3 \<le> dst_len \<Longrightarrow> length (vlq (zigzag (sint v))) \<le> length dst \<Longrightarrow>
      futils_varint_write_i16 (Some dst) dst_len v (Some l) =
        (Inr (), Some (mem_write 0 (vlq (zigzag (sint v))) dst), Some (length (vlq (zigzag (sint v)))))"
    by (simp only: futils_varint_write_i16_def zz16 Let_def)
      (simp add: futils_varint_write_vlq unat_ucast_le unat_zz_enc)
  have dec: "zz_dec (ucast (of_nat (zigzag (sint v)) :: u64)) = v"
    by (simp add: zz_code)
  have small: "unat (of_nat (zigzag (sint v)) :: u64) < 2 ^ 16"
    using zigzag_less [of v] unat_ucast_le [where ?'b = 64, of "zz_enc v"]
    by (simp add: zz_code unat_zz_enc)
  show "length (vlq (zigzag (sint v))) \<le> src_len \<Longrightarrow>
      futils_varint_read_i16 (Some (vlq (zigzag (sint v)) @ rest)) src_len (Some v0) (Some l) =
        (case after_value 3 (length (vlq (zigzag (sint v)))) rest of
           Inl e \<Rightarrow> (Inl e, Some v, Some l) | Inr k \<Rightarrow> (Inr (), Some v, Some k))"
    using len zigzag_64 [of v]
    by (simp only: futils_varint_read_i16_def option.case futils_varint_read_vlq)
      (simp add: futils_varint_read_vlq zz16_dec [OF small, unfolded One_nat_def] dec split: sum.split)
qed

lemma varint_read_loop_no_fault:
  assumes "src_len < length src" "mx \<le> 9" "off \<le> src_len" "off \<le> mx" "shift = 7 * off"
  shows "fst (varint_read_loop src src_len mx shift off val) \<noteq> Inl Fault"
  using assms
proof (induction "mx - off" arbitrary: off shift val rule: less_induct)
  case less
  let ?v = "val OR push_bit shift (ucast (src ! off AND 0x7f))"
  have "off < length src" "shift < 64" using less.prems by simp_all
  moreover have "fst (varint_read_loop src src_len mx (shift + 7) (off + 1) ?v) \<noteq> Inl Fault"
    if "off + 1 \<le> src_len" "off + 1 \<le> mx"
    using that less.prems by (intro less.hyps) simp_all
  ultimately show ?case
    using less.prems by (subst varint_read_loop.simps) (simp add: Let_def)
qed

lemma varint_read_loop_cut:
  assumes "off \<le> src_len" "src_len \<le> length src" "src_len < mx" "mx \<le> 10" "shift = 7 * off"
    and "\<forall>i. off \<le> i \<and> i < src_len \<longrightarrow> 128 \<le> unat (src ! i)"
  shows "fst (varint_read_loop src src_len mx shift off val) =
    (if src_len < length src then Inl EPROTO else Inl Fault)"
  using assms
proof (induction "src_len - off" arbitrary: off shift val rule: less_induct)
  case less
  let ?v = "val OR push_bit shift (ucast (src ! off AND 0x7f))"
  have sh: "shift < 64" using less.prems by simp
  show ?case
  proof (cases "off = src_len")
    case True
    then show ?thesis using less.prems(2) sh
      by (subst varint_read_loop.simps) (simp add: Let_def)
  next
    case False
    have "fst (varint_read_loop src src_len mx (shift + 7) (off + 1) ?v) =
        (if src_len < length src then Inl EPROTO else Inl Fault)"
      using False less.prems by (intro less.hyps) simp_all
    moreover have "src ! off AND 0x80 \<noteq> 0"
      using False less.prems u8_more [of "src ! off"] by simp
    moreover have "off < length src" "off + 1 \<le> src_len" "off + 1 < mx" using False less.prems by simp_all
    ultimately show ?thesis using sh
      by (subst varint_read_loop.simps) (simp add: Let_def)
  qed
qed

lemma vlq_value_vlq [simp]: "vlq_value (vlq n) = n"
proof (induction n rule: vlq.induct)
  case (1 n)
  show ?case
  proof (cases "n < 128")
    case False
    have "unat (of_nat (n mod 128 + 128) :: u8) = n mod 128 + 128"
      by (rule unat_of_nat_small) simp
    then show ?thesis using 1 False by (simp add: vlq.simps [of n] del: of_nat_add)
  qed (simp add: vlq.simps [of n] unat_of_nat_small)
qed

lemma vlq_minimal: "length (vlq n) \<le> Suc k \<longleftrightarrow> n < 128 ^ Suc k"
proof
  show "length (vlq n) \<le> Suc k \<Longrightarrow> n < 128 ^ Suc k"
  proof (induction n arbitrary: k rule: vlq.induct)
    case (1 n)
    show ?case
    proof (cases "n < 128")
      case True
      have "(128::nat) ^ 1 \<le> 128 ^ Suc k" by (rule power_increasing) simp_all
      with True show ?thesis by (simp del: power_Suc)
    next
      case False
      then obtain k' where "k = Suc k'" "length (vlq (n div 128)) \<le> Suc k'"
        using "1.prems" length_vlq_pos(1) [of "n div 128"] by (cases k) (simp_all add: vlq.simps [of n])
      with "1.IH" False have "n div 128 < 128 ^ k" by simp
      then show ?thesis by (simp add: div_less_iff_less_mult mult.commute)
    qed
  qed
qed (rule length_vlq_le)

section \<open>Properties\<close>

text \<open>
  What a reader and a writer of the same width promise together.  The reader looks at the byte
  after a value of maximal length, so the byte of the destination behind the longest encoding
  must have a clear low nibble.
\<close>

definition round_trips ::
  "(u8 list option \<Rightarrow> nat \<Rightarrow> 'v \<Rightarrow> nat option \<Rightarrow> unit res \<times> u8 list option \<times> nat option) \<Rightarrow>
   (u8 list option \<Rightarrow> nat \<Rightarrow> 'v option \<Rightarrow> nat option \<Rightarrow> unit res \<times> 'v option \<times> nat option) \<Rightarrow>
   nat \<Rightarrow> u8 list \<Rightarrow> nat \<Rightarrow> 'v \<Rightarrow> bool" where
  "round_trips wr rd mx dst dst_len v \<longleftrightarrow>
    (\<exists>m n. wr (Some dst) dst_len v (Some 0) = (Inr (), Some m, Some n) \<and>
       0 < n \<and> n \<le> mx \<and> length m = length dst \<and> drop n m = drop n dst \<and>
       (\<forall>v0 l0. rd (Some m) n (Some v0) (Some l0) = (Inr (), Some v, Some n)))"

context varint_codec begin

lemma round_tripsI:
  assumes dst: "mx \<le> dst_len" "mx < length dst" "dst ! mx AND 0x0f = 0"
  shows "round_trips wr rd mx dst dst_len v"
proof -
  obtain m n where "wr (Some dst) dst_len v (Some 0) = (Inr (), Some m, Some n)"
    "0 < n" "n \<le> mx" "length m = length dst" "drop n m = drop n dst"
    "rd (Some m) n (Some v) (Some 0) = (Inr (), Some v, Some n)"
    by (rule round_trip [OF dst])
  moreover have "rd (Some m) n (Some v0) (Some l0) = (Inr (), Some v, Some n)" for v0 l0
  proof -
    obtain m' n' where "wr (Some dst) dst_len v (Some 0) = (Inr (), Some m', Some n')"
      "rd (Some m') n' (Some v0) (Some l0) = (Inr (), Some v, Some n')"
      by (rule round_trip [OF dst])
    with calculation(1) show ?thesis by simp
  qed
  ultimately show ?thesis unfolding round_trips_def by blast
qed

end

text \<open>
  Property C3.  Whatever value is written, in each of the six widths and signs, into an array of more than
  10 bytes whose bytes at the offsets 3, 5 and 10 have a clear low nibble, with at least 10 bytes allowed:
  reading back the bytes written returns the value and the number of bytes, and the writer touches nothing
  behind them.  The three bytes are the ones the readers look at behind a value of maximal length; without
  the condition on them a round trip fails (\<open>varint_full_length_lookahead\<close>).
\<close>

theorem varint_round_trip:
  assumes "10 \<le> dst_len" "10 < length dst"
    and "dst ! 3 AND 0x0f = 0" "dst ! 5 AND 0x0f = 0" "dst ! 10 AND 0x0f = 0"
  shows "round_trips futils_varint_write_u16 futils_varint_read_u16 3 dst dst_len a \<and>
    round_trips futils_varint_write_i16 futils_varint_read_i16 3 dst dst_len b \<and>
    round_trips futils_varint_write_u32 futils_varint_read_u32 5 dst dst_len c \<and>
    round_trips futils_varint_write_i32 futils_varint_read_i32 5 dst dst_len d \<and>
    round_trips futils_varint_write_u64 futils_varint_read_u64 10 dst dst_len e \<and>
    round_trips futils_varint_write_i64 futils_varint_read_i64 10 dst dst_len f"
  using assms
  by (intro conjI vu16.round_tripsI vi16.round_tripsI vu32.round_tripsI vi32.round_tripsI
      vu64.round_tripsI vi64.round_tripsI) simp_all

theorem varint_round_trip_witness:
  "round_trips futils_varint_write_i32 futils_varint_read_i32 5 (replicate 11 0) 10 (- 1000)"
  using varint_round_trip [of 10 "replicate 11 0"] by simp

text \<open>
  Property C23.  A writer stores the shortest sequence of seven-bit groups that stands for the
  (ZigZag) number, leaves the rest of the destination alone, and reports that length; here for
  the 64-bit writers, and the same through the contract for the narrower ones.
\<close>

theorem varint_write_minimal:
  assumes "10 \<le> dst_len" "dst_len \<le> length dst"
  shows "futils_varint_write_u64 (Some dst) dst_len v (Some l) =
      (Inr (), Some (vlq (unat v) @ drop (length (vlq (unat v))) dst), Some (length (vlq (unat v)))) \<and>
    futils_varint_write_i64 (Some dst) dst_len w (Some l) =
      (Inr (), Some (vlq (zigzag (sint w)) @ drop (length (vlq (zigzag (sint w)))) dst),
       Some (length (vlq (zigzag (sint w))))) \<and>
    vlq_value (vlq n) = n \<and> (length (vlq n) \<le> Suc k \<longleftrightarrow> n < 128 ^ Suc k)"
proof -
  have "length (vlq (unat v)) \<le> length dst" "length (vlq (zigzag (sint w))) \<le> length dst"
    using vu64.length_code [of v] vi64.length_code [of w] assms by linarith+
  then show ?thesis using assms(1)
    by (simp only: vu64.write_code vi64.write_code vu64.write_mem vi64.write_mem vlq_value_vlq vlq_minimal simp_thms)
qed

theorem varint_write_minimal_witness:
  "\<exists>m. futils_varint_write_i64 (Some (replicate 10 7)) 10 (- 1) (Some 0) = (Inr (), Some m, Some 1)"
  using varint_write_minimal [of 10 "replicate 10 7" 0 0 "- 1" 0 0]
  by (simp add: zigzag_def vlq.simps [of "Suc 0"])

text \<open>
  Property C24.  When the reader succeeds, the bytes it consumed are the shortest prefix of the
  source that ends in an unmarked byte, within both length limits and within the object, and
  the value is the number these bytes stand for, modulo \<open>2 ^ 64\<close>.
\<close>

theorem varint_read_sound:
  assumes "futils_varint_read (Some src) src_len (Some v0) (Some l0) mx = (Inr (), Some v, Some k)"
  shows "0 < k \<and> k \<le> src_len \<and> k \<le> mx \<and> k \<le> length src \<and>
    (\<forall>i < k - 1. 128 \<le> unat (src ! i)) \<and> unat (src ! (k - 1)) < 128 \<and>
    v = of_nat (vlq_value (take k src))"
proof -
  have "varint_read_loop src src_len mx 0 0 0 = (Inr k, v)"
    using assms by (auto simp: futils_varint_read_def split: if_splits prod.splits sum.splits)
  from varint_read_loop_sound [OF this] show ?thesis by (simp add: mem_read_def)
qed

theorem varint_read_sound_witness:
  "vlq_value (take 2 [0xac, 0x02, 0]) = 300 \<and> unat ([0xac, 0x02, 0 :: u8] ! 1) < 128"
proof -
  have "futils_varint_read (Some [0xac, 0x02, 0]) 3 (Some 0) (Some 0) 10 = (Inr (), Some 300, Some 2)"
    by (simp add: futils_varint_read_def varint_read_loop.simps)
  from varint_read_sound [OF this] show ?thesis by simp
qed

text \<open>
  Property C33.  The reader inspects one byte more than the value when the value has maximal
  length: at the end of the object that is an access outside it, and a next byte whose low
  nibble is not clear makes a value of maximal length unreadable, although the byte belongs to
  the next item.
\<close>

theorem varint_full_length_lookahead:
  assumes "length (vlq (unat v)) = 3" "length (vlq (unat w)) = 5" "b AND 0x0f \<noteq> 0"
  shows "futils_varint_read_u16 (Some (vlq (unat v))) 3 (Some v0) (Some l) = (Inl Fault, Some v, Some l) \<and>
    futils_varint_read_u16 (Some (vlq (unat v) @ b # rest)) (4 + length rest) (Some v0) (Some l) =
      (Inl EPROTO, Some v, Some l) \<and>
    futils_varint_read_u32 (Some (vlq (unat w))) 5 (Some w0) (Some l) = (Inl Fault, Some w, Some l) \<and>
    futils_varint_read_u32 (Some (vlq (unat w) @ b # rest)) (6 + length rest) (Some w0) (Some l) =
      (Inl EPROTO, Some w, Some l)"
  using assms by (simp add: vu16.full_then_next vu32.full_then_next)

theorem varint_full_length_lookahead_witness:
  "futils_varint_read_u16 (Some (vlq 65535 @ [1])) 4 (Some 0) (Some 0) = (Inl EPROTO, Some 65535, Some 0)"
  using varint_full_length_lookahead [of 65535 4294967295 1 0 0 "[]" 0]
  by (simp add: vlq.simps [of 65535] vlq.simps [of 511] vlq.simps [of 3] vlq.simps [of 4294967295]
    vlq.simps [of 33554431] vlq.simps [of 262143] vlq.simps [of 2047] vlq.simps [of 15])

text \<open>
  A source cut off in the middle of a value is refused with \<open>EPROTO\<close>, but only
  after the byte at index \<open>src_len\<close> was read: at the end of the object the reader faults.
\<close>

theorem varint_truncated:
  assumes "0 < src_len" "src_len \<le> length src" "src_len < mx" "mx \<le> 10"
    and "\<forall>i < src_len. 128 \<le> unat (src ! i)"
  shows "fst (futils_varint_read (Some src) src_len (Some v0) (Some l) mx) =
    (if src_len < length src then Inl EPROTO else Inl Fault)"
  using varint_read_loop_cut [of 0 src_len src mx 0 0] assms
  by (cases "src_len < length src") (auto simp: futils_varint_read_def split: prod.split sum.split)

theorem varint_truncated_witness:
  "fst (futils_varint_read (Some [0x80, 0x81]) 2 (Some 0) (Some 0) 5) = Inl Fault \<and>
   fst (futils_varint_read (Some [0x80, 0x81, 0]) 2 (Some 0) (Some 0) 5) = Inl EPROTO"
  using varint_truncated [of 2 "[0x80, 0x81]" 5] varint_truncated [of 2 "[0x80, 0x81, 0]" 5]
  by (simp add: less_2_cases_iff all_conj_distrib)

text \<open>
  Property C34.  With one readable byte behind the \<open>src_len\<close> bytes of the source, the 16-bit and
  32-bit readers never leave the object.
\<close>

theorem varint_read_memory_safe:
  assumes "src_len < length src"
  shows "fst (futils_varint_read_u16 (Some src) src_len a l) \<noteq> Inl Fault \<and>
    fst (futils_varint_read_i16 (Some src) src_len a l) \<noteq> Inl Fault \<and>
    fst (futils_varint_read_u32 (Some src) src_len c l) \<noteq> Inl Fault \<and>
    fst (futils_varint_read_i32 (Some src) src_len c l) \<noteq> Inl Fault"
proof -
  have "fst (futils_varint_read (Some src) src_len v l mx) \<noteq> Inl Fault" if "mx \<le> 9" for v mx
    using varint_read_loop_no_fault [of src_len src mx 0 0 0] assms that
    by (auto simp: futils_varint_read_def split: option.split prod.split sum.split)
  from this [of 3 "Some 0"] this [of 5 "Some 0"] show ?thesis
    by (auto simp: futils_varint_read_u16_def futils_varint_read_i16_def futils_varint_read_u32_def
      futils_varint_read_i32_def split: option.split prod.split)
qed

theorem varint_read_memory_safe_witness:
  "fst (futils_varint_read_u32 (Some [0x80, 0x80, 0x80]) 2 (Some 0) (Some 0)) \<noteq> Inl Fault"
  using varint_read_memory_safe [of 2 "[0x80, 0x80, 0x80]" None "Some 0" "Some 0"] by simp

end
