(* ===== verification/Fifo.thy ===== *)
theory Fifo
  imports Prelude
begin

text \<open>
  The contract of a first-in first-out container, which three components of the library
  implement: the list helpers \<open>list_push\<close>/\<open>list_pop\<close>, the pipe mailbox and the dynamic mailbox.

  \<open>holds s xs\<close>: state \<open>s\<close> is well formed and contains \<open>xs\<close>, oldest first.
  \<open>accepts xs a\<close>: with the contents \<open>xs\<close> the element \<open>a\<close> can be stored.
  An operation that returns \<open>None\<close> failed.
\<close>

datatype 'a fifo_op = Enq 'a | Deq

text \<open>A run whose insertions are all accepted at the moment they are made.\<close>

fun admissible :: "('a list \<Rightarrow> 'a \<Rightarrow> bool) \<Rightarrow> 'a fifo_op list \<Rightarrow> 'a list \<Rightarrow> bool" where
  "admissible ok [] q = True"
| "admissible ok (Enq a # ops) q = (ok q a \<and> admissible ok ops (q @ [a]))"
| "admissible ok (Deq # ops) q = admissible ok ops (tl q)"

text \<open>The abstract queue: what the dequeue operations of a run return, and what is left.\<close>

fun queue_run :: "'a fifo_op list \<Rightarrow> 'a list \<Rightarrow> 'a option list \<times> 'a list" where
  "queue_run [] q = ([], q)"
| "queue_run (Enq a # ops) q = queue_run ops (q @ [a])"
| "queue_run (Deq # ops) [] = (let (out, q') = queue_run ops [] in (None # out, q'))"
| "queue_run (Deq # ops) (x # q) = (let (out, q') = queue_run ops q in (Some x # out, q'))"

text \<open>The same run on an implementation.\<close>

fun fifo_run :: "('a \<Rightarrow> 's \<Rightarrow> 's option) \<Rightarrow> ('s \<Rightarrow> ('a option \<times> 's) option) \<Rightarrow>
    'a fifo_op list \<Rightarrow> 's \<Rightarrow> ('a option list \<times> 's) option" where
  "fifo_run enq deq [] s = Some ([], s)"
| "fifo_run enq deq (Enq a # ops) s = do { s \<leftarrow> enq a s; fifo_run enq deq ops s }"
| "fifo_run enq deq (Deq # ops) s = do {
     (x, s) \<leftarrow> deq s; (out, s) \<leftarrow> fifo_run enq deq ops s; Some (x # out, s) }"

locale fifo =
  fixes holds :: "'s \<Rightarrow> 'a list \<Rightarrow> bool"
    and accepts :: "'a list \<Rightarrow> 'a \<Rightarrow> bool"
    and enq :: "'a \<Rightarrow> 's \<Rightarrow> 's option"
    and deq :: "'s \<Rightarrow> ('a option \<times> 's) option"
  assumes enq_law: "holds s xs \<Longrightarrow> accepts xs a \<Longrightarrow> \<exists>s'. enq a s = Some s' \<and> holds s' (xs @ [a])"
    and deq_law: "holds s (x # xs) \<Longrightarrow> \<exists>s'. deq s = Some (Some x, s') \<and> holds s' xs"
    and deq_empty: "holds s [] \<Longrightarrow> \<exists>s'. deq s = Some (None, s') \<and> holds s' []"
begin

text \<open>Every interleaving of the two operations behaves like the abstract queue.\<close>

lemma run_refines:
  assumes "holds s xs" "admissible accepts ops xs"
  shows "\<exists>s'. fifo_run enq deq ops s = Some (fst (queue_run ops xs), s') \<and>
    holds s' (snd (queue_run ops xs))"
  using assms
proof (induction ops xs arbitrary: s rule: queue_run.induct)
  case (2 a ops q)
  then obtain s' where "enq a s = Some s'" "holds s' (q @ [a])"
    using enq_law by fastforce
  with 2 show ?case by auto
next
  case (3 ops)
  then obtain s' where "deq s = Some (None, s')" "holds s' []"
    using deq_empty by fastforce
  with "3.IH" [of s'] "3.prems" show ?case by (auto split: prod.split)
next
  case (4 ops x q)
  then obtain s' where "deq s = Some (Some x, s')" "holds s' q"
    using deq_law by fastforce
  with "4.IH" [of s'] "4.prems" show ?case by (auto split: prod.split)
qed simp

end

end
