(* ===== verification/DList.thy ===== *)
theory DList
  imports Prelude Fifo
begin

text \<open>
  Component \<open>list\<close> (src/include/futils/list.h): the circular doubly linked list whose nodes
  live inside the client's structures.

  The nodes are an explicit store from addresses to \<open>struct list_node\<close>; an address outside the
  domain of the store is no valid node, and every operation that dereferences one returns
  \<open>None\<close>.  So a result \<open>Some s'\<close> says that the operation was memory safe.  The two poison
  values are addresses like any other; that no node is allocated there is a hypothesis where it
  matters.
\<close>

type_synonym addr = nat

record list_node =
  nxt :: addr
  prv :: addr

type_synonym store = "addr \<rightharpoonup> list_node"

definition FUTILS_LIST_POISON1 :: addr where "FUTILS_LIST_POISON1 = 0xDEADBEEF"
definition FUTILS_LIST_POISON2 :: addr where "FUTILS_LIST_POISON2 = 0xDEADDEAD"

subsection \<open>From the node to the structure and back\<close>

text \<open>The arithmetic of \<open>uintptr_t\<close>: it wraps at 64 bits.\<close>

definition FUTILS_CONTAINER_OF :: "nat \<Rightarrow> addr \<Rightarrow> addr" where
  "FUTILS_CONTAINER_OF offset ptr = unat (of_nat ptr - of_nat offset :: 64 word)"

definition list_entry :: "nat \<Rightarrow> addr \<Rightarrow> addr" where
  "list_entry offset ptr = FUTILS_CONTAINER_OF offset ptr"

text \<open>The address of the member, \<open>&pos->member\<close>.\<close>

definition member_of :: "nat \<Rightarrow> addr \<Rightarrow> addr" where
  "member_of offset pos = unat (of_nat pos + of_nat offset :: 64 word)"

lemma member_of_list_entry [simp]: "a < 2 ^ 64 \<Longrightarrow> member_of offset (list_entry offset a) = a"
  by (simp add: member_of_def list_entry_def FUTILS_CONTAINER_OF_def unat_of_nat)

lemma container_of_member [simp]: "e < 2 ^ 64 \<Longrightarrow> FUTILS_CONTAINER_OF offset (member_of offset e) = e"
  by (simp add: FUTILS_CONTAINER_OF_def member_of_def unat_of_nat)

lemma inj_member_of: "member_of offset a = member_of offset b \<Longrightarrow> a < 2 ^ 64 \<Longrightarrow> b < 2 ^ 64 \<Longrightarrow> a = b"
  by (metis container_of_member)

subsection \<open>Reading and writing the two fields\<close>

definition get_next :: "addr \<Rightarrow> store \<Rightarrow> addr option" where
  "get_next a s = map_option nxt (s a)"

definition get_prev :: "addr \<Rightarrow> store \<Rightarrow> addr option" where
  "get_prev a s = map_option prv (s a)"

definition set_next :: "addr \<Rightarrow> addr \<Rightarrow> store \<Rightarrow> store option" where
  "set_next a v s = map_option (\<lambda>n. s(a \<mapsto> n\<lparr>nxt := v\<rparr>)) (s a)"

definition set_prev :: "addr \<Rightarrow> addr \<Rightarrow> store \<Rightarrow> store option" where
  "set_prev a v s = map_option (\<lambda>n. s(a \<mapsto> n\<lparr>prv := v\<rparr>)) (s a)"

subsection \<open>The operations of the header\<close>

definition list_node_unref :: "addr \<Rightarrow> store \<Rightarrow> store option" where
  "list_node_unref node s = do {
     s \<leftarrow> set_next node FUTILS_LIST_POISON1 s;
     set_prev node FUTILS_LIST_POISON2 s }"

definition list_node_is_unref :: "addr \<Rightarrow> store \<Rightarrow> bool option" where
  "list_node_is_unref node s = do {
     n \<leftarrow> get_next node s;
     p \<leftarrow> get_prev node s;
     Some (n = FUTILS_LIST_POISON1 \<and> p = FUTILS_LIST_POISON2) }"

definition list_node_is_ref :: "addr \<Rightarrow> store \<Rightarrow> bool option" where
  "list_node_is_ref node s = map_option Not (list_node_is_unref node s)"

definition list_init :: "addr \<Rightarrow> store \<Rightarrow> store option" where
  "list_init list s = do { s \<leftarrow> set_next list list s; set_prev list list s }"

text \<open>The inner \<open>None\<close> of the next two is the \<open>NULL\<close> they return at the end of the list.\<close>

definition list_prev :: "addr \<Rightarrow> addr \<Rightarrow> store \<Rightarrow> addr option option" where
  "list_prev list item s = do { p \<leftarrow> get_prev item s; Some (if p \<noteq> list then Some p else None) }"

definition list_next :: "addr \<Rightarrow> addr \<Rightarrow> store \<Rightarrow> addr option option" where
  "list_next list item s = do { n \<leftarrow> get_next item s; Some (if n \<noteq> list then Some n else None) }"

definition list_first :: "addr \<Rightarrow> store \<Rightarrow> addr option" where
  "list_first list s = get_next list s"

definition list_is_empty :: "addr \<Rightarrow> store \<Rightarrow> bool option" where
  "list_is_empty list s = do { n \<leftarrow> get_next list s; Some (n = list) }"

definition list_last :: "addr \<Rightarrow> store \<Rightarrow> addr option" where
  "list_last list s = get_prev list s"

definition list_add :: "addr \<Rightarrow> addr \<Rightarrow> addr \<Rightarrow> store \<Rightarrow> store option" where
  "list_add novel prev next s = do {
     s \<leftarrow> set_next novel next s;
     s \<leftarrow> set_prev novel prev s;
     s \<leftarrow> set_prev next novel s;
     set_next prev novel s }"

definition list_add_after :: "addr \<Rightarrow> addr \<Rightarrow> store \<Rightarrow> store option" where
  "list_add_after node novel s = do { n \<leftarrow> get_next node s; list_add novel node n s }"

definition list_add_before :: "addr \<Rightarrow> addr \<Rightarrow> store \<Rightarrow> store option" where
  "list_add_before node novel s = do { p \<leftarrow> get_prev node s; list_add novel p node s }"

definition list_detach :: "addr \<Rightarrow> addr \<Rightarrow> store \<Rightarrow> store option" where
  "list_detach prev next s = do { s \<leftarrow> set_prev next prev s; set_next prev next s }"

definition list_del :: "addr \<Rightarrow> store \<Rightarrow> store option" where
  "list_del node s = do {
     p \<leftarrow> get_prev node s;
     n \<leftarrow> get_next node s;
     s \<leftarrow> list_detach p n s;
     list_node_unref node s }"

definition list_del_init :: "addr \<Rightarrow> store \<Rightarrow> store option" where
  "list_del_init node s = do {
     p \<leftarrow> get_prev node s;
     n \<leftarrow> get_next node s;
     s \<leftarrow> list_detach p n s;
     list_init node s }"

definition list_replace :: "addr \<Rightarrow> addr \<Rightarrow> store \<Rightarrow> store option" where
  "list_replace old novel s = do {
     n \<leftarrow> get_next old s;
     s \<leftarrow> set_next novel n s;
     n \<leftarrow> get_next novel s;
     s \<leftarrow> set_prev n novel s;
     p \<leftarrow> get_prev old s;
     s \<leftarrow> set_prev novel p s;
     p \<leftarrow> get_prev novel s;
     set_next p novel s }"

definition list_replace_init :: "addr \<Rightarrow> addr \<Rightarrow> store \<Rightarrow> store option" where
  "list_replace_init old novel s = do { s \<leftarrow> list_replace old novel s; list_init old s }"

definition list_move_after :: "addr \<Rightarrow> addr \<Rightarrow> store \<Rightarrow> store option" where
  "list_move_after to from s = do {
     p \<leftarrow> get_prev from s;
     n \<leftarrow> get_next from s;
     s \<leftarrow> list_detach p n s;
     list_add_after to from s }"

definition list_move_before :: "addr \<Rightarrow> addr \<Rightarrow> store \<Rightarrow> store option" where
  "list_move_before to from s = do {
     p \<leftarrow> get_prev from s;
     n \<leftarrow> get_next from s;
     s \<leftarrow> list_detach p n s;
     list_add_before to from s }"

definition list_is_last :: "addr \<Rightarrow> addr \<Rightarrow> store \<Rightarrow> bool option" where
  "list_is_last list node s = do { p \<leftarrow> get_prev list s; Some (p = node) }"

text \<open>
  The walking macros, as the sequence of positions at which their body runs.  A walk over a
  damaged ring may never end, so \<open>None\<close> is also "does not return".
\<close>

partial_function (option) walk_forward_from :: "addr \<Rightarrow> addr \<Rightarrow> store \<Rightarrow> addr list option" where
  "walk_forward_from list pos s =
    (if pos = list then Some []
     else do { n \<leftarrow> get_next pos s; rest \<leftarrow> walk_forward_from list n s; Some (pos # rest) })"

definition list_walk_forward :: "addr \<Rightarrow> store \<Rightarrow> addr list option" where
  "list_walk_forward list s = do { pos \<leftarrow> get_next list s; walk_forward_from list pos s }"

partial_function (option) walk_backward_from :: "addr \<Rightarrow> addr \<Rightarrow> store \<Rightarrow> addr list option" where
  "walk_backward_from list pos s =
    (if pos = list then Some []
     else do { p \<leftarrow> get_prev pos s; rest \<leftarrow> walk_backward_from list p s; Some (pos # rest) })"

definition list_walk_backward :: "addr \<Rightarrow> store \<Rightarrow> addr list option" where
  "list_walk_backward list s = do { pos \<leftarrow> get_prev list s; walk_backward_from list pos s }"

text \<open>\<open>list_length\<close> counts with the walk that fetches the successor before the body runs.\<close>

partial_function (option) list_length_loop :: "addr \<Rightarrow> addr \<Rightarrow> addr \<Rightarrow> nat \<Rightarrow> store \<Rightarrow> nat option" where
  "list_length_loop list current tmp n s =
    (if current = list then Some n
     else do { tmp' \<leftarrow> get_next tmp s; list_length_loop list tmp tmp' (n + 1) s })"

definition list_length :: "addr \<Rightarrow> store \<Rightarrow> nat option" where
  "list_length list s = do {
     current \<leftarrow> get_next list s;
     tmp \<leftarrow> get_next current s;
     list_length_loop list current tmp 0 s }"

definition list_push :: "addr \<Rightarrow> addr \<Rightarrow> store \<Rightarrow> store option" where
  "list_push list elem s = list_add_before list elem s"

text \<open>The result is the structure that contains the node, at \<open>offset\<close>.\<close>

definition list_pop :: "nat \<Rightarrow> addr \<Rightarrow> store \<Rightarrow> (addr option \<times> store) option" where
  "list_pop offset list s = do {
     p \<leftarrow> list_first list s;
     if p = list then Some (None, s)
     else do { s \<leftarrow> list_del p s; Some (Some (FUTILS_CONTAINER_OF offset p), s) } }"

subsection \<open>Stores\<close>

definition upd_next :: "addr \<Rightarrow> addr \<Rightarrow> store \<Rightarrow> store" where
  "upd_next a v s = s(a := map_option (nxt_update (\<lambda>_. v)) (s a))"

definition upd_prev :: "addr \<Rightarrow> addr \<Rightarrow> store \<Rightarrow> store" where
  "upd_prev a v s = s(a := map_option (prv_update (\<lambda>_. v)) (s a))"

lemma set_field [simp]:
  "a \<in> dom s \<Longrightarrow> set_next a v s = Some (upd_next a v s)"
  "a \<in> dom s \<Longrightarrow> set_prev a v s = Some (upd_prev a v s)"
  by (auto simp: set_next_def set_prev_def upd_next_def upd_prev_def)

lemma dom_upd [simp]: "dom (upd_next a v s) = dom s" "dom (upd_prev a v s) = dom s"
  by (auto simp: upd_next_def upd_prev_def split: if_splits)

lemma get_upd [simp]:
  "a \<in> dom s \<Longrightarrow> get_next c (upd_next a v s) = (if c = a then Some v else get_next c s)"
  "get_prev c (upd_next a v s) = get_prev c s"
  "a \<in> dom s \<Longrightarrow> get_prev c (upd_prev a v s) = (if c = a then Some v else get_prev c s)"
  "get_next c (upd_prev a v s) = get_next c s"
  by (cases "s a"; auto simp: upd_next_def upd_prev_def get_next_def get_prev_def)+

lemma upd_other [simp]:
  "c \<noteq> a \<Longrightarrow> upd_next a v s c = s c" "c \<noteq> a \<Longrightarrow> upd_prev a v s c = s c"
  by (simp_all add: upd_next_def upd_prev_def)

lemma get_domD: "get_next a s = Some b \<Longrightarrow> a \<in> dom s" "get_prev a s = Some b \<Longrightarrow> a \<in> dom s"
  by (auto simp: get_next_def get_prev_def)

lemma get_dom: "a \<in> dom s \<Longrightarrow> \<exists>b. get_next a s = Some b" "a \<in> dom s \<Longrightarrow> \<exists>b. get_prev a s = Some b"
  by (auto simp: get_next_def get_prev_def)

lemma list_add_eq:
  "{n, p, q} \<subseteq> dom s \<Longrightarrow>
   list_add n p q s = Some (upd_next p n (upd_prev q n (upd_prev n p (upd_next n q s))))"
  by (simp add: list_add_def)

lemma list_detach_eq:
  "{p, q} \<subseteq> dom s \<Longrightarrow> list_detach p q s = Some (upd_next p q (upd_prev q p s))"
  by (simp add: list_detach_def)

lemma list_init_eq: "l \<in> dom s \<Longrightarrow> list_init l s = Some (upd_prev l l (upd_next l l s))"
  by (simp add: list_init_def)

lemma list_node_unref_eq:
  "l \<in> dom s \<Longrightarrow>
   list_node_unref l s = Some (upd_prev l FUTILS_LIST_POISON2 (upd_next l FUTILS_LIST_POISON1 s))"
  by (simp add: list_node_unref_def)

text \<open>\<open>only_on A s s'\<close>: the step from \<open>s\<close> to \<open>s'\<close> touched no node outside \<open>A\<close> and freed none.\<close>

definition only_on :: "addr set \<Rightarrow> store \<Rightarrow> store \<Rightarrow> bool" where
  "only_on A s s' \<longleftrightarrow> dom s' = dom s \<and> (\<forall>c. c \<notin> A \<longrightarrow> s' c = s c)"

lemma only_on_upd [intro]:
  "only_on A s s' \<Longrightarrow> a \<in> A \<Longrightarrow> only_on A s (upd_next a v s')"
  "only_on A s s' \<Longrightarrow> a \<in> A \<Longrightarrow> only_on A s (upd_prev a v s')"
  by (auto simp: only_on_def upd_next_def upd_prev_def)

lemma only_on_refl [simp]: "only_on A s s"
  by (simp add: only_on_def)

lemma only_on_trans: "only_on A s s' \<Longrightarrow> only_on B s' s'' \<Longrightarrow> A \<subseteq> C \<Longrightarrow> B \<subseteq> C \<Longrightarrow> only_on C s s''"
  unfolding only_on_def by (metis subsetD)

lemma only_on_dom: "only_on A s s' \<Longrightarrow> dom s' = dom s"
  by (simp add: only_on_def)

lemma only_onD: "only_on A s s' \<Longrightarrow> c \<notin> A \<Longrightarrow> s' c = s c"
  by (simp add: only_on_def)

subsection \<open>Rings\<close>

text \<open>\<open>dlist s l xs\<close>: the ring of head \<open>l\<close> holds the nodes \<open>xs\<close>, first to last.\<close>

definition link :: "store \<Rightarrow> addr \<Rightarrow> addr \<Rightarrow> bool" where
  "link s a b \<longleftrightarrow> get_next a s = Some b \<and> get_prev b s = Some a"

definition dlist :: "store \<Rightarrow> addr \<Rightarrow> addr list \<Rightarrow> bool" where
  "dlist s l xs \<longleftrightarrow> successively (link s) (l # xs @ [l]) \<and> distinct (l # xs)"

lemma link_frame:
  assumes "successively (link s) zs"
    and "\<And>c. c \<in> set (butlast zs) \<Longrightarrow> get_next c s' = get_next c s"
    and "\<And>c. c \<in> set (tl zs) \<Longrightarrow> get_prev c s' = get_prev c s"
  shows "successively (link s') zs"
  using assms
proof (induction zs rule: induct_list012)
  case (3 a b zs)
  have "successively (link s') (b # zs)"
    using "3.prems" by (intro "3.IH"(2)) (cases zs; auto)+
  moreover have "link s' a b" using "3.prems" by (simp add: link_def)
  ultimately show ?case by simp
qed simp_all

lemma link_dom: "link s a b \<Longrightarrow> a \<in> dom s" "link s a b \<Longrightarrow> b \<in> dom s"
  by (auto simp: link_def dest: get_domD)

lemma dlist_dom: assumes "dlist s l xs" shows "set (l # xs) \<subseteq> dom s"
proof -
  have "successively (link s) (zs @ [b]) \<Longrightarrow> set zs \<subseteq> dom s" for zs b
  proof (induction zs)
    case (Cons c zs)
    then show ?case by (cases zs) (auto dest!: link_dom(1))
  qed simp
  from this [of "l # xs" l] show ?thesis using assms by (simp add: dlist_def)
qed

text \<open>The ring cut open between two neighbours.\<close>

lemma dlist_split:
  "dlist s l (xs @ ys) \<longleftrightarrow>
    successively (link s) (l # xs) \<and> successively (link s) (ys @ [l]) \<and>
    link s (last (l # xs)) (hd (ys @ [l])) \<and> distinct (l # xs @ ys)"
  using successively_append_iff [of "link s" "l # xs" "ys @ [l]"] by (auto simp: dlist_def)

lemma dlist_cong:
  assumes "dlist s l xs" "\<And>c. c \<in> set (l # xs) \<Longrightarrow> s' c = s c"
  shows "dlist s' l xs"
  using assms unfolding dlist_def
  by (auto intro!: link_frame [of s "l # xs @ [l]" s'] simp: get_next_def get_prev_def butlast_append
      simp del: successively.simps)

lemma dlist_frame: "dlist s l xs \<Longrightarrow> only_on A s s' \<Longrightarrow> set (l # xs) \<inter> A = {} \<Longrightarrow> dlist s' l xs"
  by (erule dlist_cong) (auto simp: only_on_def)

text \<open>What lies at both sides of a cut.\<close>

lemma dlist_cut:
  assumes "distinct (l # xs @ ys)"
  shows "last (l # xs) \<notin> set (butlast (l # xs))" "last (l # xs) \<notin> set ys"
    "hd (ys @ [l]) \<notin> set xs" "hd (ys @ [l]) \<notin> set (tl (ys @ [l]))"
    "last (l # xs) \<in> set (l # xs)" "hd (ys @ [l]) \<in> set (l # ys)"
  using assms by (cases xs rule: rev_cases; cases ys; auto)+

lemma dlist_neighbours:
  "dlist s l (xs @ n # ys) \<Longrightarrow> get_prev n s = Some (last (l # xs)) \<and> get_next n s = Some (hd (ys @ [l]))"
  "dlist s l (xs @ ys) \<Longrightarrow> get_next (last (l # xs)) s = Some (hd (ys @ [l])) \<and>
    get_prev (hd (ys @ [l])) s = Some (last (l # xs))"
  by (auto simp: dlist_split successively_Cons link_def)

text \<open>Both arcs survive when only the two fields at the cut change.\<close>

definition arcs :: "store \<Rightarrow> addr \<Rightarrow> addr list \<Rightarrow> addr list \<Rightarrow> bool" where
  "arcs s l xs ys \<longleftrightarrow>
    successively (link s) (l # xs) \<and> successively (link s) (ys @ [l]) \<and> distinct (l # xs @ ys)"

lemma dlist_arcs:
  "dlist s l (xs @ ys) \<longleftrightarrow> arcs s l xs ys \<and> link s (last (l # xs)) (hd (ys @ [l]))"
  "dlist s l (xs @ n # ys) \<longleftrightarrow> arcs s l xs ys \<and> link s (last (l # xs)) n \<and> link s n (hd (ys @ [l])) \<and>
    n \<notin> set (l # xs @ ys)"
  by (auto simp: dlist_split arcs_def successively_Cons)

lemma arcs_frame:
  assumes "arcs s l xs ys"
    and "\<And>c. c \<in> set (l # xs @ ys) \<Longrightarrow> c \<noteq> last (l # xs) \<Longrightarrow> get_next c s' = get_next c s"
    and "\<And>c. c \<in> set (l # xs @ ys) \<Longrightarrow> c \<noteq> hd (ys @ [l]) \<Longrightarrow> get_prev c s' = get_prev c s"
  shows "arcs s' l xs ys"
proof -
  have sp: "successively (link s) (l # xs)" "successively (link s) (ys @ [l])" "distinct (l # xs @ ys)"
    using assms(1) by (simp_all add: arcs_def)
  note c = dlist_cut [OF sp(3)]
  have 1: "successively (link s') (l # xs)"
  proof (rule link_frame [OF sp(1)])
    fix a
    show "get_next a s' = get_next a s" if "a \<in> set (butlast (l # xs))"
    proof (rule assms(2))
      show "a \<in> set (l # xs @ ys)" using in_set_butlastD [OF that] by auto
      show "a \<noteq> last (l # xs)" using that c(1) by metis
    qed
    show "a \<in> set (tl (l # xs)) \<Longrightarrow> get_prev a s' = get_prev a s"
      using assms(3) [of a] c(3) by auto
  qed
  have 2: "successively (link s') (ys @ [l])"
  proof (rule link_frame [OF sp(2)])
    fix a
    show "a \<in> set (butlast (ys @ [l])) \<Longrightarrow> get_next a s' = get_next a s"
      using assms(2) [of a] c(2) by auto
    show "a \<in> set (tl (ys @ [l])) \<Longrightarrow> get_prev a s' = get_prev a s"
      using assms(3) [of a] c(4) by (cases ys) auto
  qed
  show ?thesis using 1 2 sp(3) by (simp add: arcs_def)
qed

text \<open>Insertion between two neighbours.\<close>

lemma dlist_insert:
  assumes "dlist s l (xs @ ys)" "n \<in> dom s" "n \<notin> set (l # xs @ ys)"
  obtains s' where "list_add n (last (l # xs)) (hd (ys @ [l])) s = Some s'" "dlist s' l (xs @ n # ys)"
    "only_on (set (n # l # xs @ ys)) s s'"
proof -
  define p q where pq: "p = last (l # xs)" "q = hd (ys @ [l])"
  have in_ring: "p \<in> set (l # xs)" "q \<in> set (l # ys)" by (auto simp: pq hd_append)
  then have d: "n \<in> dom s" "p \<in> dom s" "q \<in> dom s" "n \<noteq> p" "n \<noteq> q"
    using dlist_dom [OF assms(1)] assms(2,3) by auto
  let ?s = "upd_next p n (upd_prev q n (upd_prev n p (upd_next n q s)))"
  have "arcs s l xs ys" using assms(1) by (simp add: dlist_arcs)
  then have "arcs ?s l xs ys"
    by (rule arcs_frame; use d assms(3) in \<open>fold pq, auto\<close>)
  moreover have "link ?s p n" "link ?s n q" using d by (auto simp: link_def)
  ultimately have "dlist ?s l (xs @ n # ys)"
    using assms(3) unfolding dlist_arcs(2) [of _ l xs n ys, folded pq] by auto
  moreover have "only_on (set (n # l # xs @ ys)) s ?s"
    by (intro only_on_upd only_on_refl) (use in_ring in auto)
  moreover have "list_add n p q s = Some ?s" using d by (simp add: list_add_eq)
  ultimately show thesis using that [of ?s, folded pq] by blast
qed

text \<open>Cutting a node out; its own fields stay.\<close>

lemma dlist_detach:
  assumes "dlist s l (xs @ n # ys)"
  obtains s' where "list_detach (last (l # xs)) (hd (ys @ [l])) s = Some s'" "dlist s' l (xs @ ys)"
    "only_on (set (l # xs @ ys)) s s'" "s' n = s n"
proof -
  define p q where pq: "p = last (l # xs)" "q = hd (ys @ [l])"
  have in_ring: "p \<in> set (l # xs)" "q \<in> set (l # ys)" by (auto simp: pq hd_append)
  then have d: "p \<in> dom s" "q \<in> dom s" using dlist_dom [OF assms] by auto
  let ?s = "upd_next p q (upd_prev q p s)"
  have a: "arcs s l xs ys" and n: "n \<notin> set (l # xs @ ys)" using assms by (simp_all add: dlist_arcs(2))
  from a have "arcs ?s l xs ys" by (rule arcs_frame; use d in \<open>fold pq, auto\<close>)
  moreover have "link ?s p q" using d by (auto simp: link_def)
  ultimately have "dlist ?s l (xs @ ys)"
    unfolding dlist_arcs(1) [of _ l xs ys, folded pq] by blast
  moreover have "only_on (set (l # xs @ ys)) s ?s"
    by (intro only_on_upd only_on_refl) (use in_ring in auto)
  moreover have "p \<noteq> n" "q \<noteq> n" using in_ring n by auto
  then have "?s n = s n" by simp
  moreover have "list_detach p q s = Some ?s" using d by (simp add: list_detach_eq)
  ultimately show thesis using that [of ?s, folded pq] by blast
qed

subsection \<open>The operations on rings\<close>

lemma dlist_init:
  assumes "l \<in> dom s"
  obtains s' where "list_init l s = Some s'" "dlist s' l []" "only_on {l} s s'"
  by (rule that [of "upd_prev l l (upd_next l l s)"])
    (use assms in \<open>simp_all add: list_init_eq dlist_def link_def only_on_def\<close>)

lemma dlist_add_after:
  assumes "dlist s l (xs @ ys)" "n \<in> dom s" "n \<notin> set (l # xs @ ys)"
  obtains s' where "list_add_after (last (l # xs)) n s = Some s'" "dlist s' l (xs @ n # ys)"
    "only_on (set (n # l # xs @ ys)) s s'"
proof -
  obtain s' where s': "list_add n (last (l # xs)) (hd (ys @ [l])) s = Some s'" "dlist s' l (xs @ n # ys)"
    "only_on (set (n # l # xs @ ys)) s s'"
    by (rule dlist_insert [OF assms])
  show thesis
    by (rule that [OF _ s'(2,3)]) (use dlist_neighbours(2) [OF assms(1)] s'(1) in \<open>simp add: list_add_after_def\<close>)
qed

lemma dlist_add_before:
  assumes "dlist s l (xs @ ys)" "n \<in> dom s" "n \<notin> set (l # xs @ ys)"
  obtains s' where "list_add_before (hd (ys @ [l])) n s = Some s'" "dlist s' l (xs @ n # ys)"
    "only_on (set (n # l # xs @ ys)) s s'"
proof -
  obtain s' where s': "list_add n (last (l # xs)) (hd (ys @ [l])) s = Some s'" "dlist s' l (xs @ n # ys)"
    "only_on (set (n # l # xs @ ys)) s s'"
    by (rule dlist_insert [OF assms])
  show thesis
    by (rule that [OF _ s'(2,3)]) (use dlist_neighbours(2) [OF assms(1)] s'(1) in \<open>simp add: list_add_before_def\<close>)
qed

lemma dlist_del:
  assumes "dlist s l (xs @ n # ys)"
  obtains s' where "list_del n s = Some s'" "dlist s' l (xs @ ys)" "list_node_is_unref n s' = Some True"
    "only_on (set (n # l # xs @ ys)) s s'"
proof -
  obtain s1 where 1: "list_detach (last (l # xs)) (hd (ys @ [l])) s = Some s1" "dlist s1 l (xs @ ys)"
    "only_on (set (l # xs @ ys)) s s1" "s1 n = s n"
    by (rule dlist_detach [OF assms])
  have n: "n \<in> dom s1" using dlist_dom [OF assms] 1(3) by (simp add: only_on_def)
  let ?s = "upd_prev n FUTILS_LIST_POISON2 (upd_next n FUTILS_LIST_POISON1 s1)"
  have nn: "n \<notin> set (l # xs @ ys)" using assms by (auto simp: dlist_def)
  have on: "only_on {n} s1 ?s" by (simp add: only_on_def)
  show thesis
  proof (rule that [of ?s])
    show "list_del n s = Some ?s"
      using dlist_neighbours(1) [OF assms] 1(1) n by (simp add: list_del_def list_node_unref_eq)
    show "dlist ?s l (xs @ ys)" using nn by (intro dlist_frame [OF 1(2) on]) auto
  qed (use n in \<open>auto simp: list_node_is_unref_def intro: only_on_trans [OF 1(3) on]\<close>)
qed

lemma dlist_del_init:
  assumes "dlist s l (xs @ n # ys)"
  obtains s' where "list_del_init n s = Some s'" "dlist s' l (xs @ ys)" "dlist s' n []"
    "only_on (set (n # l # xs @ ys)) s s'"
proof -
  obtain s1 where 1: "list_detach (last (l # xs)) (hd (ys @ [l])) s = Some s1" "dlist s1 l (xs @ ys)"
    "only_on (set (l # xs @ ys)) s s1" "s1 n = s n"
    by (rule dlist_detach [OF assms])
  have n: "n \<in> dom s1" using dlist_dom [OF assms] 1(3) by (simp add: only_on_def)
  obtain s' where 2: "list_init n s1 = Some s'" "dlist s' n []" "only_on {n} s1 s'"
    by (rule dlist_init [OF n])
  have nn: "n \<notin> set (l # xs @ ys)" using assms by (auto simp: dlist_def)
  show thesis
  proof (rule that [of s'])
    show "list_del_init n s = Some s'"
      using dlist_neighbours(1) [OF assms] 1(1) 2(1) by (simp add: list_del_init_def)
    show "dlist s' l (xs @ ys)" using nn by (intro dlist_frame [OF 1(2) 2(3)]) auto
  qed (use 2 in \<open>auto intro: only_on_trans [OF 1(3) 2(3)]\<close>)
qed

text \<open>Moving a node between two rings of one store.\<close>

lemma dlist_move:
  assumes "dlist s l (xs @ n # ys)" "dlist s k (us @ vs)" "set (l # xs @ n # ys) \<inter> set (k # us @ vs) = {}"
  obtains s' where "list_move_after (last (k # us)) n s = Some s'"
    "list_move_before (hd (vs @ [k])) n s = Some s'"
    "dlist s' l (xs @ ys)" "dlist s' k (us @ n # vs)"
    "only_on (set (n # l # k # xs @ ys @ us @ vs)) s s'"
proof -
  obtain s1 where 1: "list_detach (last (l # xs)) (hd (ys @ [l])) s = Some s1" "dlist s1 l (xs @ ys)"
    "only_on (set (l # xs @ ys)) s s1" "s1 n = s n"
    by (rule dlist_detach [OF assms(1)])
  have n: "n \<in> dom s1" using dlist_dom [OF assms(1)] 1(3) by (simp add: only_on_def)
  have k1: "dlist s1 k (us @ vs)" using assms(3) by (intro dlist_frame [OF assms(2) 1(3)]) auto
  have nk: "n \<notin> set (k # us @ vs)" "n \<notin> set (l # xs @ ys)" using assms(1,3) by (auto simp: dlist_def)
  obtain s' where 2: "list_add n (last (k # us)) (hd (vs @ [k])) s1 = Some s'" "dlist s' k (us @ n # vs)"
    "only_on (set (n # k # us @ vs)) s1 s'"
    by (rule dlist_insert [OF k1 n nk(1)])
  show thesis
  proof (rule that [of s'])
    show "list_move_after (last (k # us)) n s = Some s'" "list_move_before (hd (vs @ [k])) n s = Some s'"
      using dlist_neighbours(1) [OF assms(1)] dlist_neighbours(2) [OF k1] 1(1) 2(1)
      by (simp_all add: list_move_after_def list_move_before_def list_add_after_def list_add_before_def)
    show "dlist s' l (xs @ ys)" using nk assms(3) by (intro dlist_frame [OF 1(2) 2(3)]) auto
  qed (use 2 in \<open>auto intro: only_on_trans [OF 1(3) 2(3)]\<close>)
qed

text \<open>Replacing a node by a fresh one, and a head by a fresh one.\<close>

lemma dlist_replace:
  assumes "dlist s l (xs @ n # ys)" "m \<in> dom s" "m \<notin> set (l # xs @ n # ys)"
  obtains s' where "list_replace n m s = Some s'" "dlist s' l (xs @ m # ys)"
    "only_on (set (m # l # xs @ ys)) s s'" "s' n = s n"
proof -
  define p q where pq: "p = last (l # xs)" "q = hd (ys @ [l])"
  have in_ring: "p \<in> set (l # xs)" "q \<in> set (l # ys)" by (auto simp: pq hd_append)
  have a: "arcs s l xs ys" and n: "n \<notin> set (l # xs @ ys)" using assms(1) by (simp_all add: dlist_arcs(2))
  have d: "p \<in> dom s" "q \<in> dom s" "m \<in> dom s" "m \<noteq> p" "m \<noteq> q" "m \<noteq> n" "n \<noteq> p" "n \<noteq> q"
    using in_ring dlist_dom [OF assms(1)] assms(2,3) n by auto
  let ?s = "upd_next p m (upd_prev m p (upd_prev q m (upd_next m q s)))"
  from a have "arcs ?s l xs ys" by (rule arcs_frame; use d assms(3) in \<open>fold pq, auto\<close>)
  moreover have "link ?s p m" "link ?s m q" using d by (auto simp: link_def)
  ultimately have "dlist ?s l (xs @ m # ys)"
    using assms(3) unfolding dlist_arcs(2) [of _ l xs m ys, folded pq] by auto
  moreover have "get_prev n s = Some p" "get_next n s = Some q"
    using dlist_neighbours(1) [OF assms(1)] by (auto simp: pq)
  then have "list_replace n m s = Some ?s"
    using d by (simp add: list_replace_def flip: pq)
  moreover have "only_on (set (m # l # xs @ ys)) s ?s"
    by (intro only_on_upd only_on_refl) (use in_ring in auto)
  moreover have "?s n = s n" using d by simp
  ultimately show thesis using that [of ?s] by simp
qed

text \<open>A ring may be entered at any of its nodes.\<close>

lemma successively_meet: "successively P (us @ m # vs) \<longleftrightarrow> successively P (us @ [m]) \<and> successively P (m # vs)"
  by (auto simp: successively_append_iff)

lemma dlist_rotate: "dlist s l (xs @ m # ys) \<longleftrightarrow> dlist s m (ys @ l # xs)"
  using successively_meet [of "link s" "l # xs" m "ys @ [l]"] successively_meet [of "link s" "m # ys" l "xs @ [m]"]
  by (auto simp: dlist_def)

lemma dlist_replace_head:
  assumes "dlist s l xs" "m \<in> dom s" "m \<notin> set (l # xs)"
  obtains s' where "list_replace l m s = Some s'" "dlist s' m xs" "only_on (set (m # l # xs)) s s'"
proof (cases xs)
  case Nil
  have d: "l \<in> dom s" "m \<noteq> l" using dlist_dom [OF assms(1)] assms(3) by auto
  let ?s = "upd_next m m (upd_prev m m (upd_prev l m (upd_next m l s)))"
  have "get_next l s = Some l" "get_prev l s = Some l" using assms(1) Nil by (auto simp: dlist_def link_def)
  then have "list_replace l m s = Some ?s" using d assms(2) by (simp add: list_replace_def)
  moreover have "dlist ?s m []" using d assms(2) by (simp add: dlist_def link_def)
  ultimately show thesis using that [of ?s] Nil by (simp add: only_on_def)
next
  case (Cons x ys)
  have "dlist s x (ys @ l # [])" using assms(1) dlist_rotate [of s l "[]" x ys] Cons by simp
  moreover have "m \<notin> set (x # ys @ l # [])" using assms(3) Cons by auto
  ultimately obtain s' where 1: "list_replace l m s = Some s'" "dlist s' x (ys @ m # [])"
    "only_on (set (m # x # ys @ [])) s s'" "s' l = s l"
    by (rule dlist_replace [OF _ assms(2)])
  have "dlist s' m xs" using 1(2) dlist_rotate [of s' x ys m "[]"] Cons by simp
  moreover have "only_on (set (m # l # xs)) s s'"
    using 1(3) Cons by (auto simp: only_on_def)
  ultimately show thesis using that [OF 1(1)] by blast
qed

subsection \<open>The walks return and visit every node\<close>

lemma walk_forward_from_ring:
  "successively (link s) (ys @ [l]) \<Longrightarrow> l \<notin> set ys \<Longrightarrow> walk_forward_from l (hd (ys @ [l])) s = Some ys"
proof (induction ys)
  case Nil
  then show ?case by (subst walk_forward_from.simps) simp
next
  case (Cons y ys)
  then have "get_next y s = Some (hd (ys @ [l]))" by (auto simp: successively_Cons link_def)
  with Cons show ?case by (subst walk_forward_from.simps) (auto simp: successively_Cons)
qed

lemma walk_backward_from_ring:
  "successively (link s) (l # ys) \<Longrightarrow> l \<notin> set ys \<Longrightarrow> walk_backward_from l (last (l # ys)) s = Some (rev ys)"
proof (induction ys rule: rev_induct)
  case Nil
  then show ?case by (subst walk_backward_from.simps) simp
next
  case (snoc y ys)
  then have "successively (link s) (l # ys)" "get_prev y s = Some (last (l # ys))"
    by (auto simp: successively_append_iff [of _ "l # ys", simplified] link_def)
  with snoc show ?case by (subst walk_backward_from.simps) auto
qed

lemma list_length_loop_ring:
  "successively (link s) (ys @ [l]) \<Longrightarrow> l \<notin> set ys \<Longrightarrow> get_next l s = Some k \<Longrightarrow>
   get_next (hd (ys @ [l])) s = Some t \<Longrightarrow>
   list_length_loop l (hd (ys @ [l])) t n s = Some (n + length ys)"
proof (induction ys arbitrary: n t)
  case Nil
  then show ?case by (subst list_length_loop.simps) simp
next
  case (Cons y ys)
  then have t: "t = hd (ys @ [l])" by (auto simp: successively_Cons link_def)
  obtain t' where t': "get_next t s = Some t'"
    using Cons.prems t by (cases ys) (auto simp: successively_Cons link_def, (metis list.sel(1) append_Cons append_Nil neq_Nil_conv)?)
  have "list_length_loop l t t' (n + 1) s = Some (n + 1 + length ys)"
    using Cons t t' by (auto simp: successively_Cons)
  then show ?case using Cons.prems(2) t' by (subst list_length_loop.simps) (simp add: t)
qed

lemma list_walks:
  assumes "dlist s l xs"
  shows "list_walk_forward l s = Some xs" "list_walk_backward l s = Some (rev xs)"
    "list_length l s = Some (length xs)" "list_is_empty l s = Some (xs = [])"
proof -
  have sp: "successively (link s) (xs @ [l])" "successively (link s) (l # xs)" "l \<notin> set xs"
    and n: "get_next l s = Some (hd (xs @ [l]))" and p: "get_prev l s = Some (last (l # xs))"
    using assms dlist_split [of s l "[]" xs] dlist_split [of s l xs "[]"] by (auto simp: link_def)
  show "list_walk_forward l s = Some xs"
    using walk_forward_from_ring [OF sp(1,3)] n by (simp add: list_walk_forward_def)
  show "list_walk_backward l s = Some (rev xs)"
    unfolding list_walk_backward_def p using walk_backward_from_ring [OF sp(2,3)] by simp
  have "hd (xs @ [l]) \<in> dom s" using dlist_dom [OF assms] by (cases xs) auto
  then obtain t where t: "get_next (hd (xs @ [l])) s = Some t" using get_dom(1) by blast
  show "list_length l s = Some (length xs)"
    using list_length_loop_ring [OF sp(1,3) n t, of 0] n t by (simp add: list_length_def)
  show "list_is_empty l s = Some (xs = [])"
    using n sp(3) by (cases xs) (auto simp: list_is_empty_def)
qed

lemma list_ends:
  assumes "dlist s l xs"
  shows "list_first l s = Some (hd (xs @ [l]))" "list_last l s = Some (last (l # xs))"
    "list_is_last l n s = Some (n = last (l # xs))"
proof -
  have "get_next l s = Some (hd (xs @ [l]))" "get_prev l s = Some (last (l # xs))"
    using dlist_neighbours(2) [of s l "[]" xs] dlist_neighbours(2) [of s l xs "[]"] assms by (auto simp del: last.simps simp: last_ConsL)
  then show "list_first l s = Some (hd (xs @ [l]))" "list_last l s = Some (last (l # xs))"
    "list_is_last l n s = Some (n = last (l # xs))"
    by (auto simp: list_first_def list_last_def list_is_last_def simp del: last.simps)
qed

lemma list_neighbours:
  assumes "dlist s l (xs @ n # ys)"
  shows "list_next l n s = Some (if ys = [] then None else Some (hd ys))"
    "list_prev l n s = Some (if xs = [] then None else Some (last xs))"
  using dlist_neighbours(1) [OF assms] assms last_in_set [of xs] hd_in_set [of ys]
  by (auto simp: list_next_def list_prev_def dlist_def)

lemma dlist_push:
  assumes "dlist s l xs" "n \<in> dom s" "n \<notin> set (l # xs)"
  obtains s' where "list_push l n s = Some s'" "dlist s' l (xs @ [n])" "only_on (set (n # l # xs)) s s'"
  using dlist_add_before [of s l xs "[]" n] assms that by (auto simp: list_push_def)

lemma dlist_pop:
  assumes "dlist s l (x # xs)"
  obtains s' where "list_pop offset l s = Some (Some (FUTILS_CONTAINER_OF offset x), s')" "dlist s' l xs" "only_on (set (l # x # xs)) s s'"
proof -
  obtain s' where "list_del x s = Some s'" "dlist s' l xs" "only_on (set (x # l # xs)) s s'"
    using dlist_del [of s l "[]" x xs] assms by auto
  moreover have "x \<noteq> l" using assms by (auto simp: dlist_def)
  ultimately show thesis
    using that list_ends(1) [OF assms] by (auto simp: list_pop_def insert_commute)
qed

lemma dlist_pop_empty: "dlist s l [] \<Longrightarrow> list_pop offset l s = Some (None, s)"
  using list_ends(1) by (fastforce simp: list_pop_def)

text \<open>
  A queue of structures: their nodes form the ring.  A structure can be pushed when its node is allocated
  and it is not in the queue.
\<close>

definition queue_ring :: "addr set \<Rightarrow> nat \<Rightarrow> addr \<Rightarrow> store \<Rightarrow> addr list \<Rightarrow> bool" where
  "queue_ring D offset l s q \<longleftrightarrow> dlist s l (map (member_of offset) q) \<and> (\<forall>e \<in> set q. e < 2 ^ 64) \<and> dom s = D"

definition can_push :: "addr set \<Rightarrow> nat \<Rightarrow> addr \<Rightarrow> addr list \<Rightarrow> addr \<Rightarrow> bool" where
  "can_push D offset l q e \<longleftrightarrow> e < 2 ^ 64 \<and> member_of offset e \<in> D - {l} \<and> e \<notin> set q"

lemma dlist_unique: "dlist s l xs \<Longrightarrow> dlist s l ys \<Longrightarrow> xs = ys"
  using list_walks(1) [of s l xs] list_walks(1) [of s l ys] by simp

interpretation list_fifo: fifo "queue_ring D offset l" "can_push D offset l" "\<lambda>e. list_push l (member_of offset e)" "list_pop offset l"
  for D offset l
proof
  fix s q e
  assume *: "queue_ring D offset l s q" "can_push D offset l q e"
  then have "member_of offset e \<in> dom s" "member_of offset e \<notin> set (l # map (member_of offset) q)"
    using inj_member_of [of offset e] by (auto simp: queue_ring_def can_push_def)
  then obtain s' where "list_push l (member_of offset e) s = Some s'" "dlist s' l (map (member_of offset) q @ [member_of offset e])"
    "dom s' = dom s"
    using dlist_push * only_on_dom unfolding queue_ring_def by metis
  then show "\<exists>s'. list_push l (member_of offset e) s = Some s' \<and> queue_ring D offset l s' (q @ [e])"
    using * by (auto simp: queue_ring_def can_push_def)
next
  fix s e q
  assume *: "queue_ring D offset l s (e # q)"
  then have "dlist s l (member_of offset e # map (member_of offset) q)" "e < 2 ^ 64" by (simp_all add: queue_ring_def)
  then obtain s' where "list_pop offset l s = Some (Some e, s')" "dlist s' l (map (member_of offset) q)" "dom s' = dom s"
    using dlist_pop [of s l "member_of offset e" _ offset] only_on_dom container_of_member by metis
  then show "\<exists>s'. list_pop offset l s = Some (Some e, s') \<and> queue_ring D offset l s' q"
    using * by (auto simp: queue_ring_def)
qed (use dlist_pop_empty in \<open>auto simp: queue_ring_def\<close>)

text \<open>A ring determines the fields of its nodes.\<close>

lemma get_both_eq: "get_next c s = Some n \<Longrightarrow> get_prev c s = Some p \<Longrightarrow> s c = Some \<lparr>nxt = n, prv = p\<rparr>"
  by (auto simp: get_next_def get_prev_def)

lemma dlist_enter: "c \<in> set (l # xs) \<Longrightarrow> \<exists>zs. \<forall>s. dlist s l xs \<longleftrightarrow> dlist s c zs"
  by (metis dlist_rotate set_ConsD split_list)

lemma dlist_determines: assumes "dlist s l xs" "dlist s' l xs" "c \<in> set (l # xs)" shows "s' c = s c"
proof -
  obtain zs where "dlist s c zs" "dlist s' c zs" using dlist_enter [OF assms(3)] assms(1,2) by blast
  then have "get_next c s' = get_next c s" "get_prev c s' = get_prev c s"
    using list_ends(1,2) by (metis list_first_def, metis list_last_def)
  moreover have "c \<in> dom s" "c \<in> dom s'" using dlist_dom assms by blast+
  ultimately show ?thesis by (auto simp: get_next_def get_prev_def)
qed

subsection \<open>Properties\<close>

text \<open>A small store: a ring of two nodes, an empty ring and a node in no ring.\<close>

definition sample_store :: store where
  "sample_store = [10 \<mapsto> \<lparr>nxt = 20, prv = 20\<rparr>, 20 \<mapsto> \<lparr>nxt = 10, prv = 10\<rparr>,
    30 \<mapsto> \<lparr>nxt = 0, prv = 0\<rparr>, 40 \<mapsto> \<lparr>nxt = 40, prv = 40\<rparr>]"

lemma sample_rings: "dlist sample_store 10 [20]" "dlist sample_store 40 []"
  "30 \<in> dom sample_store"
  by (simp_all add: sample_store_def dlist_def link_def get_next_def get_prev_def)

text \<open>
  Property C28.  Inserting a node of the store that is in no ring between two neighbours, through
  either of the two insertion helpers, succeeds without touching a foreign node and puts it there;
  deleting it again succeeds, leaves it marked as unreferenced and restores every other node.
\<close>

theorem list_insert_delete:
  assumes "dlist s l (xs @ ys)" "n \<in> dom s" "n \<notin> set (l # xs @ ys)"
  shows "\<exists>s' s''. list_add_after (last (l # xs)) n s = Some s' \<and>
    list_add_before (hd (ys @ [l])) n s = Some s' \<and>
    dlist s' l (xs @ n # ys) \<and> only_on (set (n # l # xs @ ys)) s s' \<and>
    list_del n s' = Some s'' \<and> list_node_is_unref n s'' = Some True \<and> only_on {n} s s''"
proof -
  obtain s' where 1: "list_add_after (last (l # xs)) n s = Some s'" "dlist s' l (xs @ n # ys)"
    "only_on (set (n # l # xs @ ys)) s s'"
    by (rule dlist_add_after [OF assms])
  obtain t where 2: "list_add_before (hd (ys @ [l])) n s = Some t" "dlist t l (xs @ n # ys)"
    "only_on (set (n # l # xs @ ys)) s t"
    by (rule dlist_add_before [OF assms])
  obtain s'' where 3: "list_del n s' = Some s''" "dlist s'' l (xs @ ys)" "list_node_is_unref n s'' = Some True"
    "only_on (set (n # l # xs @ ys)) s' s''"
    by (rule dlist_del [OF 1(2)])
  have "t c = s' c" for c
    using dlist_determines [OF 1(2) 2(2), of c] only_onD [OF 1(3), of c] only_onD [OF 2(3), of c]
    by (cases "c \<in> set (l # xs @ n # ys)") auto
  then have "t = s'" by (rule ext)
  moreover have "only_on {n} s s''"
    using dlist_determines [OF assms(1) 3(2)] 1(3) 3(4) by (auto simp: only_on_def)
  ultimately show ?thesis using 1 2(1) 3 by auto
qed

lemma list_insert_delete_witness:
  "\<exists>s' s''. list_add_after 20 30 sample_store = Some s' \<and> list_add_before 10 30 sample_store = Some s' \<and>
    dlist s' 10 [20, 30] \<and> list_del 30 s' = Some s'' \<and> list_node_is_unref 30 s'' = Some True"
  using list_insert_delete [of sample_store 10 "[20]" "[]" 30] sample_rings by auto

text \<open>
  Moving a node from one ring to any place of another ring of the same store, in
  front of or behind a given node, takes it out of the first and puts it at that place.
\<close>

theorem list_move_between:
  assumes "dlist s l (xs @ n # ys)" "dlist s k (us @ vs)"
    and "set (l # xs @ n # ys) \<inter> set (k # us @ vs) = {}"
  shows "\<exists>s'. list_move_after (last (k # us)) n s = Some s' \<and>
    list_move_before (hd (vs @ [k])) n s = Some s' \<and>
    dlist s' l (xs @ ys) \<and> dlist s' k (us @ n # vs) \<and>
    only_on (set (l # xs @ n # ys) \<union> set (k # us @ vs)) s s'"
proof -
  obtain s' where "list_move_after (last (k # us)) n s = Some s'"
    "list_move_before (hd (vs @ [k])) n s = Some s'" "dlist s' l (xs @ ys)" "dlist s' k (us @ n # vs)"
    "only_on (set (n # l # k # xs @ ys @ us @ vs)) s s'"
    by (rule dlist_move [OF assms])
  moreover have "set (n # l # k # xs @ ys @ us @ vs) = set (l # xs @ n # ys) \<union> set (k # us @ vs)" by auto
  ultimately show ?thesis by auto
qed

lemma list_move_between_witness:
  "\<exists>s'. list_move_after 40 20 sample_store = Some s' \<and> dlist s' 10 [] \<and> dlist s' 40 [20]"
  using list_move_between [of sample_store 10 "[]" 20 "[]" 40 "[]" "[]"] sample_rings by auto

text \<open>
  Replacing a node by a fresh one puts the fresh node at its place; replacing the
  head of a ring, empty or not, hands the whole ring to the fresh head, and with
  \<open>list_replace_init\<close> the old head is then an empty ring of its own.
\<close>

theorem list_replace_correct:
  assumes "dlist s l zs" "m \<in> dom s" "m \<notin> set (l # zs)"
  shows "(\<forall>xs n ys. zs = xs @ n # ys \<longrightarrow>
      (\<exists>s'. list_replace n m s = Some s' \<and> dlist s' l (xs @ m # ys) \<and> only_on (set (m # l # zs)) s s')) \<and>
    (\<exists>s'. list_replace_init l m s = Some s' \<and> dlist s' m zs \<and> dlist s' l [] \<and>
      only_on (set (m # l # zs)) s s')"
proof
  show "\<forall>xs n ys. zs = xs @ n # ys \<longrightarrow>
      (\<exists>s'. list_replace n m s = Some s' \<and> dlist s' l (xs @ m # ys) \<and> only_on (set (m # l # zs)) s s')"
  proof (intro allI impI)
    fix xs n ys assume zs: "zs = xs @ n # ys"
    obtain s' where "list_replace n m s = Some s'" "dlist s' l (xs @ m # ys)"
      "only_on (set (m # l # xs @ ys)) s s'" "s' n = s n"
      using dlist_replace [of s l xs n ys m] assms zs by blast
    then show "\<exists>s'. list_replace n m s = Some s' \<and> dlist s' l (xs @ m # ys) \<and> only_on (set (m # l # zs)) s s'"
      using zs by (auto simp: only_on_def)
  qed
  obtain s1 where 1: "list_replace l m s = Some s1" "dlist s1 m zs" "only_on (set (m # l # zs)) s s1"
    by (rule dlist_replace_head [OF assms])
  have "l \<in> dom s1" using dlist_dom [OF assms(1)] 1(3) by (auto simp: only_on_def)
  then obtain s2 where 2: "list_init l s1 = Some s2" "dlist s2 l []" "only_on {l} s1 s2"
    by (rule dlist_init)
  have "dlist s2 m zs" using assms(1,3) by (intro dlist_frame [OF 1(2) 2(3)]) (auto simp: dlist_def)
  moreover have "only_on (set (m # l # zs)) s s2" by (rule only_on_trans [OF 1(3) 2(3)]) auto
  ultimately show "\<exists>s'. list_replace_init l m s = Some s' \<and> dlist s' m zs \<and> dlist s' l [] \<and>
      only_on (set (m # l # zs)) s s'"
    using 1 2 by (auto simp: list_replace_init_def)
qed

lemma list_replace_correct_witness:
  "(\<exists>s'. list_replace 20 30 sample_store = Some s' \<and> dlist s' 10 [30]) \<and>
   (\<exists>s'. list_replace_init 40 30 sample_store = Some s' \<and> dlist s' 30 [])"
proof
  have "20 # [] = [] @ 20 # ([] :: addr list)" by simp
  then show "\<exists>s'. list_replace 20 30 sample_store = Some s' \<and> dlist s' 10 [30]"
    using list_replace_correct [OF sample_rings(1,3)] by fastforce
  show "\<exists>s'. list_replace_init 40 30 sample_store = Some s' \<and> dlist s' 30 []"
    using list_replace_correct [OF sample_rings(2,3)] by auto
qed

text \<open>
  On a well-formed ring every walk returns, the forward walk visits the nodes in
  order, the backward walk in reverse order, and the length, the emptiness test and the
  end-aware neighbour functions agree with that sequence.
\<close>

theorem list_walks_complete:
  assumes "dlist s l xs"
  shows "list_walk_forward l s = Some xs \<and> list_walk_backward l s = Some (rev xs) \<and>
    list_length l s = Some (length xs) \<and> list_is_empty l s = Some (xs = []) \<and>
    list_first l s = Some (hd (xs @ [l])) \<and> list_last l s = Some (last (l # xs)) \<and>
    (\<forall>i < length xs.
      list_next l (xs ! i) s = Some (if Suc i = length xs then None else Some (xs ! Suc i)) \<and>
      list_prev l (xs ! i) s = Some (if i = 0 then None else Some (xs ! (i - 1))) \<and>
      list_is_last l (xs ! i) s = Some (Suc i = length xs))"
proof -
  have "list_next l (xs ! i) s = Some (if Suc i = length xs then None else Some (xs ! Suc i)) \<and>
      list_prev l (xs ! i) s = Some (if i = 0 then None else Some (xs ! (i - 1))) \<and>
      list_is_last l (xs ! i) s = Some (Suc i = length xs)" if i: "i < length xs" for i
  proof -
    have "dlist s l (take i xs @ xs ! i # drop (Suc i) xs)" using assms i by (simp add: id_take_nth_drop [symmetric])
    note n = list_neighbours [OF this]
    have "xs ! i = last (l # xs) \<longleftrightarrow> Suc i = length xs"
      using assms i nth_eq_iff_index_eq [of xs i "length xs - 1"] by (auto simp: dlist_def last_conv_nth)
    then show ?thesis using n i list_ends(3) [OF assms]
      by (auto simp: hd_drop_conv_nth last_conv_nth simp del: last.simps)
  qed
  then show ?thesis using list_walks [OF assms] list_ends(1,2) [OF assms] by blast
qed

lemma list_walks_complete_witness: "list_walk_forward 10 sample_store = Some [20] \<and> list_length 10 sample_store = Some 1"
  using list_walks_complete [OF sample_rings(1)] by simp

text \<open>
  Property C7.  Used as a queue of structures (push at the tail, pop at the head), a ring behaves like the
  abstract first-in first-out queue in every run of pushes and pops in which no structure is pushed
  while it is in the queue; a popped structure may be pushed again.  A pop returns the structure that
  contains the first node, and no structure when the ring is empty.
\<close>

theorem list_fifo_refines_queue:
  assumes "dlist s l (map (member_of offset) q)" "\<forall>e \<in> set q. e < 2 ^ 64"
    and "admissible (\<lambda>q e. e < 2 ^ 64 \<and> member_of offset e \<in> dom s - {l} \<and> e \<notin> set q) ops q"
  shows "\<exists>s'. fifo_run (\<lambda>e. list_push l (member_of offset e)) (list_pop offset l) ops s = Some (fst (queue_run ops q), s') \<and>
    dlist s' l (map (member_of offset) (snd (queue_run ops q)))"
proof -
  have "queue_ring (dom s) offset l s q" using assms(1,2) by (simp add: queue_ring_def)
  moreover have "admissible (can_push (dom s) offset l) ops q" using assms(3) unfolding can_push_def [abs_def] .
  ultimately show ?thesis using list_fifo.run_refines [of "dom s" offset l s q ops] by (auto simp: queue_ring_def)
qed

lemma list_fifo_refines_queue_witness:
  "\<exists>s'. fifo_run (\<lambda>e. list_push 10 (member_of 8 e)) (list_pop 8 10) [Deq, Enq 22, Enq 12, Deq, Enq 22, Deq, Deq, Deq] sample_store =
    Some ([Some 12, Some 22, Some 12, Some 22, None], s')"
proof -
  let ?ops = "[Deq, Enq 22, Enq 12, Deq, Enq 22, Deq, Deq, Deq]"
  have m: "member_of 8 12 = 20" "member_of 8 22 = 30" by (simp_all add: member_of_def)
  have 1: "queue_run ?ops [12 :: addr] = ([Some 12, Some 22, Some 12, Some 22, None], [])" by simp
  have ring: "dlist sample_store 10 (map (member_of 8) [12])" using sample_rings(1) by (simp add: m)
  have "\<exists>s'. fifo_run (\<lambda>e. list_push 10 (member_of 8 e)) (list_pop 8 10) ?ops sample_store = Some (fst (queue_run ?ops [12]), s') \<and>
    dlist s' 10 (map (member_of 8) (snd (queue_run ?ops [12])))"
    by (rule list_fifo_refines_queue [OF ring]) (use sample_rings(3) dlist_dom [OF sample_rings(1)] in \<open>simp_all add: m\<close>)
  then show ?thesis unfolding 1 fst_conv by blast
qed

end
