(* ===== verification/ListEntry.thy ===== *)
theory ListEntry
  imports DList
begin

text \<open>
  The remaining macros of \<open>list\<close> (src/include/futils/list.h): the walks over the structures that contain the nodes, and the walks whose body may delete the current node (the
  \<open>_safe\<close> variants).

  The body of a walk is an argument: it gets the position and the store.  The result of a walk is the
  list of positions at which the body ran and the final store.  The two directions of a ring share one
  interface, the locale \<open>walk_side\<close>.
\<close>

section \<open>The walks\<close>

text \<open>
  The common loop of the walks: \<open>get\<close> reads the field of the direction, \<open>mem\<close> gives the node of a
  position and \<open>ent\<close> the position of a node.
\<close>

partial_function (option) walk_from ::
  "(addr \<Rightarrow> store \<Rightarrow> addr option) \<Rightarrow> (addr \<Rightarrow> addr) \<Rightarrow> (addr \<Rightarrow> addr) \<Rightarrow> addr \<Rightarrow> (addr \<Rightarrow> store \<Rightarrow> store option) \<Rightarrow>
   addr \<Rightarrow> store \<Rightarrow> (addr list \<times> store) option" where
  "walk_from get mem ent list body pos s =
    (if mem pos = list then Some ([], s)
     else do {
       s \<leftarrow> body pos s;
       n \<leftarrow> get (mem pos) s;
       (rest, s) \<leftarrow> walk_from get mem ent list body (ent n) s;
       Some (pos # rest, s) })"

definition list_walk_entry_forward where
  "list_walk_entry_forward offset list body s = do {
     n \<leftarrow> get_next list s;
     walk_from get_next (member_of offset) (list_entry offset) list body (list_entry offset n) s }"

definition list_walk_entry_backward where
  "list_walk_entry_backward offset list body s = do {
     n \<leftarrow> get_prev list s;
     walk_from get_prev (member_of offset) (list_entry offset) list body (list_entry offset n) s }"

text \<open>The loop of the safe walks reads the link behind \<open>tmp\<close> only after the body has run.\<close>

partial_function (option) walk_safe_from ::
  "(addr \<Rightarrow> store \<Rightarrow> addr option) \<Rightarrow> (addr \<Rightarrow> addr) \<Rightarrow> (addr \<Rightarrow> addr) \<Rightarrow> addr \<Rightarrow> (addr \<Rightarrow> store \<Rightarrow> store option) \<Rightarrow>
   addr \<Rightarrow> addr \<Rightarrow> store \<Rightarrow> (addr list \<times> store) option" where
  "walk_safe_from get mem ent list body pos tmp s =
    (if mem pos = list then Some ([], s)
     else do {
       s \<leftarrow> body pos s;
       n \<leftarrow> get (mem tmp) s;
       (rest, s) \<leftarrow> walk_safe_from get mem ent list body tmp (ent n) s;
       Some (pos # rest, s) })"

definition list_walk_forward_safe where
  "list_walk_forward_safe list body s = do {
     pos \<leftarrow> get_next list s;
     tmp \<leftarrow> get_next pos s;
     walk_safe_from get_next id id list body pos tmp s }"

definition list_walk_backward_safe where
  "list_walk_backward_safe list body s = do {
     pos \<leftarrow> get_prev list s;
     tmp \<leftarrow> get_prev pos s;
     walk_safe_from get_prev id id list body pos tmp s }"

definition list_walk_entry_forward_safe where
  "list_walk_entry_forward_safe offset list body s = do {
     n \<leftarrow> get_next list s;
     let pos = list_entry offset n;
     n \<leftarrow> get_next (member_of offset pos) s;
     walk_safe_from get_next (member_of offset) (list_entry offset) list body pos (list_entry offset n) s }"

definition list_walk_entry_backward_safe where
  "list_walk_entry_backward_safe offset list body s = do {
     n \<leftarrow> get_prev list s;
     let pos = list_entry offset n;
     n \<leftarrow> get_prev (member_of offset pos) s;
     walk_safe_from get_prev (member_of offset) (list_entry offset) list body pos (list_entry offset n) s }"

section \<open>One direction of a ring\<close>

text \<open>
  \<open>ring s l xs\<close>: seen in this direction the ring of head \<open>l\<close> holds \<open>xs\<close>.  \<open>get\<close> goes one step, and
  deleting a node takes it out of the sequence and marks it.
\<close>

locale walk_side =
  fixes ring :: "store \<Rightarrow> addr \<Rightarrow> addr list \<Rightarrow> bool"
    and get :: "addr \<Rightarrow> store \<Rightarrow> addr option"
  assumes get_step: "ring s l (xs @ ys) \<Longrightarrow> get (last (l # xs)) s = Some (hd (ys @ [l]))"
    and ring_del: "ring s l (xs @ n # ys) \<Longrightarrow>
      \<exists>s'. list_del n s = Some s' \<and> ring s' l (xs @ ys) \<and> only_on (set (n # l # xs @ ys)) s s' \<and>
        list_node_is_unref n s' = Some True"
    and ring_distinct: "ring s l xs \<Longrightarrow> distinct (l # xs)"
begin

lemma get_first: "ring s l ys \<Longrightarrow> get l s = Some (hd (ys @ [l]))"
  using get_step [of s l "[]"] by simp

lemma get_next_of: "ring s l (xs @ y # ys) \<Longrightarrow> get y s = Some (hd (ys @ [l]))"
  using get_step [of s l "xs @ [y]" ys] by simp

text \<open>A body that leaves the store alone runs once at each position.\<close>

lemma walk_from_pure:
  assumes "ring s l (xs @ ys)" "\<And>a. a \<in> set (l # ys) \<Longrightarrow> mem (ent a) = a"
    and "\<And>a. a \<in> set ys \<Longrightarrow> body (ent a) s = Some s"
  shows "walk_from get mem ent l body (ent (hd (ys @ [l]))) s = Some (map ent ys, s)"
  using assms
proof (induction ys arbitrary: xs)
  case Nil
  then show ?case by (subst walk_from.simps) simp
next
  case (Cons y ys)
  have IH: "walk_from get mem ent l body (ent (hd (ys @ [l]))) s = Some (map ent ys, s)"
    using Cons.prems by (intro Cons.IH [of "xs @ [y]"]) auto
  have "y \<noteq> l" using ring_distinct [OF Cons.prems(1)] by auto
  then show ?case
    using Cons.prems(2,3) get_next_of [OF Cons.prems(1)] IH by (subst walk_from.simps) simp
qed

text \<open>
  A body that deletes the positions of \<open>P\<close>: the walk still visits all of them, in order, and leaves
  exactly the others.
\<close>

lemma walk_safe_from_delete:
  assumes "ring s l (xs @ ys)" "\<And>a. a \<in> set (l # ys) \<Longrightarrow> mem (ent a) = a"
    and "ys \<noteq> [] \<Longrightarrow> tmp = ent (hd (tl ys @ [l]))"
  shows "\<exists>s'. walk_safe_from get mem ent l (\<lambda>pos s. if P pos then list_del (mem pos) s else Some s)
      (ent (hd (ys @ [l]))) tmp s = Some (map ent ys, s') \<and>
    ring s' l (xs @ filter (\<lambda>a. \<not> P (ent a)) ys) \<and> only_on (set (l # xs @ ys)) s s' \<and>
    (\<forall>a \<in> set ys. P (ent a) \<longrightarrow> list_node_is_unref a s' = Some True)"
    (is "\<exists>s'. ?walk xs ys tmp s s'")
  using assms
proof (induction ys arbitrary: xs tmp s)
  case Nil
  then show ?case by (subst walk_safe_from.simps) simp
next
  case (Cons y ys)
  have dis: "distinct (l # xs @ y # ys)" by (rule ring_distinct [OF Cons.prems(1)])
  have tmp: "tmp = ent (hd (ys @ [l]))" using Cons.prems(3) by simp
  have m: "mem tmp = hd (ys @ [l])" unfolding tmp using Cons.prems(2) by (cases ys) auto
  define kept where "kept = (if P (ent y) then xs else xs @ [y])"
  obtain s1 where s1: "(if P (ent y) then list_del y s else Some s) = Some s1" "ring s1 l (kept @ ys)"
    "only_on (set (l # xs @ y # ys)) s s1" "P (ent y) \<Longrightarrow> list_node_is_unref y s1 = Some True"
  proof (cases "P (ent y)")
    case True
    obtain s1 where "list_del y s = Some s1" "ring s1 l (xs @ ys)" "only_on (set (y # l # xs @ ys)) s s1"
      "list_node_is_unref y s1 = Some True"
      using ring_del [OF Cons.prems(1)] by blast
    then show thesis using True that [of s1] by (simp add: kept_def insert_commute)
  next
    case False
    then show thesis using Cons.prems(1) that [of s] by (simp add: kept_def)
  qed
  obtain n where n: "get (mem tmp) s1 = Some n" "ys \<noteq> [] \<Longrightarrow> n = hd (tl ys @ [l])"
  proof (cases ys)
    case Nil
    then show thesis using that get_first [OF s1(2)] m by simp
  next
    case (Cons z zs)
    then show thesis using that get_next_of [of s1 l kept z zs] s1(2) m by simp
  qed
  obtain s2 where s2: "?walk kept ys (ent n) s1 s2"
    using Cons.IH [OF s1(2), of "ent n"] Cons.prems(2) n(2) by auto
  have "y \<notin> set (l # kept @ ys)" if "P (ent y)" using that dis by (simp add: kept_def)
  then have y: "list_node_is_unref y s2 = Some True" if "P (ent y)"
    using that s1(4) s2 by (auto simp: list_node_is_unref_def get_next_def get_prev_def only_on_def)
  have ne: "mem (ent y) \<noteq> l" using Cons.prems(2) dis by auto
  have "?walk xs (y # ys) tmp s s2"
  proof (intro conjI ballI impI)
    show "walk_safe_from get mem ent l (\<lambda>pos s. if P pos then list_del (mem pos) s else Some s)
        (ent (hd ((y # ys) @ [l]))) tmp s = Some (map ent (y # ys), s2)"
      using s1(1) n(1) s2 ne Cons.prems(2) [of y] by (subst walk_safe_from.simps) (cases "P (ent y)"; simp add: tmp)
    show "ring s2 l (xs @ filter (\<lambda>a. \<not> P (ent a)) (y # ys))" using s2 by (simp add: kept_def split: if_splits)
    show "only_on (set (l # xs @ y # ys)) s s2"
      by (rule only_on_trans [OF s1(3), of "set (l # kept @ ys)"]) (use s2 in \<open>auto simp: kept_def split: if_splits\<close>)
    show "list_node_is_unref a s2 = Some True" if "a \<in> set (y # ys)" "P (ent a)" for a
      using that y s2 by auto
  qed
  then show ?case by blast
qed

text \<open>The start common to the four macros, followed by the loop.\<close>

lemma walk_safe_start:
  assumes "ring s l xs" "\<And>a. a \<in> set (l # xs) \<Longrightarrow> mem (ent a) = a"
  obtains n n' s' where "get l s = Some n" "get (mem (ent n)) s = Some n'"
    "walk_safe_from get mem ent l (\<lambda>pos s. if P pos then list_del (mem pos) s else Some s) (ent n) (ent n') s =
      Some (map ent xs, s')"
    "ring s' l (filter (\<lambda>a. \<not> P (ent a)) xs)" "only_on (set (l # xs)) s s'"
    "\<forall>a \<in> set xs. P (ent a) \<longrightarrow> list_node_is_unref a s' = Some True"
proof -
  have m: "mem (ent (hd (xs @ [l]))) = hd (xs @ [l])" using assms(2) by (cases xs) auto
  obtain t where "get (hd (xs @ [l])) s = Some t" "xs \<noteq> [] \<Longrightarrow> ent t = ent (hd (tl xs @ [l]))"
    using get_next_of [of s l "[]"] get_first [OF assms(1)] assms(1) by (cases xs) auto
  then show thesis
    using walk_safe_from_delete [of s l "[]" xs mem ent "ent t" P] that get_first [OF assms(1)] m assms by auto
qed

end

interpretation forward: walk_side dlist get_next
proof
  fix s l xs n ys
  show "dlist s l (xs @ ys) \<Longrightarrow> get_next (last (l # xs)) s = Some (hd (ys @ [l]))"
    using dlist_neighbours(2) by blast
  show "dlist s l xs \<Longrightarrow> distinct (l # xs)" by (simp add: dlist_def)
  show "dlist s l (xs @ n # ys) \<Longrightarrow> \<exists>s'. list_del n s = Some s' \<and> dlist s' l (xs @ ys) \<and>
      only_on (set (n # l # xs @ ys)) s s' \<and> list_node_is_unref n s' = Some True"
    by (rule dlist_del [of s l xs n ys]) auto
qed

interpretation backward: walk_side "\<lambda>s l xs. dlist s l (rev xs)" get_prev
proof
  fix s l xs n ys
  have ends: "last (l # rev zs) = hd (zs @ [l])" "hd (rev zs @ [l]) = last (l # zs)" for zs :: "addr list"
    by (cases zs; simp add: last_rev) (cases zs rule: rev_cases; simp)
  show "get_prev (last (l # xs)) s = Some (hd (ys @ [l]))" if "dlist s l (rev (xs @ ys))"
    using dlist_neighbours(2) [of s l "rev ys" "rev xs"] that by (simp only: rev_append ends)
  show "dlist s l (rev xs) \<Longrightarrow> distinct (l # xs)" by (simp add: dlist_def)
  show "\<exists>s'. list_del n s = Some s' \<and> dlist s' l (rev (xs @ ys)) \<and>
      only_on (set (n # l # xs @ ys)) s s' \<and> list_node_is_unref n s' = Some True"
    if "dlist s l (rev (xs @ n # ys))"
    using forward.ring_del [of s l "rev ys" n "rev xs"] that by (simp add: Un_commute)
qed

section \<open>The four deleting walks\<close>

text \<open>The body of the property: delete the nodes of the positions of \<open>P\<close>.\<close>

definition del_if :: "(addr \<Rightarrow> addr) \<Rightarrow> (addr \<Rightarrow> bool) \<Rightarrow> addr \<Rightarrow> store \<Rightarrow> store option" where
  "del_if mem P pos s = (if P pos then list_del (mem pos) s else Some s)"

text \<open>\<open>swept P ent l xs s s'\<close>: from \<open>s\<close> to \<open>s'\<close> the nodes of \<open>P\<close> left the ring of \<open>xs\<close> and were marked.\<close>

definition swept where
  "swept P ent l xs s s' \<longleftrightarrow> dlist s' l (filter (\<lambda>a. \<not> P (ent a)) xs) \<and> only_on (set (l # xs)) s s' \<and>
    (\<forall>a \<in> set xs. P (ent a) \<longrightarrow> list_node_is_unref a s' = Some True)"

lemma del_if_eq: "del_if mem P = (\<lambda>pos s. if P pos then list_del (mem pos) s else Some s)"
  by (intro ext) (simp add: del_if_def)

text \<open>
  Property C35.  Every walk over a ring returns.  The walks over the containing structures visit the
  structure of each node, forwards or backwards, whatever the offset of the member; and the body of a
  safe walk may delete the nodes it visits: the walk still visits every position exactly once, in
  order, and afterwards the ring holds exactly the nodes that were not deleted, no foreign node was
  touched and the deleted ones are marked.
\<close>

theorem list_walks_delete_safely:
  assumes "dlist s l xs" "\<forall>a \<in> set (l # xs). a < 2 ^ 64"
  shows "list_walk_entry_forward offset l (\<lambda>_. Some) s = Some (map (list_entry offset) xs, s) \<and>
    list_walk_entry_backward offset l (\<lambda>_. Some) s = Some (rev (map (list_entry offset) xs), s) \<and>
    (\<exists>s'. list_walk_forward_safe l (del_if id P) s = Some (xs, s') \<and> swept P id l xs s s') \<and>
    (\<exists>s'. list_walk_backward_safe l (del_if id P) s = Some (rev xs, s') \<and> swept P id l xs s s') \<and>
    (\<exists>s'. list_walk_entry_forward_safe offset l (del_if (member_of offset) P) s =
        Some (map (list_entry offset) xs, s') \<and> swept P (list_entry offset) l xs s s') \<and>
    (\<exists>s'. list_walk_entry_backward_safe offset l (del_if (member_of offset) P) s =
        Some (rev (map (list_entry offset) xs), s') \<and> swept P (list_entry offset) l xs s s')"
proof (intro conjI)
  let ?mem = "member_of offset" and ?ent = "list_entry offset"
  have m: "?mem (?ent a) = a" if "a \<in> set (l # xs)" for a using assms(2) that member_of_list_entry by blast
  have mr: "?mem (?ent a) = a" if "a \<in> set (l # rev xs)" for a using m that by simp
  have r: "dlist s l (rev (rev xs))" using assms(1) by simp
  show "list_walk_entry_forward offset l (\<lambda>_. Some) s = Some (map ?ent xs, s)"
    using forward.walk_from_pure [of s l "[]" xs ?mem ?ent] forward.get_first [OF assms(1)] assms(1) m
    by (simp add: list_walk_entry_forward_def)
  show "list_walk_entry_backward offset l (\<lambda>_. Some) s = Some (rev (map ?ent xs), s)"
    using backward.walk_from_pure [of s l "[]" "rev xs" ?mem ?ent] backward.get_first [OF r] assms(1) m
    by (simp add: list_walk_entry_backward_def rev_map)
  show "\<exists>s'. list_walk_forward_safe l (del_if id P) s = Some (xs, s') \<and> swept P id l xs s s'"
    by (rule forward.walk_safe_start [OF assms(1), of id id P])
      (auto simp: list_walk_forward_safe_def del_if_eq swept_def)
  show "\<exists>s'. list_walk_backward_safe l (del_if id P) s = Some (rev xs, s') \<and> swept P id l xs s s'"
    by (rule backward.walk_safe_start [OF r, of id id P])
      (auto simp: list_walk_backward_safe_def del_if_eq swept_def rev_filter)
  show "\<exists>s'. list_walk_entry_forward_safe offset l (del_if ?mem P) s = Some (map ?ent xs, s') \<and> swept P ?ent l xs s s'"
    by (rule forward.walk_safe_start [where mem = ?mem and ent = ?ent and P = P, OF assms(1) m])
      (auto simp: list_walk_entry_forward_safe_def del_if_eq swept_def)
  show "\<exists>s'. list_walk_entry_backward_safe offset l (del_if ?mem P) s = Some (rev (map ?ent xs), s') \<and> swept P ?ent l xs s s'"
    by (rule backward.walk_safe_start [where mem = ?mem and ent = ?ent and P = P, OF r mr])
      (auto simp: list_walk_entry_backward_safe_def del_if_eq swept_def rev_filter rev_map)
qed

lemma list_walks_delete_safely_witness:
  "\<exists>s'. list_walk_entry_forward_safe 8 10 (del_if (member_of 8) (\<lambda>_. True)) sample_store = Some ([12], s') \<and> dlist s' 10 []"
proof -
  have "\<forall>a \<in> set [10, 20 :: addr]. a < 2 ^ 64" by simp
  moreover have "list_entry 8 20 = 12" by (simp add: list_entry_def FUTILS_CONTAINER_OF_def)
  ultimately show ?thesis
    using list_walks_delete_safely [OF sample_rings(1), of 8 "\<lambda>_. True"] by (auto simp: swept_def)
qed

end
