(* ===== verification/Dict.thy ===== *)
theory Dict
  imports Prelude
begin

text \<open>
  The contract of a dictionary that refuses duplicate keys and keeps the insertion order, as a
  locale over an implementation's insert, remove and look-up operations, and what follows from it
  for every sequence of operations.  The hash table provides it.
\<close>

datatype ('k, 'v) dict_op = Ins 'k 'v | Del 'k | Find 'k

datatype 'v dict_out = Done | Exists | Missing | Found 'v

text \<open>The abstract dictionary is an association list in insertion order.\<close>

fun dict_step :: "('k, 'v) dict_op \<Rightarrow> ('k \<times> 'v) list \<Rightarrow> 'v dict_out \<times> ('k \<times> 'v) list" where
  "dict_step (Ins k v) d = (if map_of d k = None then (Done, d @ [(k, v)]) else (Exists, d))"
| "dict_step (Del k) d = (if map_of d k = None then (Missing, d) else (Done, filter (\<lambda>(k', v). k' \<noteq> k) d))"
| "dict_step (Find k) d = (case map_of d k of None \<Rightarrow> (Missing, d) | Some v \<Rightarrow> (Found v, d))"

fun dict_run :: "('k, 'v) dict_op list \<Rightarrow> ('k \<times> 'v) list \<Rightarrow> 'v dict_out list \<times> ('k \<times> 'v) list" where
  "dict_run [] d = ([], d)"
| "dict_run (op # ops) d =
    (let (out, d) = dict_step op d; (outs, d) = dict_run ops d in (out # outs, d))"

text \<open>Forgetting the order leaves a finite map, updated and restricted by the operations.\<close>

lemma map_of_filter_key: "map_of (filter (\<lambda>(k', v). k' \<noteq> k) d) = (map_of d)(k := None)"
  by (induction d) auto

lemma dict_step_map:
  "map_of (snd (dict_step op d)) = (case op of
     Ins k v \<Rightarrow> if map_of d k = None then (map_of d)(k \<mapsto> v) else map_of d
   | Del k \<Rightarrow> (map_of d)(k := None)
   | Find k \<Rightarrow> map_of d)"
  by (cases op) (auto simp: map_of_filter_key map_add_def fun_eq_iff split: option.splits)

text \<open>The same operations on an implementation.\<close>

fun impl_step :: "('k \<Rightarrow> 'v \<Rightarrow> 's \<Rightarrow> ('v dict_out \<times> 's) option) \<Rightarrow> ('k \<Rightarrow> 's \<Rightarrow> ('v dict_out \<times> 's) option) \<Rightarrow>
    ('k \<Rightarrow> 's \<Rightarrow> 'v dict_out option) \<Rightarrow> ('k, 'v) dict_op \<Rightarrow> 's \<Rightarrow> ('v dict_out \<times> 's) option" where
  "impl_step ins del look (Ins k v) s = ins k v s"
| "impl_step ins del look (Del k) s = del k s"
| "impl_step ins del look (Find k) s = map_option (\<lambda>out. (out, s)) (look k s)"

fun impl_run :: "(('k, 'v) dict_op \<Rightarrow> 's \<Rightarrow> ('v dict_out \<times> 's) option) \<Rightarrow> ('k, 'v) dict_op list \<Rightarrow> 's \<Rightarrow>
    ('v dict_out list \<times> 's) option" where
  "impl_run step [] s = Some ([], s)"
| "impl_run step (op # ops) s = do {
     (out, s) \<leftarrow> step op s; (outs, s) \<leftarrow> impl_run step ops s; Some (out # outs, s) }"

locale dict =
  fixes rep :: "'s \<Rightarrow> ('k \<times> 'v) list \<Rightarrow> bool"
    and ins :: "'k \<Rightarrow> 'v \<Rightarrow> 's \<Rightarrow> ('v dict_out \<times> 's) option"
    and del :: "'k \<Rightarrow> 's \<Rightarrow> ('v dict_out \<times> 's) option"
    and look :: "'k \<Rightarrow> 's \<Rightarrow> 'v dict_out option"
  assumes ins_new: "rep s d \<Longrightarrow> map_of d k = None \<Longrightarrow>
      \<exists>s'. ins k v s = Some (Done, s') \<and> rep s' (d @ [(k, v)])"
    and ins_dup: "rep s d \<Longrightarrow> map_of d k \<noteq> None \<Longrightarrow> \<exists>s'. ins k v s = Some (Exists, s') \<and> rep s' d"
    and del_old: "rep s d \<Longrightarrow> map_of d k \<noteq> None \<Longrightarrow>
      \<exists>s'. del k s = Some (Done, s') \<and> rep s' (filter (\<lambda>(k', v). k' \<noteq> k) d)"
    and del_none: "rep s d \<Longrightarrow> map_of d k = None \<Longrightarrow> \<exists>s'. del k s = Some (Missing, s') \<and> rep s' d"
    and find_law: "rep s d \<Longrightarrow> look k s = Some (case map_of d k of None \<Rightarrow> Missing | Some v \<Rightarrow> Found v)"
begin

lemma step_refines:
  "rep s d \<Longrightarrow> \<exists>s'. impl_step ins del look op s = Some (fst (dict_step op d), s') \<and> rep s' (snd (dict_step op d))"
proof (cases op)
  case (Ins k v)
  then show "rep s d \<Longrightarrow> ?thesis" using ins_new [of s d k v] ins_dup [of s d k v] by auto
next
  case (Del k)
  then show "rep s d \<Longrightarrow> ?thesis" using del_old [of s d k] del_none [of s d k] by auto
next
  case (Find k)
  then show "rep s d \<Longrightarrow> ?thesis" using find_law [of s d k] by (auto split: option.split)
qed

lemma run_refines:
  "rep s d \<Longrightarrow> \<exists>s'. impl_run (impl_step ins del look) ops s = Some (fst (dict_run ops d), s') \<and>
    rep s' (snd (dict_run ops d))"
proof (induction ops arbitrary: s d)
  case (Cons op ops)
  obtain s' where "impl_step ins del look op s = Some (fst (dict_step op d), s')" "rep s' (snd (dict_step op d))"
    using step_refines [OF Cons.prems] by blast
  with Cons.IH [of s' "snd (dict_step op d)"] show ?case by (auto split: prod.split)
qed simp

end

end
