(* ===== verification/Hash.thy ===== *)
theory Hash
  imports DList Dict
begin

text \<open>
  Component \<open>hash\<close> (src/src/hash.c, src/include/futils/hash.h): the chained hash table from 32-bit
  keys to pointers, whose entries are also linked in insertion order.

  Entries live at addresses of the memory \<open>ents\<close>; \<open>node\<close> is their first member, so the address of
  an entry is the address of its list node in the store \<open>nodes\<close>, where the head \<open>&hash->entries\<close> lies
  too.  \<open>malloc\<close>'s answer is an argument, \<open>None\<close> for failure.  A function returns \<open>None\<close> when it
  runs into undefined behaviour (an access to memory that is not allocated, a double free, a
  division by zero) or does not return.
\<close>

record hash_entry =
  is_const :: bool
  data :: nat          \<comment> \<open>the union of \<open>data\<close> and \<open>const_data\<close>\<close>
  entry_key :: u32
  chain_next :: "addr option"

text \<open>
  \<open>struct hash\<close> together with the memory its functions touch.  The \<open>NULL\<close> bucket array is the empty
  list, and \<open>bucket_arrays\<close> counts the arrays that are allocated; \<open>hfree_calls\<close> records the arguments of
  the calls of the \<open>hfree\<close> callback, oldest first.
\<close>

record hash =
  buckets :: "addr option list"
  tab_size :: u32
  entries :: addr
  hfree :: bool        \<comment> \<open>a callback is set\<close>
  ents :: "addr \<rightharpoonup> hash_entry"
  nodes :: store
  hfree_calls :: "nat list"
  bucket_arrays :: nat

definition futils_hash_prime_tab :: "u32 list" where
  "futils_hash_prime_tab = [
     1, 2, 3, 7, 13, 31, 61, 127, 251, 509, 1021,
     2039, 4093, 8191, 16381, 32749, 65521, 131071,
     262139, 524287, 1048573, 2097143, 4194301, 8388593,
     16777213, 33554393, 67108859, 134217689, 268435399,
     536870909, 1073741789, 2147483647]"

definition MULT33 :: "u32 \<Rightarrow> u32" where
  "MULT33 x = push_bit 5 x + x"

definition DJB2_HASH_START :: u32 where
  "DJB2_HASH_START = 5381"

definition hash_32 :: "u32 \<Rightarrow> u32" where
  "hash_32 key = (
     let hash = MULT33 DJB2_HASH_START + (key AND 0xff);
         key = drop_bit 8 key;
         hash = MULT33 hash + (key AND 0xff);
         key = drop_bit 8 key;
         hash = MULT33 hash + (key AND 0xff);
         key = drop_bit 8 key;
         hash = MULT33 hash + (key AND 0xff)
     in hash)"

text \<open>\<open>hash_32(key) % hash->size\<close>; \<open>None\<close> is the division by zero.\<close>

definition bucket_index :: "hash \<Rightarrow> u32 \<Rightarrow> nat option" where
  "bucket_index h k = (if tab_size h = 0 then None else Some (unat (hash_32 k mod tab_size h)))"

definition get_bucket :: "nat \<Rightarrow> hash \<Rightarrow> addr option option" where
  "get_bucket i h = (if i < length (buckets h) then Some (buckets h ! i) else None)"

definition set_bucket :: "nat \<Rightarrow> addr option \<Rightarrow> hash \<Rightarrow> hash option" where
  "set_bucket i p h =
    (if i < length (buckets h) then Some (h\<lparr>buckets := (buckets h)[i := p]\<rparr>) else None)"

definition set_chain_next :: "addr \<Rightarrow> addr option \<Rightarrow> hash \<Rightarrow> hash option" where
  "set_chain_next a p h = (case ents h a of
     None \<Rightarrow> None | Some e \<Rightarrow> Some (h\<lparr>ents := (ents h)(a \<mapsto> e\<lparr>chain_next := p\<rparr>)\<rparr>))"

text \<open>\<open>calloc\<close> of an entry at \<open>a\<close> and the stores of its fields; \<open>free\<close> of an entry.\<close>

definition new_entry :: "addr \<Rightarrow> hash_entry \<Rightarrow> hash \<Rightarrow> hash" where
  "new_entry a e h = h\<lparr>ents := (ents h)(a \<mapsto> e), nodes := (nodes h)(a \<mapsto> \<lparr>nxt = 0, prv = 0\<rparr>)\<rparr>"

definition free_entry :: "addr \<Rightarrow> hash \<Rightarrow> hash option" where
  "free_entry a h = (if ents h a = None then None
     else Some (h\<lparr>ents := (ents h)(a := None), nodes := (nodes h)(a := None)\<rparr>))"

text \<open>\<open>list_del(&entry->node)\<close> and \<open>if (hash->hfree) hash->hfree(entry->data)\<close>.\<close>

definition unlink_node :: "addr \<Rightarrow> hash \<Rightarrow> hash option" where
  "unlink_node a h = do { ns \<leftarrow> list_del a (nodes h); Some (h\<lparr>nodes := ns\<rparr>) }"

definition call_hfree :: "addr \<Rightarrow> hash \<Rightarrow> hash option" where
  "call_hfree a h = do {
     e \<leftarrow> ents h a;
     Some (if hfree h then h\<lparr>hfree_calls := hfree_calls h @ [data e]\<rparr> else h) }"

subsection \<open>Initialisation\<close>

function prime_index :: "nat \<Rightarrow> nat \<Rightarrow> nat" where
  "prime_index sz i =
    (if unat (futils_hash_prime_tab ! i) \<le> sz \<and> i + 1 < length futils_hash_prime_tab
     then prime_index sz (i + 1) else i)"
  by pat_completeness auto
termination by (relation "measure (\<lambda>(_, i). length futils_hash_prime_tab - i)") auto

declare prime_index.simps [simp del]

text \<open>
  \<open>calloc_ok\<close>: the allocation of the buckets succeeds; \<open>cb\<close>: a callback is given.  The argument
  \<open>h\<close> supplies the location of the structure (\<open>entries\<close>) and the memory around it.
\<close>

definition futils_hash_init :: "bool \<Rightarrow> hash option \<Rightarrow> nat \<Rightarrow> bool \<Rightarrow> (unit res \<times> hash option) option" where
  "futils_hash_init calloc_ok h sz cb = (case h of
     None \<Rightarrow> Some (Inl EINVAL, None)
   | Some h \<Rightarrow>
      let h = h\<lparr>buckets := [], tab_size := 0, hfree := False,
                nodes := (nodes h)(entries h \<mapsto> \<lparr>nxt = 0, prv = 0\<rparr>)\<rparr>;
          h = h\<lparr>tab_size := futils_hash_prime_tab ! prime_index sz 0\<rparr>
      in if \<not> calloc_ok then Some (Inl ENOMEM, Some h)
         else do {
           let h = h\<lparr>buckets := replicate (unat (tab_size h)) None, bucket_arrays := bucket_arrays h + 1, hfree := cb\<rparr>;
           ns \<leftarrow> list_init (entries h) (nodes h);
           Some (Inr (), Some (h\<lparr>nodes := ns\<rparr>)) })"

subsection \<open>Insertion and lookup\<close>

text \<open>The scan for an entry with the same key: \<open>True\<close> when there is one.\<close>

partial_function (option) insert_scan :: "u32 \<Rightarrow> addr option \<Rightarrow> hash \<Rightarrow> bool option" where
  "insert_scan k entry h = (case entry of
     None \<Rightarrow> Some False
   | Some a \<Rightarrow> do {
       e \<leftarrow> ents h a;
       if entry_key e = k then Some True else insert_scan k (chain_next e) h })"

definition futils_hash_insert_entry :: "u32 \<Rightarrow> addr \<Rightarrow> hash \<Rightarrow> (unit res \<times> hash) option" where
  "futils_hash_insert_entry k a h = do {
     i \<leftarrow> bucket_index h k;
     entry \<leftarrow> get_bucket i h;
     found \<leftarrow> insert_scan k entry h;
     if found then Some (Inl EEXIST, h)
     else do {
       b \<leftarrow> get_bucket i h;
       h \<leftarrow> set_chain_next a b h;
       h \<leftarrow> set_bucket i (Some a) h;
       ns \<leftarrow> list_add_before (entries h) a (nodes h);
       Some (Inr (), h\<lparr>nodes := ns\<rparr>) } }"

definition futils_hash_insert :: "addr option \<Rightarrow> hash option \<Rightarrow> u32 \<Rightarrow> nat \<Rightarrow> (unit res \<times> hash option) option" where
  "futils_hash_insert alloc h k d = (case h of
     None \<Rightarrow> Some (Inl EINVAL, None)
   | Some h \<Rightarrow> (case alloc of
       None \<Rightarrow> Some (Inl ENOMEM, Some h)
     | Some a \<Rightarrow> do {
         (ret, h) \<leftarrow> futils_hash_insert_entry k a
           (new_entry a \<lparr>is_const = False, data = d, entry_key = k, chain_next = None\<rparr> h);
         (case ret of
            Inl e \<Rightarrow> do { h \<leftarrow> free_entry a h; Some (Inl e, Some h) }
          | Inr _ \<Rightarrow> Some (Inr (), Some h)) }))"

definition futils_hash_insert_const :: "addr option \<Rightarrow> hash option \<Rightarrow> u32 \<Rightarrow> nat \<Rightarrow> (unit res \<times> hash option) option" where
  "futils_hash_insert_const alloc h k d = (case h of
     None \<Rightarrow> Some (Inl EINVAL, None)
   | Some h \<Rightarrow> (case alloc of
       None \<Rightarrow> Some (Inl ENOMEM, Some h)
     | Some a \<Rightarrow> do {
         (ret, h) \<leftarrow> futils_hash_insert_entry k a
           (new_entry a \<lparr>is_const = True, data = d, entry_key = k, chain_next = None\<rparr> h);
         (case ret of
            Inl e \<Rightarrow> do { h \<leftarrow> free_entry a h; Some (Inl e, Some h) }
          | Inr _ \<Rightarrow> Some (Inr (), Some h)) }))"

partial_function (option) lookup_scan :: "u32 \<Rightarrow> addr option \<Rightarrow> hash \<Rightarrow> addr option option" where
  "lookup_scan k entry h = (case entry of
     None \<Rightarrow> Some None
   | Some a \<Rightarrow> do {
       e \<leftarrow> ents h a;
       if entry_key e \<noteq> k then lookup_scan k (chain_next e) h else Some (Some a) })"

definition futils_hash_lookup_entry :: "hash option \<Rightarrow> u32 \<Rightarrow> addr res option" where
  "futils_hash_lookup_entry tab k = (case tab of
     None \<Rightarrow> Some (Inl EINVAL)
   | Some h \<Rightarrow> do {
       i \<leftarrow> bucket_index h k;
       entry \<leftarrow> get_bucket i h;
       entry \<leftarrow> lookup_scan k entry h;
       (case entry of None \<Rightarrow> Some (Inl ENOENT) | Some a \<Rightarrow> Some (Inr a)) })"

text \<open>The value stored through the out parameter \<open>data\<close>, when that is given, is the result.\<close>

definition futils_hash_lookup :: "hash option \<Rightarrow> u32 \<Rightarrow> nat res option" where
  "futils_hash_lookup tab k = do {
     ret \<leftarrow> futils_hash_lookup_entry tab k;
     (case (ret, tab) of
        (Inl e, _) \<Rightarrow> Some (Inl e)
      | (Inr a, None) \<Rightarrow> None
      | (Inr a, Some h) \<Rightarrow> do {
          e \<leftarrow> ents h a;
          Some (if is_const e then Inl EPERM else Inr (data e)) }) }"

definition futils_hash_lookup_const :: "hash option \<Rightarrow> u32 \<Rightarrow> nat res option" where
  "futils_hash_lookup_const tab k = do {
     ret \<leftarrow> futils_hash_lookup_entry tab k;
     (case (ret, tab) of
        (Inl e, _) \<Rightarrow> Some (Inl e)
      | (Inr a, None) \<Rightarrow> None
      | (Inr a, Some h) \<Rightarrow> do { e \<leftarrow> ents h a; Some (Inr (data e)) }) }"

subsection \<open>Removal\<close>

partial_function (option) remove_scan :: "u32 \<Rightarrow> addr option \<Rightarrow> addr option \<Rightarrow> hash \<Rightarrow>
    (addr option \<times> addr option) option" where
  "remove_scan k prev entry h = (case entry of
     None \<Rightarrow> Some (prev, None)
   | Some a \<Rightarrow> do {
       e \<leftarrow> ents h a;
       if entry_key e \<noteq> k then remove_scan k (Some a) (chain_next e) h else Some (prev, Some a) })"

definition futils_hash_remove :: "hash option \<Rightarrow> u32 \<Rightarrow> (unit res \<times> hash option) option" where
  "futils_hash_remove tab k = (case tab of
     None \<Rightarrow> Some (Inl EINVAL, None)
   | Some h \<Rightarrow> do {
       i \<leftarrow> bucket_index h k;
       entry \<leftarrow> get_bucket i h;
       (prev, entry) \<leftarrow> remove_scan k None entry h;
       (case entry of
          None \<Rightarrow> Some (Inl ENOENT, Some h)
        | Some a \<Rightarrow> do {
            e \<leftarrow> ents h a;
            h \<leftarrow> (case prev of
                   None \<Rightarrow> set_bucket i (chain_next e) h
                 | Some p \<Rightarrow> set_chain_next p (chain_next e) h);
            h \<leftarrow> unlink_node a h;
            h \<leftarrow> call_hfree a h;
            h \<leftarrow> free_entry a h;
            Some (Inr (), Some h) }) })"

partial_function (option) remove_chain :: "addr option \<Rightarrow> hash \<Rightarrow> hash option" where
  "remove_chain entry h = (case entry of
     None \<Rightarrow> Some h
   | Some a \<Rightarrow> do {
       e \<leftarrow> ents h a;
       h \<leftarrow> unlink_node a h;
       h \<leftarrow> call_hfree a h;
       h \<leftarrow> free_entry a h;
       remove_chain (chain_next e) h })"

text \<open>The outer loop, over the indices below the size.\<close>

fun remove_buckets :: "nat list \<Rightarrow> hash \<Rightarrow> hash option" where
  "remove_buckets [] h = Some h"
| "remove_buckets (i # is) h = do {
     entry \<leftarrow> get_bucket i h;
     h \<leftarrow> remove_chain entry h;
     h \<leftarrow> set_bucket i None h;
     remove_buckets is h }"

definition futils_hash_remove_all :: "hash option \<Rightarrow> (unit res \<times> hash option) option" where
  "futils_hash_remove_all tab = (case tab of
     None \<Rightarrow> Some (Inl EINVAL, None)
   | Some h \<Rightarrow> do {
       h \<leftarrow> remove_buckets [0..<unat (tab_size h)] h;
       Some (Inr (), Some h) })"

text \<open>\<open>free(hash->buckets)\<close>: \<open>None\<close> when the array is not allocated.\<close>

definition free_buckets :: "hash \<Rightarrow> hash option" where
  "free_buckets h =
    (if buckets h = [] then Some h
     else if bucket_arrays h = 0 then None
     else Some (h\<lparr>bucket_arrays := bucket_arrays h - 1\<rparr>))"

definition futils_hash_destroy :: "hash option \<Rightarrow> (unit res \<times> hash option) option" where
  "futils_hash_destroy tab = (case tab of
     None \<Rightarrow> Some (Inl EINVAL, None)
   | Some h \<Rightarrow> do {
       (ret, tab) \<leftarrow> futils_hash_remove_all (Some h);
       h \<leftarrow> tab;
       h \<leftarrow> free_buckets h;
       Some (Inr (), Some (h\<lparr>buckets := [], tab_size := 0, hfree := False,
                nodes := (nodes h)(entries h \<mapsto> \<lparr>nxt = 0, prv = 0\<rparr>)\<rparr>)) })"

subsection \<open>Bucket chains\<close>

text \<open>\<open>chain m p as q\<close>: following \<open>next\<close> from \<open>p\<close> passes the entries \<open>as\<close> and arrives at \<open>q\<close>.\<close>

fun chain :: "(addr \<rightharpoonup> hash_entry) \<Rightarrow> addr option \<Rightarrow> addr list \<Rightarrow> addr option \<Rightarrow> bool" where
  "chain m p [] q \<longleftrightarrow> p = q"
| "chain m p (a # as) q \<longleftrightarrow> p = Some a \<and> (\<exists>e. m a = Some e \<and> chain m (chain_next e) as q)"

lemma chain_append: "chain m p (us @ vs) q \<longleftrightarrow> (\<exists>r. chain m p us r \<and> chain m r vs q)"
  by (induction us arbitrary: p) auto

lemma chain_frame: "chain m p as q \<Longrightarrow> (\<And>a. a \<in> set as \<Longrightarrow> m' a = m a) \<Longrightarrow> chain m' p as q"
  by (induction as arbitrary: p) auto

lemma chain_dom: "chain m p as q \<Longrightarrow> set as \<subseteq> dom m"
  by (induction as arbitrary: p) auto

lemma chain_suffix_unique: "chain m p as None \<Longrightarrow> chain m p bs None \<Longrightarrow> as = bs"
proof (induction as arbitrary: p bs)
  case Nil
  then show ?case by (cases bs) auto
next
  case (Cons a as)
  then show ?case by (cases bs) auto
qed

lemma chain_distinct: "chain m p as None \<Longrightarrow> distinct as"
proof (induction as arbitrary: p)
  case (Cons a as)
  then obtain e where e: "m a = Some e" "chain m (chain_next e) as None" by auto
  have "a \<notin> set as"
  proof
    assume "a \<in> set as"
    then obtain us vs where as: "as = us @ a # vs" by (meson split_list)
    then have "chain m (chain_next e) vs None" using e by (auto simp: chain_append)
    from chain_suffix_unique [OF this e(2)] as show False by (metis length_Cons length_append not_add_less2 lessI)
  qed
  with Cons.IH [OF e(2)] show ?case by simp
qed simp

text \<open>Skipping one entry.\<close>

lemma chain_skip_first: "chain m p (a # vs) q \<Longrightarrow> m a = Some e \<Longrightarrow> chain m (chain_next e) vs q"
  by auto

lemma chain_skip:
  assumes "chain m p (us @ l # a # vs) None" "m a = Some e" "m l = Some el"
  shows "chain (m(l \<mapsto> el\<lparr>chain_next := chain_next e\<rparr>)) p (us @ l # vs) None"
proof -
  let ?m = "m(l \<mapsto> el\<lparr>chain_next := chain_next e\<rparr>)"
  have d: "distinct (us @ l # a # vs)" using chain_distinct assms(1) by blast
  have "chain m p us (Some l)" "chain m (chain_next e) vs None"
    using assms by (auto simp: chain_append)
  then have "chain ?m p us (Some l)" "chain ?m (chain_next e) vs None"
    using d by (auto intro: chain_frame)
  then show ?thesis by (auto simp: chain_append)
qed

subsection \<open>The scans return\<close>

definition key_of :: "hash \<Rightarrow> addr \<Rightarrow> u32" where
  "key_of h a = entry_key (the (ents h a))"

definition value_of :: "hash \<Rightarrow> addr \<Rightarrow> bool \<times> nat" where
  "value_of h a = (is_const (the (ents h a)), data (the (ents h a)))"

lemma insert_scan_chain:
  "chain (ents h) p as None \<Longrightarrow> insert_scan k p h = Some (\<exists>a\<in>set as. key_of h a = k)"
proof (induction as arbitrary: p)
  case Nil
  then show ?case by (subst insert_scan.simps) simp
next
  case (Cons a as)
  then show ?case by (subst insert_scan.simps) (auto simp: key_of_def)
qed

lemma lookup_scan_chain:
  "chain (ents h) p as None \<Longrightarrow> lookup_scan k p h = Some (find (\<lambda>a. key_of h a = k) as)"
proof (induction as arbitrary: p)
  case Nil
  then show ?case by (subst lookup_scan.simps) simp
next
  case (Cons a as)
  then show ?case by (subst lookup_scan.simps) (auto simp: key_of_def)
qed

lemma remove_scan_absent:
  "chain (ents h) p as None \<Longrightarrow> k \<notin> key_of h ` set as \<Longrightarrow>
   \<exists>l. remove_scan k prev p h = Some (l, None)"
proof (induction as arbitrary: p prev)
  case Nil
  then show ?case by (subst remove_scan.simps) simp
next
  case (Cons a as)
  then obtain e where "ents h a = Some e" "chain (ents h) (chain_next e) as None" "p = Some a" by auto
  moreover from this Cons have "entry_key e \<noteq> k" by (auto simp: key_of_def)
  ultimately show ?case using Cons.IH [of "chain_next e" "Some a"] Cons.prems(2)
    by (subst remove_scan.simps) auto
qed

lemma remove_scan_present:
  "chain (ents h) p (us @ a # vs) None \<Longrightarrow> k \<notin> key_of h ` set us \<Longrightarrow> key_of h a = k \<Longrightarrow>
   remove_scan k prev p h = Some (if us = [] then prev else Some (last us), Some a)"
proof (induction us arbitrary: p prev)
  case Nil
  then show ?case by (subst remove_scan.simps) (auto simp: key_of_def)
next
  case (Cons b us)
  then obtain e where "ents h b = Some e" "chain (ents h) (chain_next e) (us @ a # vs) None" "p = Some b" by auto
  moreover from this Cons have "entry_key e \<noteq> k" by (auto simp: key_of_def)
  ultimately show ?case using Cons.IH [of "chain_next e" "Some b"] Cons.prems
    by (subst remove_scan.simps) auto
qed

subsection \<open>The representation invariant\<close>

definition bucket_of :: "hash \<Rightarrow> u32 \<Rightarrow> nat" where
  "bucket_of h k = unat (hash_32 k mod tab_size h)"

text \<open>
  \<open>hash_rep h cs es\<close>: the bucket array is allocated; bucket \<open>i\<close> is the chain of the entries \<open>cs i\<close>, which are the entries whose keys
  fall into it; the entries list is the ring \<open>es\<close>, in insertion order; no two entries share a key.
\<close>

definition hash_rep :: "hash \<Rightarrow> (nat \<Rightarrow> addr list) \<Rightarrow> addr list \<Rightarrow> bool" where
  "hash_rep h cs es \<longleftrightarrow>
     0 < bucket_arrays h \<and> tab_size h \<noteq> 0 \<and> length (buckets h) = unat (tab_size h) \<and>
     (\<forall>i < length (buckets h). chain (ents h) (buckets h ! i) (cs i) None \<and>
        (\<forall>a \<in> set (cs i). bucket_of h (key_of h a) = i)) \<and>
     dlist (nodes h) (entries h) es \<and> set es = (\<Union>i < length (buckets h). set (cs i)) \<and>
     inj_on (key_of h) (set es)"

text \<open>The abstract table: key, constness and data pointer of every entry, in insertion order.\<close>

definition contents :: "hash \<Rightarrow> addr list \<Rightarrow> (u32 \<times> bool \<times> nat) list" where
  "contents h es = map (\<lambda>a. (key_of h a, value_of h a)) es"

lemma bucket_index_eq: "tab_size h \<noteq> 0 \<Longrightarrow> bucket_index h k = Some (bucket_of h k)"
  by (simp add: bucket_index_def bucket_of_def)

lemma bucket_of_less: "hash_rep h cs es \<Longrightarrow> bucket_of h k < length (buckets h)"
  by (simp add: hash_rep_def bucket_of_def unat_mod unat_gt_0)

lemma find_in: "find P xs = Some a \<Longrightarrow> a \<in> set xs \<and> P a"
  by (induction xs) (auto split: if_splits)

lemma find_unique:
  "inj_on f (set xs) \<Longrightarrow> find (\<lambda>a. f a = k) xs = Some a \<longleftrightarrow> a \<in> set xs \<and> f a = k"
  by (induction xs) (auto simp: inj_on_def)

lemma find_none: "find (\<lambda>a. f a = k) xs = None \<longleftrightarrow> k \<notin> f ` set xs"
  by (auto simp: find_None_iff)

lemma find_bucket:
  assumes "hash_rep h cs es"
  shows "find (\<lambda>a. key_of h a = k) (cs (bucket_of h k)) = find (\<lambda>a. key_of h a = k) es"
proof -
  let ?P = "\<lambda>a. key_of h a = k"
  have i: "bucket_of h k < length (buckets h)" by (rule bucket_of_less [OF assms])
  have r: "set es = (\<Union>i < length (buckets h). set (cs i))" "inj_on (key_of h) (set es)"
    "\<And>i a. i < length (buckets h) \<Longrightarrow> a \<in> set (cs i) \<Longrightarrow> bucket_of h (key_of h a) = i"
    using assms by (auto simp: hash_rep_def)
  have sub: "a \<in> set (cs (bucket_of h k)) \<longleftrightarrow> a \<in> set es" if "key_of h a = k" for a
    using r(1) r(3) [of _ a] i that by blast
  have inj: "inj_on (key_of h) (set (cs (bucket_of h k)))"
    using r(1,2) i by (blast intro: inj_on_subset)
  have "find ?P (cs (bucket_of h k)) = Some a \<longleftrightarrow> find ?P es = Some a" for a
    unfolding find_unique [OF r(2)] find_unique [OF inj] using sub by blast
  then show ?thesis by (metis not_Some_eq)
qed

lemma map_of_contents: "map_of (contents h es) k = map_option (value_of h) (find (\<lambda>a. key_of h a = k) es)"
  by (induction es) (auto simp: contents_def)

lemma contents_keys: "fst ` set (contents h es) = key_of h ` set es"
  by (force simp: contents_def)

lemma lookup_entry_eq:
  assumes "hash_rep h cs es"
  shows "futils_hash_lookup_entry (Some h) k =
    Some (case find (\<lambda>a. key_of h a = k) es of None \<Rightarrow> Inl ENOENT | Some a \<Rightarrow> Inr a)"
proof -
  have "chain (ents h) (buckets h ! bucket_of h k) (cs (bucket_of h k)) None" "tab_size h \<noteq> 0"
    using assms bucket_of_less [OF assms, of k] by (auto simp: hash_rep_def)
  then show ?thesis using bucket_of_less [OF assms, of k]
    by (simp add: futils_hash_lookup_entry_def bucket_index_eq get_bucket_def lookup_scan_chain find_bucket [OF assms]
        split: option.split)
qed

lemma rep_entry: "hash_rep h cs es \<Longrightarrow> a \<in> set es \<Longrightarrow> \<exists>e. ents h a = Some e"
  using chain_dom by (fastforce simp: hash_rep_def)

lemma lookup_eq:
  assumes "hash_rep h cs es"
  shows "futils_hash_lookup (Some h) k = Some (case map_of (contents h es) k of
      None \<Rightarrow> Inl ENOENT | Some (c, d) \<Rightarrow> if c then Inl EPERM else Inr d)"
    and "futils_hash_lookup_const (Some h) k = Some (case map_of (contents h es) k of
      None \<Rightarrow> Inl ENOENT | Some (c, d) \<Rightarrow> Inr d)"
proof -
  note l = lookup_entry_eq [OF assms, of k]
  have *: "futils_hash_lookup (Some h) k = Some (case map_of (contents h es) k of
      None \<Rightarrow> Inl ENOENT | Some (c, d) \<Rightarrow> if c then Inl EPERM else Inr d) \<and>
    futils_hash_lookup_const (Some h) k = Some (case map_of (contents h es) k of
      None \<Rightarrow> Inl ENOENT | Some (c, d) \<Rightarrow> Inr d)"
  proof (cases "find (\<lambda>a. key_of h a = k) es")
    case None
    then show ?thesis using l by (simp add: futils_hash_lookup_def futils_hash_lookup_const_def map_of_contents)
  next
    case (Some a)
    then obtain e where "ents h a = Some e" using find_in rep_entry [OF assms] by metis
    then show ?thesis using l Some
      by (simp add: futils_hash_lookup_def futils_hash_lookup_const_def map_of_contents value_of_def)
  qed
  show "futils_hash_lookup (Some h) k = Some (case map_of (contents h es) k of
      None \<Rightarrow> Inl ENOENT | Some (c, d) \<Rightarrow> if c then Inl EPERM else Inr d)"
    "futils_hash_lookup_const (Some h) k = Some (case map_of (contents h es) k of
      None \<Rightarrow> Inl ENOENT | Some (c, d) \<Rightarrow> Inr d)"
    using * by blast+
qed


subsection \<open>Insertion\<close>

lemma new_entry_simps [simp]:
  "buckets (new_entry a e h) = buckets h" "tab_size (new_entry a e h) = tab_size h"
  "entries (new_entry a e h) = entries h" "hfree (new_entry a e h) = hfree h"
  "hfree_calls (new_entry a e h) = hfree_calls h" "ents (new_entry a e h) = (ents h)(a \<mapsto> e)"
  "nodes (new_entry a e h) = (nodes h)(a \<mapsto> \<lparr>nxt = 0, prv = 0\<rparr>)"
  "bucket_arrays (new_entry a e h) = bucket_arrays h"
  by (simp_all add: new_entry_def)

text \<open>Everything but the memory of the entries, the ring and the buckets.\<close>

definition same_setup :: "hash \<Rightarrow> hash \<Rightarrow> bool" where
  "same_setup h h' \<longleftrightarrow> tab_size h' = tab_size h \<and> entries h' = entries h \<and> hfree h' = hfree h \<and>
     bucket_arrays h' = bucket_arrays h"

lemma bucket_of_new [simp]: "bucket_of (new_entry a e h) k = bucket_of h k"
  by (simp add: bucket_of_def)

lemma insert_entry_new:
  assumes rep: "hash_rep h cs es"
    and fresh: "a \<notin> dom (ents h)" "a \<notin> dom (nodes h)"
    and e: "entry_key e = k" and new: "k \<notin> key_of h ` set es"
  obtains h' where "futils_hash_insert_entry k a (new_entry a e h) = Some (Inr (), h')"
    "hash_rep h' (cs(bucket_of h k := a # cs (bucket_of h k))) (es @ [a])"
    "contents h' (es @ [a]) = contents h es @ [(k, is_const e, data e)]"
    "same_setup h h'" "hfree_calls h' = hfree_calls h"
    "dom (ents h') = insert a (dom (ents h))" "dom (nodes h') = insert a (dom (nodes h))"
proof -
  define i where "i = bucket_of h k"
  have i: "i < length (buckets h)" unfolding i_def by (rule bucket_of_less [OF rep])
  have r: "tab_size h \<noteq> 0" "length (buckets h) = unat (tab_size h)" "dlist (nodes h) (entries h) es"
    "set es = (\<Union>i < length (buckets h). set (cs i))" "inj_on (key_of h) (set es)" "0 < bucket_arrays h"
    and ch: "\<And>j. j < length (buckets h) \<Longrightarrow> chain (ents h) (buckets h ! j) (cs j) None"
    and bk: "\<And>j c. j < length (buckets h) \<Longrightarrow> c \<in> set (cs j) \<Longrightarrow> bucket_of h (key_of h c) = j"
    using rep by (auto simp: hash_rep_def)
  have sub: "set (cs j) \<subseteq> set es" if "j < length (buckets h)" for j using r(4) that by blast
  have notin: "a \<notin> set es" using fresh(1) rep_entry [OF rep] by blast
  let ?h1 = "new_entry a e h"
  have ch1: "chain (ents ?h1) (buckets h ! j) (cs j) None" if "j < length (buckets h)" for j
    using sub [OF that] notin by (intro chain_frame [OF ch [OF that]]) auto
  have keys1: "key_of ?h1 c = key_of h c" if "c \<in> set es" for c using that notin by (auto simp: key_of_def)
  have scan: "insert_scan k (buckets h ! i) ?h1 = Some False"
    using insert_scan_chain [OF ch1 [OF i], of k] sub [OF i] keys1 new by (auto simp: image_iff)
  have "dlist (nodes ?h1) (entries h) es"
    by (rule dlist_cong [OF r(3)]) (use dlist_dom [OF r(3)] fresh(2) in auto)
  then obtain ns where ns: "list_add_before (entries h) a (nodes ?h1) = Some ns" "dlist ns (entries h) (es @ [a])"
    "only_on (set (a # entries h # es)) (nodes ?h1) ns"
    using dlist_add_before [of "nodes ?h1" "entries h" es "[]" a] dlist_dom [OF r(3)] fresh(2) notin by auto
  define e' where "e' = e\<lparr>chain_next := buckets h ! i\<rparr>"
  define h' where "h' = ?h1\<lparr>ents := (ents h)(a \<mapsto> e'), buckets := (buckets h)[i := Some a], nodes := ns\<rparr>"
  have run: "futils_hash_insert_entry k a ?h1 = Some (Inr (), h')"
    using scan ns(1) i r(1)
    by (simp add: futils_hash_insert_entry_def bucket_index_eq get_bucket_def set_bucket_def set_chain_next_def
        h'_def e'_def flip: i_def)
  have kv: "key_of h' c = (if c = a then k else key_of h c)"
    "value_of h' c = (if c = a then (is_const e, data e) else value_of h c)" for c
    using e by (simp_all add: h'_def e'_def key_of_def value_of_def)
  have bk': "bucket_of h' x = bucket_of h x" for x by (simp add: bucket_of_def h'_def)
  have "hash_rep h' (cs(i := a # cs i)) (es @ [a])"
    unfolding hash_rep_def
  proof (intro conjI allI impI)
    fix j assume j: "j < length (buckets h')"
    then have j': "j < length (buckets h)" by (simp add: h'_def)
    have "chain (ents h') (buckets h ! j) (cs j) None"
      using sub [OF j'] notin by (intro chain_frame [OF ch [OF j']]) (auto simp: h'_def)
    then show "chain (ents h') (buckets h' ! j) ((cs(i := a # cs i)) j) None"
      using i j' by (cases "j = i") (simp_all add: h'_def e'_def)
    show "\<forall>c\<in>set ((cs(i := a # cs i)) j). bucket_of h' (key_of h' c) = j"
      using bk [OF j'] sub [OF j'] notin by (auto simp: kv i_def bk')
  next
    show "set (es @ [a]) = (\<Union>j<length (buckets h'). set ((cs(i := a # cs i)) j))"
      using i r(4) by (auto simp: h'_def split: if_splits)
    show "inj_on (key_of h') (set (es @ [a]))"
      using r(5) new notin by (auto simp: inj_on_def kv)
  qed (use r ns(2) in \<open>simp_all add: h'_def\<close>)
  moreover have "contents h' (es @ [a]) = contents h es @ [(k, is_const e, data e)]"
    using notin by (auto simp: contents_def kv)
  moreover have "dom (nodes h') = insert a (dom (nodes h))" using only_on_dom [OF ns(3)] by (simp add: h'_def)
  ultimately show thesis using that [OF run] by (simp add: i_def h'_def same_setup_def)
qed

lemma insert_entry_exists:
  assumes rep: "hash_rep h cs es" and fresh: "a \<notin> dom (ents h)" and old: "k \<in> key_of h ` set es"
  shows "futils_hash_insert_entry k a (new_entry a e h) = Some (Inl EEXIST, new_entry a e h)"
proof -
  define i where "i = bucket_of h k"
  have i: "i < length (buckets h)" unfolding i_def by (rule bucket_of_less [OF rep])
  have r: "tab_size h \<noteq> 0" "chain (ents h) (buckets h ! i) (cs i) None" "set (cs i) \<subseteq> set es"
    using rep i by (auto simp: hash_rep_def)
  have notin: "a \<notin> set es" using fresh rep_entry [OF rep] by blast
  have "chain (ents (new_entry a e h)) (buckets h ! i) (cs i) None"
    using r(3) notin by (intro chain_frame [OF r(2)]) auto
  then have "insert_scan k (buckets h ! i) (new_entry a e h) = Some (\<exists>c\<in>set (cs i). key_of (new_entry a e h) c = k)"
    by (rule insert_scan_chain)
  moreover have "\<exists>c\<in>set (cs i). key_of h c = k"
  proof -
    obtain c where "c \<in> set es" "key_of h c = k" using old by blast
    then show ?thesis using rep i by (auto simp: hash_rep_def i_def)
  qed
  then have "\<exists>c\<in>set (cs i). key_of (new_entry a e h) c = k"
    using r(3) notin by (auto simp: key_of_def)
  ultimately show ?thesis using i r(1)
    by (simp add: futils_hash_insert_entry_def bucket_index_eq get_bucket_def flip: i_def)
qed

lemma free_new_entry:
  "a \<notin> dom (ents h) \<Longrightarrow> a \<notin> dom (nodes h) \<Longrightarrow> free_entry a (new_entry a e h) = Some h"
  by (auto simp: free_entry_def new_entry_def fun_upd_idem)

subsection \<open>Removal of one entry\<close>

text \<open>Unlinking, releasing the data and freeing an entry of the ring.\<close>

lemma drop_entry:
  assumes "dlist (nodes h) (entries h) (xs @ a # ys)" "ents h a = Some e"
  obtains ns h1 h2 where "unlink_node a h = Some h1" "call_hfree a h1 = Some h2"
    "free_entry a h2 = Some (h\<lparr>ents := (ents h)(a := None), nodes := ns,
      hfree_calls := hfree_calls h @ (if hfree h then [data e] else [])\<rparr>)"
    "dlist ns (entries h) (xs @ ys)" "dom ns = dom (nodes h) - {a}"
proof -
  obtain n1 where n1: "list_del a (nodes h) = Some n1" "dlist n1 (entries h) (xs @ ys)"
    "only_on (set (a # entries h # xs @ ys)) (nodes h) n1"
    by (rule dlist_del [OF assms(1)])
  have nd: "a \<notin> set (entries h # xs @ ys)" using assms(1) by (auto simp: dlist_def)
  have 1: "unlink_node a h = Some (h\<lparr>nodes := n1\<rparr>)" using n1(1) by (simp add: unlink_node_def)
  have 2: "call_hfree a (h\<lparr>nodes := n1\<rparr>) = Some (h\<lparr>nodes := n1,
      hfree_calls := hfree_calls h @ (if hfree h then [data e] else [])\<rparr>)"
    using assms(2) by (simp add: call_hfree_def)
  have 3: "dlist (n1(a := None)) (entries h) (xs @ ys)"
    by (rule dlist_cong [OF n1(2)]) (use nd in auto)
  show thesis
    by (rule that [OF 1 2 _ 3]) (use assms(2) only_on_dom [OF n1(3)] in \<open>auto simp: free_entry_def\<close>)
qed

text \<open>The entry is taken out of its chain by redirecting its predecessor, or the bucket.\<close>

lemma remove_present:
  assumes rep: "hash_rep h cs es" and a: "a \<in> set es" "key_of h a = k"
  obtains h' cs' where "futils_hash_remove (Some h) k = Some (Inr (), Some h')"
    "hash_rep h' cs' (filter (\<lambda>c. key_of h c \<noteq> k) es)"
    "contents h' (filter (\<lambda>c. key_of h c \<noteq> k) es) = filter (\<lambda>(k', v). k' \<noteq> k) (contents h es)"
    "same_setup h h'" "hfree_calls h' = hfree_calls h @ (if hfree h then [data (the (ents h a))] else [])"
    "dom (ents h') = dom (ents h) - {a}" "dom (nodes h') = dom (nodes h) - {a}"
proof -
  define i where "i = bucket_of h k"
  have i: "i < length (buckets h)" unfolding i_def by (rule bucket_of_less [OF rep])
  have r: "tab_size h \<noteq> 0" "length (buckets h) = unat (tab_size h)" "dlist (nodes h) (entries h) es"
    "set es = (\<Union>i < length (buckets h). set (cs i))" "inj_on (key_of h) (set es)" "0 < bucket_arrays h"
    and ch: "\<And>j. j < length (buckets h) \<Longrightarrow> chain (ents h) (buckets h ! j) (cs j) None"
    and bk: "\<And>j c. j < length (buckets h) \<Longrightarrow> c \<in> set (cs j) \<Longrightarrow> bucket_of h (key_of h c) = j"
    using rep by (auto simp: hash_rep_def)
  have same: "c = a \<longleftrightarrow> key_of h c = k" if "c \<in> set es" for c
    using r(5) a that by (auto simp: inj_on_def)
  obtain e where e: "ents h a = Some e" using rep_entry [OF rep a(1)] by blast
  have "a \<in> set (cs i)" using r(4) a bk by (auto simp: i_def)
  then obtain us vs where cs: "cs i = us @ a # vs" by (meson split_list)
  have d: "distinct (us @ a # vs)" using chain_distinct [OF ch [OF i]] cs by simp
  have sub: "set (cs j) \<subseteq> set es" if "j < length (buckets h)" for j using r(4) that by blast
  have "c \<noteq> a" "c \<in> set es" if "c \<in> set us" for c using that d sub [OF i] cs by auto
  then have notin_us: "k \<notin> key_of h ` set us" using same by blast
  define prev where "prev = (if us = [] then None else Some (last us))"
  have scan: "remove_scan k None (buckets h ! i) h = Some (prev, Some a)"
    unfolding prev_def using ch [OF i] cs a(2) notin_us by (intro remove_scan_present) simp_all
  obtain xs ys where es: "es = xs @ a # ys" using a(1) by (meson split_list)
  define fes where "fes = filter (\<lambda>c. key_of h c \<noteq> k) es"
  have fes: "fes = xs @ ys" "set fes = set es - {a}"
  proof -
    have "distinct es" using r(3) by (simp add: dlist_def)
    moreover have "fes = filter (\<lambda>c. c \<noteq> a) es" unfolding fes_def using same by (intro filter_cong) auto
    moreover have "filter (\<lambda>c. c \<noteq> a) zs = zs" if "a \<notin> set zs" for zs using that by (induction zs) auto
    ultimately show "fes = xs @ ys" "set fes = set es - {a}" using es by auto
  qed
  define h1 where "h1 = (if us = [] then h\<lparr>buckets := (buckets h)[i := chain_next e]\<rparr>
    else h\<lparr>ents := (ents h)(last us \<mapsto> the (ents h (last us))\<lparr>chain_next := chain_next e\<rparr>)\<rparr>)"
  have cut: "(case prev of
      None \<Rightarrow> set_bucket i (chain_next e) h | Some p \<Rightarrow> set_chain_next p (chain_next e) h) = Some h1"
  proof (cases us rule: rev_cases)
    case Nil
    then show ?thesis using i by (simp add: set_bucket_def h1_def prev_def)
  next
    case (snoc us' l)
    then have "l \<in> dom (ents h)" using chain_dom [OF ch [OF i]] cs by auto
    then show ?thesis using snoc by (auto simp: set_chain_next_def h1_def prev_def)
  qed
  have h1: "nodes h1 = nodes h" "entries h1 = entries h" "tab_size h1 = tab_size h" "hfree h1 = hfree h"
    "hfree_calls h1 = hfree_calls h" "length (buckets h1) = length (buckets h)" "bucket_arrays h1 = bucket_arrays h"
    by (simp_all add: h1_def)
  have ents1: "ents h1 c = (if us \<noteq> [] \<and> c = last us then
      Some (the (ents h c)\<lparr>chain_next := chain_next e\<rparr>) else ents h c)" for c
    by (auto simp: h1_def)
  have "us \<noteq> [] \<Longrightarrow> last us \<in> dom (ents h) \<and> last us \<noteq> a"
    using chain_dom [OF ch [OF i]] cs d last_in_set [of us] by (metis Un_iff distinct_append
      disjoint_insert(2) list.simps(15) set_append subsetD)
  then have dom1: "dom (ents h1) = dom (ents h)" and e1: "ents h1 a = Some e"
    using e by (auto simp: ents1 split: if_splits)
  have kv1: "key_of h1 c = key_of h c" "value_of h1 c = value_of h c" if "c \<in> dom (ents h)" for c
    using that by (auto simp: key_of_def value_of_def ents1)
  have chain1: "chain (ents h1) (buckets h1 ! j) ((cs(i := us @ vs)) j) None" if j: "j < length (buckets h)" for j
  proof (cases "j = i")
    case False
    have "us \<noteq> [] \<Longrightarrow> last us \<notin> set (cs j)"
      using bk [OF i, of "last us"] bk [OF j, of "last us"] cs False by auto
    then have "chain (ents h1) (buckets h ! j) (cs j) None"
      by (intro chain_frame [OF ch [OF j]]) (auto simp: ents1)
    moreover have "buckets h1 ! j = buckets h ! j" using False by (simp add: h1_def)
    ultimately show ?thesis using False by simp
  next
    case True
    show ?thesis
    proof (cases us rule: rev_cases)
      case Nil
      then show ?thesis using True ch [OF i] cs e i by (simp add: h1_def)
    next
      case (snoc us' l)
      then obtain el where "ents h l = Some el" using chain_dom [OF ch [OF i]] cs by auto
      then show ?thesis using chain_skip [of "ents h" "buckets h ! i" us' l a vs e el] ch [OF i] cs snoc e True
        by (simp add: h1_def)
    qed
  qed
  have "dlist (nodes h1) (entries h1) (xs @ a # ys)" using r(3) es by (simp add: h1)
  then obtain ns g1 g2 where drop: "unlink_node a h1 = Some g1" "call_hfree a g1 = Some g2"
    "free_entry a g2 = Some (h1\<lparr>ents := (ents h1)(a := None), nodes := ns,
      hfree_calls := hfree_calls h1 @ (if hfree h1 then [data e] else [])\<rparr>)"
    "dlist ns (entries h1) (xs @ ys)" "dom ns = dom (nodes h1) - {a}"
    by (rule drop_entry [OF _ e1])
  define h' where "h' = h1\<lparr>ents := (ents h1)(a := None), nodes := ns,
      hfree_calls := hfree_calls h1 @ (if hfree h1 then [data e] else [])\<rparr>"
  have run: "futils_hash_remove (Some h) k = Some (Inr (), Some h')"
    using i r(1) scan e cut drop(1-3)
    by (simp add: futils_hash_remove_def bucket_index_eq get_bucket_def h'_def flip: i_def)
  have kv: "key_of h' c = key_of h c" "value_of h' c = value_of h c" if "c \<in> set fes" for c
  proof -
    have "c \<noteq> a" "c \<in> dom (ents h)" using that fes(2) rep_entry [OF rep] by auto
    then show "key_of h' c = key_of h c" "value_of h' c = value_of h c"
      using kv1 [of c] by (simp_all add: h'_def key_of_def value_of_def)
  qed
  have sub': "set ((cs(i := us @ vs)) j) = set (cs j) - {a}" if j: "j < length (buckets h)" for j
  proof (cases "j = i")
    case True
    then show ?thesis using cs d by auto
  next
    case False
    then have "a \<notin> set (cs j)" using bk [OF j, of a] a(2) by (auto simp: i_def)
    then show ?thesis using False by simp
  qed
  have "hash_rep h' (cs(i := us @ vs)) fes"
    unfolding hash_rep_def
  proof (intro conjI allI impI)
    fix j assume "j < length (buckets h')"
    then have j: "j < length (buckets h)" by (simp add: h'_def h1)
    show "chain (ents h') (buckets h' ! j) ((cs(i := us @ vs)) j) None"
      using chain_frame [OF chain1 [OF j], of "ents h'"] sub' [OF j] by (auto simp: h'_def)
    show "\<forall>c\<in>set ((cs(i := us @ vs)) j). bucket_of h' (key_of h' c) = j"
    proof
      fix c assume "c \<in> set ((cs(i := us @ vs)) j)"
      then have "c \<in> set (cs j)" "c \<in> set fes" using sub' [OF j] sub [OF j] fes(2) by auto
      then show "bucket_of h' (key_of h' c) = j"
        using bk [OF j] kv(1) by (simp add: bucket_of_def h'_def h1)
    qed
  next
    show "set fes = (\<Union>j<length (buckets h'). set ((cs(i := us @ vs)) j))"
      using r(4) fes(2) sub' by (simp add: h'_def h1)
    show "inj_on (key_of h') (set fes)"
      using r(5) fes(2) kv(1) by (simp add: inj_on_def)
  qed (use r drop(4) fes in \<open>simp_all add: h'_def h1\<close>)
  moreover have "contents h' fes = filter (\<lambda>(k', v). k' \<noteq> k) (contents h es)"
    using kv by (simp add: contents_def filter_map comp_def fes_def [symmetric] cong: map_cong)
  ultimately show thesis
    using that [OF run, of "cs(i := us @ vs)"] dom1 drop(5) e by (simp add: fes_def h'_def same_setup_def h1)
qed

lemma remove_absent:
  assumes rep: "hash_rep h cs es" and a: "k \<notin> key_of h ` set es"
  shows "futils_hash_remove (Some h) k = Some (Inl ENOENT, Some h)"
proof -
  define i where "i = bucket_of h k"
  have i: "i < length (buckets h)" unfolding i_def by (rule bucket_of_less [OF rep])
  have r: "tab_size h \<noteq> 0" "chain (ents h) (buckets h ! i) (cs i) None" "set (cs i) \<subseteq> set es"
    using rep i by (auto simp: hash_rep_def)
  have "k \<notin> key_of h ` set (cs i)" using a r(3) by blast
  then obtain l where "remove_scan k None (buckets h ! i) h = Some (l, None)"
    using remove_scan_absent [OF r(2)] by blast
  then show ?thesis using i r(1) by (simp add: futils_hash_remove_def bucket_index_eq get_bucket_def flip: i_def)
qed

subsection \<open>Removal of all entries\<close>

lemma filter_notin_Cons: "distinct xs \<Longrightarrow> xs = us @ a # vs \<Longrightarrow> filter (\<lambda>c. c \<notin> insert a A) xs = filter (\<lambda>c. c \<notin> A) (us @ vs)"
  by (auto intro!: arg_cong2 [where f = append] filter_cong)

text \<open>The table after the entries \<open>as\<close> are released, in this order; \<open>ns\<close> is the new node store.\<close>

definition released :: "addr list \<Rightarrow> store \<Rightarrow> hash \<Rightarrow> hash" where
  "released as ns h = h\<lparr>ents := (ents h) |` (- set as), nodes := ns,
     hfree_calls := hfree_calls h @ (if hfree h then map (\<lambda>a. data (the (ents h a))) as else [])\<rparr>"

lemma released_Nil: "released [] (nodes h) h = h"
  by (simp add: released_def restrict_map_def)

lemma released_append:
  assumes "distinct (as @ bs)"
  shows "released bs ns' (released as ns h) = released (as @ bs) ns' h"
proof -
  have "ents h |` (- set as) |` (- set bs) = ents h |` (- set (as @ bs))"
    by (auto simp: restrict_map_def fun_eq_iff)
  moreover have "map (\<lambda>a. data (the ((ents h |` (- set as)) a))) bs = map (\<lambda>a. data (the (ents h a))) bs"
    using assms by (auto simp: restrict_map_def)
  ultimately show ?thesis by (simp add: released_def)
qed

lemma released_buckets: "(released as ns (h\<lparr>buckets := b\<rparr>))\<lparr>buckets := bs\<rparr> = (released as ns h)\<lparr>buckets := bs\<rparr>"
  by (simp add: released_def)

lemma released_simps [simp]:
  "buckets (released as ns h) = buckets h" "tab_size (released as ns h) = tab_size h"
  "entries (released as ns h) = entries h" "hfree (released as ns h) = hfree h"
  "ents (released as ns h) = (ents h) |` (- set as)" "nodes (released as ns h) = ns"
  "bucket_arrays (released as ns h) = bucket_arrays h"
  by (simp_all add: released_def)

lemma remove_chain_run:
  assumes "chain (ents h) p as None" "set as \<subseteq> set es" "dlist (nodes h) (entries h) es"
  shows "\<exists>ns. remove_chain p h = Some (released as ns h) \<and>
    dlist ns (entries h) (filter (\<lambda>c. c \<notin> set as) es) \<and> dom ns = dom (nodes h) - set as"
  using assms
proof (induction as arbitrary: p h es)
  case Nil
  then show ?case by (subst remove_chain.simps) (auto simp: released_Nil intro!: exI [of _ "nodes h"])
next
  case (Cons a as)
  then obtain e where e: "p = Some a" "ents h a = Some e" "chain (ents h) (chain_next e) as None" by auto
  obtain us vs where es: "es = us @ a # vs" using Cons.prems(2) by (auto dest: split_list)
  have d: "distinct es" "distinct (a # as)"
    using Cons.prems(3) chain_distinct [OF Cons.prems(1)] by (simp_all add: dlist_def)
  obtain ns g1 g2 where drop: "unlink_node a h = Some g1" "call_hfree a g1 = Some g2"
    "free_entry a g2 = Some (h\<lparr>ents := (ents h)(a := None), nodes := ns,
      hfree_calls := hfree_calls h @ (if hfree h then [data e] else [])\<rparr>)"
    "dlist ns (entries h) (us @ vs)" "dom ns = dom (nodes h) - {a}"
    using drop_entry [OF _ e(2)] Cons.prems(3) es by metis
  have g: "h\<lparr>ents := (ents h)(a := None), nodes := ns,
      hfree_calls := hfree_calls h @ (if hfree h then [data e] else [])\<rparr> = released [a] ns h"
    using e(2) by (auto simp: released_def restrict_map_def fun_eq_iff)
  have "chain (ents (released [a] ns h)) (chain_next e) as None"
    using d(2) by (intro chain_frame [OF e(3)]) (auto simp: restrict_map_def)
  moreover have "set as \<subseteq> set (us @ vs)" using Cons.prems(2) es d by auto
  ultimately obtain ns' where 1: "remove_chain (chain_next e) (released [a] ns h) =
      Some (released as ns' (released [a] ns h))"
    "dlist ns' (entries h) (filter (\<lambda>c. c \<notin> set as) (us @ vs))" "dom ns' = dom ns - set as"
    using Cons.IH [of "released [a] ns h" "chain_next e" "us @ vs"] drop(4) by auto
  have "remove_chain p h = Some (released (a # as) ns' h)"
    using e drop(1-3) 1(1) released_append [of "[a]" as ns' ns h] d(2)
    by (subst remove_chain.simps) (simp add: g)
  moreover have "filter (\<lambda>c. c \<notin> set (a # as)) es = filter (\<lambda>c. c \<notin> set as) (us @ vs)"
    using filter_notin_Cons [OF d(1) es, of "set as"] by simp
  ultimately show ?case using 1(2,3) drop(5) by (intro exI [of _ ns'] conjI) auto
qed

text \<open>Emptying one bucket after the other.\<close>

lemma remove_buckets_run:
  assumes "distinct is" "\<And>i. i \<in> set is \<Longrightarrow> i < length (buckets h) \<and> chain (ents h) (buckets h ! i) (cs i) None"
    and "distinct (concat (map cs is))" "set (concat (map cs is)) \<subseteq> set es" "dlist (nodes h) (entries h) es"
  shows "\<exists>ns bs. remove_buckets is h = Some ((released (concat (map cs is)) ns h)\<lparr>buckets := bs\<rparr>) \<and>
    dlist ns (entries h) (filter (\<lambda>c. c \<notin> set (concat (map cs is))) es) \<and>
    dom ns = dom (nodes h) - set (concat (map cs is)) \<and> length bs = length (buckets h) \<and>
    (\<forall>i < length bs. bs ! i = (if i \<in> set is then None else buckets h ! i))"
  using assms
proof (induction "is" arbitrary: h es)
  case Nil
  then show ?case by (auto simp: released_Nil intro!: exI [of _ "nodes h"] exI [of _ "buckets h"])
next
  case (Cons i "is")
  let ?rest = "concat (map cs is)"
  have i: "i < length (buckets h)" "chain (ents h) (buckets h ! i) (cs i) None" using Cons.prems(2) [of i] by auto
  obtain ns where 1: "remove_chain (buckets h ! i) h = Some (released (cs i) ns h)"
    "dlist ns (entries h) (filter (\<lambda>c. c \<notin> set (cs i)) es)" "dom ns = dom (nodes h) - set (cs i)"
    using remove_chain_run [OF i(2) _ Cons.prems(5)] Cons.prems(4) by auto
  define g where "g = (released (cs i) ns h)\<lparr>buckets := (buckets h)[i := None]\<rparr>"
  have g: "buckets g = (buckets h)[i := None]" "ents g = (ents h) |` (- set (cs i))" "nodes g = ns"
    "entries g = entries h" by (simp_all add: g_def)
  have "\<exists>ns' bs. remove_buckets is g = Some ((released ?rest ns' g)\<lparr>buckets := bs\<rparr>) \<and>
    dlist ns' (entries g) (filter (\<lambda>c. c \<notin> set ?rest) (filter (\<lambda>c. c \<notin> set (cs i)) es)) \<and>
    dom ns' = dom (nodes g) - set ?rest \<and> length bs = length (buckets g) \<and>
    (\<forall>j < length bs. bs ! j = (if j \<in> set is then None else buckets g ! j))"
  proof (rule Cons.IH)
    fix j assume j: "j \<in> set is"
    then have "j \<noteq> i" "set (cs j) \<inter> set (cs i) = {}" using Cons.prems(1,3) by auto
    then show "j < length (buckets g) \<and> chain (ents g) (buckets g ! j) (cs j) None"
      using Cons.prems(2) [of j] j by (auto simp: g restrict_map_def elim!: chain_frame)
  qed (use Cons.prems 1(2) in \<open>auto simp: g\<close>)
  then obtain ns' bs where 2: "remove_buckets is g = Some ((released ?rest ns' g)\<lparr>buckets := bs\<rparr>)"
    "dlist ns' (entries h) (filter (\<lambda>c. c \<notin> set ?rest) (filter (\<lambda>c. c \<notin> set (cs i)) es))"
    "dom ns' = dom ns - set ?rest" "length bs = length (buckets h)"
    "\<forall>j < length bs. bs ! j = (if j \<in> set is then None else (buckets h)[i := None] ! j)"
    by (auto simp: g)
  have "remove_buckets (i # is) h = remove_buckets is g"
    using i(1) 1(1) by (simp add: get_bucket_def set_bucket_def g_def)
  moreover have "(released ?rest ns' g)\<lparr>buckets := bs\<rparr> = (released (cs i @ ?rest) ns' h)\<lparr>buckets := bs\<rparr>"
    using released_append [of "cs i" ?rest ns' ns h] Cons.prems(3) by (simp add: g_def released_buckets)
  moreover have "filter (\<lambda>c. c \<notin> set ?rest) (filter (\<lambda>c. c \<notin> set (cs i)) es) =
      filter (\<lambda>c. c \<notin> set (cs i @ ?rest)) es" by (auto intro: filter_cong)
  ultimately show ?case
    using 2 1(3) i(1) by (intro exI [of _ ns'] exI [of _ bs]) (auto simp: nth_list_update)
qed


subsection \<open>Initialisation and destruction\<close>

lemma prime_index_bounds:
  "i < length futils_hash_prime_tab \<Longrightarrow>
   i \<le> prime_index sz i \<and> prime_index sz i < length futils_hash_prime_tab \<and>
   (\<forall>j. i \<le> j \<longrightarrow> j < prime_index sz i \<longrightarrow> unat (futils_hash_prime_tab ! j) \<le> sz) \<and>
   (prime_index sz i + 1 < length futils_hash_prime_tab \<longrightarrow> sz < unat (futils_hash_prime_tab ! prime_index sz i))"
proof (induction sz i rule: prime_index.induct)
  case (1 sz i)
  show ?case
  proof (cases "unat (futils_hash_prime_tab ! i) \<le> sz \<and> i + 1 < length futils_hash_prime_tab")
    case True
    then have e: "prime_index sz i = prime_index sz (i + 1)" by (subst prime_index.simps) simp
    have "\<And>j. i \<le> j \<Longrightarrow> j = i \<or> i + 1 \<le> j" by auto
    then show ?thesis using 1 True unfolding e by auto
  next
    case False
    then have e: "prime_index sz i = i" by (subst prime_index.simps) (rule if_not_P)
    then show ?thesis using False "1.prems" unfolding e by auto
  qed
qed

lemma length_prime_tab: "length futils_hash_prime_tab = 32"
  by (simp add: futils_hash_prime_tab_def)

lemma prime_tab_pos: "i < 32 \<Longrightarrow> futils_hash_prime_tab ! i \<noteq> 0"
proof -
  have "\<forall>p \<in> set futils_hash_prime_tab. p \<noteq> 0" by (simp add: futils_hash_prime_tab_def)
  then show "i < 32 \<Longrightarrow> ?thesis" using length_prime_tab nth_mem by force
qed

lemma hash_init_rep:
  obtains h' where "futils_hash_init True (Some h) sz cb = Some (Inr (), Some h')"
    "tab_size h' = futils_hash_prime_tab ! prime_index sz 0" "hash_rep h' (\<lambda>_. []) []" "hfree h' = cb"
    "ents h' = ents h" "entries h' = entries h" "hfree_calls h' = hfree_calls h"
    "dom (nodes h') = insert (entries h) (dom (nodes h))"
proof -
  let ?n = "(nodes h)(entries h \<mapsto> \<lparr>nxt = 0, prv = 0\<rparr>)"
  obtain ns where ns: "list_init (entries h) ?n = Some ns" "dlist ns (entries h) []" "only_on {entries h} ?n ns"
    by (rule dlist_init [of "entries h" ?n]) auto
  let ?p = "futils_hash_prime_tab ! prime_index sz 0"
  have p: "?p \<noteq> 0" using prime_index_bounds [of 0 sz] prime_tab_pos by (simp add: length_prime_tab)
  define h' where "h' = h\<lparr>buckets := replicate (unat ?p) None, tab_size := ?p,
    bucket_arrays := bucket_arrays h + 1, hfree := cb, nodes := ns\<rparr>"
  have "futils_hash_init True (Some h) sz cb = Some (Inr (), Some h')"
    using ns(1) by (simp add: futils_hash_init_def Let_def h'_def)
  moreover have "hash_rep h' (\<lambda>_. []) []" using p ns(2) by (simp add: hash_rep_def h'_def)
  moreover have "dom ns = insert (entries h) (dom (nodes h))" using only_on_dom [OF ns(3)] by simp
  ultimately show thesis using that [of h'] by (simp add: h'_def)
qed

lemma bucket_chains_distinct:
  assumes "hash_rep h cs es"
  shows "distinct (concat (map cs [0..<length (buckets h)]))"
    and "set (concat (map cs [0..<length (buckets h)])) = set es"
proof -
  have ch: "\<And>j. j < length (buckets h) \<Longrightarrow> distinct (cs j)"
    and bk: "\<And>j c. j < length (buckets h) \<Longrightarrow> c \<in> set (cs j) \<Longrightarrow> bucket_of h (key_of h c) = j"
    and es: "set es = (\<Union>i < length (buckets h). set (cs i))"
    using assms chain_distinct by (auto simp: hash_rep_def)
  have "n \<le> length (buckets h) \<Longrightarrow> distinct (concat (map cs [0..<n]))" for n
  proof (induction n)
    case (Suc n)
    have "c \<notin> set (cs n)" if "j < n" "c \<in> set (cs j)" for c j
      using bk [of j c] bk [of n c] that Suc.prems by auto
    then have "set (cs n) \<inter> set (concat (map cs [0..<n])) = {}" by fastforce
    then show ?case using Suc ch [of n] by auto
  qed simp
  then show "distinct (concat (map cs [0..<length (buckets h)]))" by simp
  show "set (concat (map cs [0..<length (buckets h)])) = set es" using es by (auto simp: atLeast0LessThan)
qed

lemma remove_all_rep:
  assumes "hash_rep h cs es"
  obtains h' as where "futils_hash_remove_all (Some h) = Some (Inr (), Some h')"
    "hash_rep h' (\<lambda>_. []) []" "same_setup h h'" "distinct as" "set as = set es"
    "hfree_calls h' = hfree_calls h @ (if hfree h then map (\<lambda>a. data (the (ents h a))) as else [])"
    "ents h' = (ents h) |` (- set es)" "dom (nodes h') = dom (nodes h) - set es"
proof -
  let ?is = "[0..<length (buckets h)]"
  define as where "as = concat (map cs ?is)"
  note d = bucket_chains_distinct [OF assms]
  have r: "tab_size h \<noteq> 0" "length (buckets h) = unat (tab_size h)" "dlist (nodes h) (entries h) es" "0 < bucket_arrays h"
    and ch: "\<And>j. j \<in> set ?is \<Longrightarrow> j < length (buckets h) \<and> chain (ents h) (buckets h ! j) (cs j) None"
    using assms by (auto simp: hash_rep_def)
  have "\<exists>ns bs. remove_buckets ?is h = Some ((released as ns h)\<lparr>buckets := bs\<rparr>) \<and>
    dlist ns (entries h) (filter (\<lambda>c. c \<notin> set as) es) \<and> dom ns = dom (nodes h) - set as \<and>
    length bs = length (buckets h) \<and> (\<forall>i < length bs. bs ! i = (if i \<in> set ?is then None else buckets h ! i))"
    unfolding as_def using d by (intro remove_buckets_run) (use ch r(3) in auto)
  then obtain ns bs where 1: "remove_buckets ?is h = Some ((released as ns h)\<lparr>buckets := bs\<rparr>)"
    "dlist ns (entries h) (filter (\<lambda>c. c \<notin> set as) es)" "dom ns = dom (nodes h) - set as"
    "length bs = length (buckets h)" "\<forall>i < length bs. bs ! i = (if i \<in> set ?is then None else buckets h ! i)"
    by blast
  define h' where "h' = (released as ns h)\<lparr>buckets := bs\<rparr>"
  have as: "set as = set es" "distinct as" using d by (simp_all add: as_def)
  then have "dlist ns (entries h) []" using 1(2) by simp
  then have "hash_rep h' (\<lambda>_. []) []" using 1(4,5) r by (simp add: hash_rep_def h'_def)
  moreover have "futils_hash_remove_all (Some h) = Some (Inr (), Some h')"
    using 1(1) r(2) by (simp add: futils_hash_remove_all_def h'_def)
  ultimately show thesis using that [of h' as] as 1(3) by (simp add: h'_def same_setup_def) (simp add: released_def)
qed

subsection \<open>The dictionary contract\<close>

text \<open>
  \<open>alloc\<close> is the heap allocator: any function that, while memory is finite, returns an address
  that is not in use.
\<close>

definition alloc_fresh :: "(hash \<Rightarrow> addr) \<Rightarrow> bool" where
  "alloc_fresh alloc \<longleftrightarrow> (\<forall>h. finite (dom (ents h)) \<longrightarrow> finite (dom (nodes h)) \<longrightarrow>
     alloc h \<notin> dom (ents h) \<and> alloc h \<notin> dom (nodes h))"

definition hash_dict :: "(hash \<Rightarrow> addr) \<Rightarrow> hash \<Rightarrow> (u32 \<times> bool \<times> nat) list \<Rightarrow> bool" where
  "hash_dict alloc h d \<longleftrightarrow> alloc_fresh alloc \<and> finite (dom (ents h)) \<and> finite (dom (nodes h)) \<and>
     (\<exists>cs es. hash_rep h cs es \<and> d = contents h es)"

fun hash_out :: "unit res \<times> hash option \<Rightarrow> ((bool \<times> nat) dict_out \<times> hash) option" where
  "hash_out (Inr (), Some h) = Some (Done, h)"
| "hash_out (Inl EEXIST, Some h) = Some (Exists, h)"
| "hash_out (Inl ENOENT, Some h) = Some (Missing, h)"
| "hash_out _ = None"

definition hash_ins :: "(hash \<Rightarrow> addr) \<Rightarrow> u32 \<Rightarrow> bool \<times> nat \<Rightarrow> hash \<Rightarrow> ((bool \<times> nat) dict_out \<times> hash) option" where
  "hash_ins alloc k v h =
     (if fst v then futils_hash_insert_const (Some (alloc h)) (Some h) k (snd v)
      else futils_hash_insert (Some (alloc h)) (Some h) k (snd v)) \<bind> hash_out"

definition hash_del :: "u32 \<Rightarrow> hash \<Rightarrow> ((bool \<times> nat) dict_out \<times> hash) option" where
  "hash_del k h = futils_hash_remove (Some h) k \<bind> hash_out"

text \<open>Both lookups: the constness of the entry shows in the refusal of the first.\<close>

definition hash_find :: "u32 \<Rightarrow> hash \<Rightarrow> (bool \<times> nat) dict_out option" where
  "hash_find k h = do {
     r \<leftarrow> futils_hash_lookup (Some h) k;
     c \<leftarrow> futils_hash_lookup_const (Some h) k;
     (case (r, c) of
        (Inr d, Inr d') \<Rightarrow> if d = d' then Some (Found (False, d)) else None
      | (Inl EPERM, Inr d) \<Rightarrow> Some (Found (True, d))
      | (Inl ENOENT, Inl ENOENT) \<Rightarrow> Some Missing
      | _ \<Rightarrow> None) }"

lemma map_of_contents_None: "map_of (contents h es) k = None \<longleftrightarrow> k \<notin> key_of h ` set es"
  by (simp add: map_of_contents find_none)

lemma insert_exists:
  assumes "hash_rep h cs es" "a \<notin> dom (ents h)" "a \<notin> dom (nodes h)" "k \<in> key_of h ` set es"
  shows "futils_hash_insert (Some a) (Some h) k d = Some (Inl EEXIST, Some h)"
    and "futils_hash_insert_const (Some a) (Some h) k d = Some (Inl EEXIST, Some h)"
  using insert_entry_exists [OF assms(1,2,4)] free_new_entry [OF assms(2,3)]
  by (simp_all add: futils_hash_insert_def futils_hash_insert_const_def)

lemma insert_new:
  assumes "hash_rep h cs es" "a \<notin> dom (ents h)" "a \<notin> dom (nodes h)" "k \<notin> key_of h ` set es"
  obtains h' cs' where "(if c then futils_hash_insert_const (Some a) (Some h) k d
      else futils_hash_insert (Some a) (Some h) k d) = Some (Inr (), Some h')"
    "hash_rep h' cs' (es @ [a])" "contents h' (es @ [a]) = contents h es @ [(k, c, d)]"
    "same_setup h h'" "hfree_calls h' = hfree_calls h"
    "dom (ents h') = insert a (dom (ents h))" "dom (nodes h') = insert a (dom (nodes h))"
proof -
  obtain h' where 1: "futils_hash_insert_entry k a (new_entry a \<lparr>is_const = c, data = d, entry_key = k, chain_next = None\<rparr> h)
      = Some (Inr (), h')"
    "hash_rep h' (cs(bucket_of h k := a # cs (bucket_of h k))) (es @ [a])"
    "contents h' (es @ [a]) = contents h es @ [(k, c, d)]"
    "same_setup h h'" "hfree_calls h' = hfree_calls h"
    "dom (ents h') = insert a (dom (ents h))" "dom (nodes h') = insert a (dom (nodes h))"
    using insert_entry_new [OF assms(1-3) _ assms(4),
      of "\<lparr>is_const = c, data = d, entry_key = k, chain_next = None\<rparr>"] by auto
  have "(if c then futils_hash_insert_const (Some a) (Some h) k d
      else futils_hash_insert (Some a) (Some h) k d) = Some (Inr (), Some h')"
    using 1(1) by (cases c) (simp_all add: futils_hash_insert_def futils_hash_insert_const_def)
  then show thesis by (rule that [OF _ 1(2-)])
qed

interpretation hash_dict: dict "hash_dict alloc" "hash_ins alloc" hash_del hash_find
  for alloc
proof
  fix h :: hash and d k and v :: "bool \<times> nat"
  assume "hash_dict alloc h d"
  then obtain cs es where r: "hash_rep h cs es" "d = contents h es" "alloc_fresh alloc"
    "finite (dom (ents h))" "finite (dom (nodes h))"
    by (auto simp: hash_dict_def)
  then have fresh: "alloc h \<notin> dom (ents h)" "alloc h \<notin> dom (nodes h)" by (auto simp: alloc_fresh_def)
  show "hash_find k h = Some (case map_of d k of None \<Rightarrow> Missing | Some v \<Rightarrow> Found v)"
    using lookup_eq [OF r(1), of k] r(2) by (auto simp: hash_find_def split: option.split)
  {
    assume "map_of d k = None"
    then have new: "k \<notin> key_of h ` set es" by (simp add: r(2) map_of_contents_None)
    then show "\<exists>h'. hash_del k h = Some (Missing, h') \<and> hash_dict alloc h' d"
      using remove_absent [OF r(1)] r by (auto simp: hash_del_def hash_dict_def)
    obtain h' cs' where i: "(if fst v then futils_hash_insert_const (Some (alloc h)) (Some h) k (snd v)
      else futils_hash_insert (Some (alloc h)) (Some h) k (snd v)) = Some (Inr (), Some h')"
      "hash_rep h' cs' (es @ [alloc h])" "contents h' (es @ [alloc h]) = contents h es @ [(k, fst v, snd v)]"
      "dom (ents h') = insert (alloc h) (dom (ents h))" "dom (nodes h') = insert (alloc h) (dom (nodes h))"
      by (rule insert_new [OF r(1) fresh new])
    have "hash_dict alloc h' (d @ [(k, v)])"
      unfolding hash_dict_def using i(2-) r(2-5) by (metis finite_insert prod.collapse)
    then show "\<exists>h'. hash_ins alloc k v h = Some (Done, h') \<and> hash_dict alloc h' (d @ [(k, v)])"
      using i(1) by (simp add: hash_ins_def)
  }
  assume "map_of d k \<noteq> None"
  then have old: "k \<in> key_of h ` set es" by (simp add: r(2) map_of_contents_None)
  then show "\<exists>h'. hash_ins alloc k v h = Some (Exists, h') \<and> hash_dict alloc h' d"
    using insert_exists [OF r(1) fresh old] r by (auto simp: hash_ins_def hash_dict_def)
  from old obtain a where a: "a \<in> set es" "key_of h a = k" by blast
  obtain h' cs' where d: "futils_hash_remove (Some h) k = Some (Inr (), Some h')"
    "hash_rep h' cs' (filter (\<lambda>c. key_of h c \<noteq> k) es)"
    "contents h' (filter (\<lambda>c. key_of h c \<noteq> k) es) = filter (\<lambda>(k', v). k' \<noteq> k) (contents h es)"
    "dom (ents h') = dom (ents h) - {a}" "dom (nodes h') = dom (nodes h) - {a}"
    by (rule remove_present [OF r(1) a])
  have "hash_dict alloc h' (filter (\<lambda>(k', v). k' \<noteq> k) d)"
    unfolding hash_dict_def using d(2-) r(2-5) by (metis finite_Diff)
  then show "\<exists>h'. hash_del k h = Some (Done, h') \<and> hash_dict alloc h' (filter (\<lambda>(k', v). k' \<noteq> k) d)"
    using d(1) by (simp add: hash_del_def)
qed


subsection \<open>Properties\<close>

text \<open>A table of one bucket, empty and with one constant entry, for the witnesses.\<close>

definition sample_hash :: hash where
  "sample_hash = \<lparr>buckets = [None], tab_size = 1, entries = 100, hfree = True, ents = Map.empty,
     nodes = [100 \<mapsto> \<lparr>nxt = 100, prv = 100\<rparr>], hfree_calls = [], bucket_arrays = 1\<rparr>"

definition sample_hash1 :: hash where
  "sample_hash1 = \<lparr>buckets = [Some 200], tab_size = 1, entries = 100, hfree = True,
     ents = [200 \<mapsto> \<lparr>is_const = True, data = 77, entry_key = 5, chain_next = None\<rparr>],
     nodes = [100 \<mapsto> \<lparr>nxt = 200, prv = 200\<rparr>, 200 \<mapsto> \<lparr>nxt = 100, prv = 100\<rparr>], hfree_calls = [], bucket_arrays = 1\<rparr>"

lemma sample_hash_rep: "hash_rep sample_hash (\<lambda>_. []) []"
  by (simp add: hash_rep_def sample_hash_def dlist_def link_def get_next_def get_prev_def)

lemma sample_hash1_rep: "hash_rep sample_hash1 (\<lambda>_. [200]) [200]" "contents sample_hash1 [200] = [(5, True, 77)]"
  by (simp_all add: hash_rep_def sample_hash1_def dlist_def link_def get_next_def get_prev_def bucket_of_def
      contents_def key_of_def value_of_def lessThan_Suc)

text \<open>
  Property C1.  From a freshly initialised table on, every sequence of inserts (constant or
  not), removals and lookups runs to its end and answers exactly as the abstract dictionary
  does, whatever the requested size, provided that memory is finite and the allocator returns
  unused addresses.
\<close>

theorem hash_refines_dictionary:
  assumes "alloc_fresh alloc" "finite (dom (ents h))" "finite (dom (nodes h))"
  shows "\<exists>h0 h1. futils_hash_init True (Some h) sz cb = Some (Inr (), Some h0) \<and>
    impl_run (impl_step (hash_ins alloc) hash_del hash_find) ops h0 = Some (fst (dict_run ops []), h1) \<and>
    (\<exists>cs es. hash_rep h1 cs es \<and> contents h1 es = snd (dict_run ops []))"
proof -
  obtain h0 where 0: "futils_hash_init True (Some h) sz cb = Some (Inr (), Some h0)"
    "hash_rep h0 (\<lambda>_. []) []" "ents h0 = ents h" "dom (nodes h0) = insert (entries h) (dom (nodes h))"
    by (rule hash_init_rep)
  have "hash_dict alloc h0 []"
    unfolding hash_dict_def using assms 0 by (auto simp: contents_def)
  from hash_dict.run_refines [OF this, of ops] 0(1) show ?thesis unfolding hash_dict_def by metis
qed

lemma hash_refines_dictionary_witness:
  "\<exists>h0 h1. futils_hash_init True (Some sample_hash) 10 True = Some (Inr (), Some h0) \<and>
    impl_run (impl_step (hash_ins (\<lambda>h. Suc (Max (insert 0 (dom (ents h) \<union> dom (nodes h)))))) hash_del hash_find)
      [Ins 5 (True, 77), Ins 5 (False, 1), Ins 261 (False, 2), Find 5, Del 5, Find 5, Find 261] h0 =
    Some ([Done, Exists, Done, Found (True, 77), Done, Missing, Found (False, 2)], h1)"
proof -
  let ?alloc = "\<lambda>h :: hash. Suc (Max (insert 0 (dom (ents h) \<union> dom (nodes h))))"
  let ?ops = "[Ins 5 (True, 77), Ins 5 (False, 1), Ins 261 (False, 2), Find 5, Del 5, Find 5, Find 261] :: (u32, bool \<times> nat) dict_op list"
  have "Suc (Max (insert 0 A)) \<notin> A" if "finite A" for A :: "nat set"
  proof
    assume "Suc (Max (insert 0 A)) \<in> A"
    then have "Suc (Max (insert 0 A)) \<le> Max (insert 0 A)" using that by (intro Max_ge) auto
    then show False by simp
  qed
  then have a: "alloc_fresh ?alloc" unfolding alloc_fresh_def by blast
  have f: "finite (dom (ents sample_hash))" "finite (dom (nodes sample_hash))"
    by (simp_all add: sample_hash_def)
  have e: "fst (dict_run ?ops []) = [Done, Exists, Done, Found (True, 77), Done, Missing, Found (False, 2)]"
    by simp
  show ?thesis using hash_refines_dictionary [OF a f, of 10 True ?ops] unfolding e by blast
qed

text \<open>
  Property C26.  Insertion on every branch: without memory nothing changes; a key that is present
  is refused with \<open>EEXIST\<close> and the tentative entry is freed again; a new key is appended to the
  contents, and in no case is the callback called.
\<close>

theorem hash_insert_correct:
  assumes "hash_rep h cs es" "a \<notin> dom (ents h)" "a \<notin> dom (nodes h)"
    and ins: "ins = (if c then futils_hash_insert_const else futils_hash_insert)"
  shows "ins None (Some h) k d = Some (Inl ENOMEM, Some h) \<and>
    (if k \<in> fst ` set (contents h es) then ins (Some a) (Some h) k d = Some (Inl EEXIST, Some h)
     else \<exists>h' cs'. ins (Some a) (Some h) k d = Some (Inr (), Some h') \<and> hash_rep h' cs' (es @ [a]) \<and>
       contents h' (es @ [a]) = contents h es @ [(k, c, d)] \<and> hfree_calls h' = hfree_calls h \<and>
       dom (ents h') = insert a (dom (ents h)))"
proof (cases "k \<in> key_of h ` set es")
  case True
  then show ?thesis using insert_exists [OF assms(1-3) True] ins
    by (simp add: contents_keys futils_hash_insert_def futils_hash_insert_const_def)
next
  case False
  obtain h' cs' where "(if c then futils_hash_insert_const (Some a) (Some h) k d
      else futils_hash_insert (Some a) (Some h) k d) = Some (Inr (), Some h')"
    "hash_rep h' cs' (es @ [a])" "contents h' (es @ [a]) = contents h es @ [(k, c, d)]"
    "hfree_calls h' = hfree_calls h" "dom (ents h') = insert a (dom (ents h))"
    by (rule insert_new [OF assms(1-3) False])
  then show ?thesis using False ins
    by (cases c) (auto simp: contents_keys futils_hash_insert_def futils_hash_insert_const_def)
qed

lemma hash_insert_correct_witness:
  "futils_hash_insert (Some 300) (Some sample_hash1) 5 1 = Some (Inl EEXIST, Some sample_hash1) \<and>
   (\<exists>h' cs'. futils_hash_insert (Some 300) (Some sample_hash1) 6 1 = Some (Inr (), Some h') \<and>
      hash_rep h' cs' [200, 300] \<and> contents h' [200, 300] = [(5, True, 77), (6, False, 1)])"
proof -
  have f: "300 \<notin> dom (ents sample_hash1)" "300 \<notin> dom (nodes sample_hash1)"
    by (simp_all add: sample_hash1_def)
  note i = hash_insert_correct [OF sample_hash1_rep(1) f, of futils_hash_insert False]
  show ?thesis using i [of 5 1] i [of 6 1] sample_hash1_rep(2) by auto
qed

text \<open>
  Both lookups on every branch: \<open>ENOENT\<close> for an absent key, \<open>EPERM\<close> from the
  writable lookup for a constant entry, the stored pointer otherwise.  They terminate and access
  valid memory only.
\<close>

theorem hash_lookup_correct:
  assumes "hash_rep h cs es"
  shows "futils_hash_lookup (Some h) k = Some (case map_of (contents h es) k of
      None \<Rightarrow> Inl ENOENT | Some (True, _) \<Rightarrow> Inl EPERM | Some (False, d) \<Rightarrow> Inr d) \<and>
    futils_hash_lookup_const (Some h) k = Some (case map_of (contents h es) k of
      None \<Rightarrow> Inl ENOENT | Some (_, d) \<Rightarrow> Inr d)"
  using lookup_eq [OF assms, of k] by (auto split: option.split bool.split)

lemma hash_lookup_correct_witness:
  "futils_hash_lookup (Some sample_hash1) 5 = Some (Inl EPERM) \<and>
   futils_hash_lookup_const (Some sample_hash1) 5 = Some (Inr 77) \<and>
   futils_hash_lookup (Some sample_hash1) 6 = Some (Inl ENOENT)"
  using hash_lookup_correct [OF sample_hash1_rep(1), of 5] hash_lookup_correct [OF sample_hash1_rep(1), of 6]
    sample_hash1_rep(2) by simp

text \<open>
  Property C27.  Removal: an absent key changes nothing; otherwise exactly that entry leaves the
  chain and the ring, its memory is freed, and the callback, when set, is called once with its
  data pointer, constant or not.
\<close>

theorem hash_remove_correct:
  assumes "hash_rep h cs es"
  shows "case map_of (contents h es) k of
      None \<Rightarrow> futils_hash_remove (Some h) k = Some (Inl ENOENT, Some h)
    | Some (c, d) \<Rightarrow> \<exists>h' cs' es'. futils_hash_remove (Some h) k = Some (Inr (), Some h') \<and>
        hash_rep h' cs' es' \<and> contents h' es' = filter (\<lambda>(k', v). k' \<noteq> k) (contents h es) \<and>
        hfree_calls h' = hfree_calls h @ (if hfree h then [d] else []) \<and>
        (\<exists>a \<in> set es. dom (ents h') = dom (ents h) - {a})"
proof (cases "find (\<lambda>a. key_of h a = k) es")
  case None
  then have "k \<notin> key_of h ` set es" by (simp only: find_none not_False_eq_True)
  with None show ?thesis using remove_absent [OF assms] by (simp add: map_of_contents)
next
  case (Some a)
  then have a: "a \<in> set es" "key_of h a = k" using find_in by force+
  obtain h' cs' where "futils_hash_remove (Some h) k = Some (Inr (), Some h')"
    "hash_rep h' cs' (filter (\<lambda>c. key_of h c \<noteq> k) es)"
    "contents h' (filter (\<lambda>c. key_of h c \<noteq> k) es) = filter (\<lambda>(k', v). k' \<noteq> k) (contents h es)"
    "hfree_calls h' = hfree_calls h @ (if hfree h then [data (the (ents h a))] else [])"
    "dom (ents h') = dom (ents h) - {a}"
    by (rule remove_present [OF assms a])
  then show ?thesis using Some a(1) by (auto simp: map_of_contents value_of_def)
qed

lemma hash_remove_correct_witness:
  "\<exists>h' cs' es'. futils_hash_remove (Some sample_hash1) 5 = Some (Inr (), Some h') \<and>
    hash_rep h' cs' es' \<and> contents h' es' = [] \<and> hfree_calls h' = [77]"
  using hash_remove_correct [OF sample_hash1_rep(1), of 5] sample_hash1_rep(2)
  by (simp add: sample_hash1_def [THEN arg_cong [where f = hfree]] sample_hash1_def [THEN arg_cong [where f = hfree_calls]]) blast

text \<open>
  Property C36.  Emptying and destroying: both return; the callback is called exactly once for
  every entry and for nothing else, all entries are freed, an emptied table is a valid empty table, and
  destroying frees the bucket array once.  In a destroyed table every operation that computes a bucket divides by zero.
\<close>

theorem hash_remove_all_destroy:
  assumes "hash_rep h cs es"
  shows "\<exists>h' as. futils_hash_remove_all (Some h) = Some (Inr (), Some h') \<and> hash_rep h' (\<lambda>_. []) [] \<and>
      distinct as \<and> set as = set es \<and> ents h' = ents h |` (- set es) \<and>
      hfree_calls h' = hfree_calls h @ (if hfree h then map (\<lambda>a. data (the (ents h a))) as else []) \<and>
      (\<exists>h''. futils_hash_destroy (Some h) = Some (Inr (), Some h'') \<and> ents h'' = ents h' \<and>
        hfree_calls h'' = hfree_calls h' \<and> 0 < bucket_arrays h \<and> bucket_arrays h'' = bucket_arrays h - 1 \<and>
        (\<forall>k d a. futils_hash_lookup (Some h'') k = None \<and> futils_hash_remove (Some h'') k = None \<and>
          futils_hash_insert (Some a) (Some h'') k d = None))"
proof -
  obtain h' as where 1: "futils_hash_remove_all (Some h) = Some (Inr (), Some h')"
    "hash_rep h' (\<lambda>_. []) []" "distinct as" "set as = set es"
    "hfree_calls h' = hfree_calls h @ (if hfree h then map (\<lambda>a. data (the (ents h a))) as else [])"
    "ents h' = (ents h) |` (- set es)" "same_setup h h'"
    by (rule remove_all_rep [OF assms])
  have "length (buckets h') \<noteq> 0" using 1(2) by (simp add: hash_rep_def unat_eq_zero)
  then have b: "buckets h' \<noteq> []" "0 < bucket_arrays h'" "bucket_arrays h' = bucket_arrays h"
    using 1(2,7) by (auto simp: hash_rep_def same_setup_def)
  define h'' where "h'' = h'\<lparr>bucket_arrays := bucket_arrays h' - 1, buckets := [], tab_size := 0, hfree := False,
    nodes := (nodes h')(entries h' \<mapsto> \<lparr>nxt = 0, prv = 0\<rparr>)\<rparr>"
  have "futils_hash_destroy (Some h) = Some (Inr (), Some h'')"
    using 1(1) b by (simp add: futils_hash_destroy_def free_buckets_def h''_def)
  moreover have "futils_hash_lookup (Some h'') k = None \<and> futils_hash_remove (Some h'') k = None \<and>
      futils_hash_insert (Some a) (Some h'') k d = None" for k d a
    by (simp add: h''_def futils_hash_lookup_def futils_hash_lookup_entry_def futils_hash_remove_def
        futils_hash_insert_def futils_hash_insert_entry_def bucket_index_def)
  ultimately show ?thesis using 1 b
    by (intro exI [of _ h'] exI [of _ as] conjI exI [of _ h'']) (simp_all add: h''_def)
qed

lemma hash_remove_all_destroy_witness:
  "\<exists>h'. futils_hash_remove_all (Some sample_hash1) = Some (Inr (), Some h') \<and> hash_rep h' (\<lambda>_. []) []"
  using hash_remove_all_destroy [OF sample_hash1_rep(1)] by blast

text \<open>
  Initialisation chooses the smallest prime of the table that exceeds the requested
  size, or the largest one when none does; without memory it answers \<open>ENOMEM\<close>.
\<close>

theorem hash_init_size:
  "\<exists>h' p. futils_hash_init True (Some h) sz cb = Some (Inr (), Some h') \<and> hash_rep h' (\<lambda>_. []) [] \<and>
    p = unat (tab_size h') \<and> tab_size h' \<in> set futils_hash_prime_tab \<and>
    (if sz < 2147483647 then sz < p \<and> (\<forall>q \<in> set futils_hash_prime_tab. unat q < p \<longrightarrow> unat q \<le> sz)
     else p = 2147483647) \<and>
    (\<exists>h''. futils_hash_init False (Some h) sz cb = Some (Inl ENOMEM, Some h''))"
proof -
  obtain h' where 1: "futils_hash_init True (Some h) sz cb = Some (Inr (), Some h')"
    "tab_size h' = futils_hash_prime_tab ! prime_index sz 0" "hash_rep h' (\<lambda>_. []) []"
    by (rule hash_init_rep)
  define i where "i = prime_index sz 0"
  have b: "i < 32" "\<forall>j<i. unat (futils_hash_prime_tab ! j) \<le> sz"
    "i + 1 < 32 \<longrightarrow> sz < unat (futils_hash_prime_tab ! i)"
    using prime_index_bounds [of 0 sz] by (simp_all add: length_prime_tab i_def)
  have sorted: "sorted_wrt (<) (map unat futils_hash_prime_tab)"
    by (simp add: futils_hash_prime_tab_def)
  have mono: "unat (futils_hash_prime_tab ! j) < unat (futils_hash_prime_tab ! l)" if "j < l" "l < 32" for j l
    using sorted_wrt_nth_less [OF sorted that(1)] that by (simp add: length_prime_tab)
  have last: "unat (futils_hash_prime_tab ! 31) = 2147483647" by (simp add: futils_hash_prime_tab_def)
  have size: "if sz < 2147483647 then sz < unat (futils_hash_prime_tab ! i) \<and>
      (\<forall>q \<in> set futils_hash_prime_tab. unat q < unat (futils_hash_prime_tab ! i) \<longrightarrow> unat q \<le> sz)
     else unat (futils_hash_prime_tab ! i) = 2147483647"
  proof (cases "sz < 2147483647")
    case True
    have "sz < unat (futils_hash_prime_tab ! i)" using b(1,3) True last by (cases "i = 31") auto
    moreover have "unat q \<le> sz" if q: "q \<in> set futils_hash_prime_tab" "unat q < unat (futils_hash_prime_tab ! i)" for q
    proof -
      obtain j where j: "j < 32" "q = futils_hash_prime_tab ! j" using q(1) by (auto simp: in_set_conv_nth length_prime_tab)
      then have "j < i" using mono [of i j] q(2) by (metis less_asym' linorder_neqE_nat)
      then show ?thesis using b(2) j(2) by blast
    qed
    ultimately show ?thesis using True by simp
  next
    case False
    have "i = 31"
    proof (rule ccontr)
      assume "i \<noteq> 31"
      then have "sz < unat (futils_hash_prime_tab ! i)" "i < 31" using b(1,3) by auto
      then show False using mono [of i 31] last False by simp
    qed
    then show ?thesis using False last by simp
  qed
  have "futils_hash_init False (Some h) sz cb = Some (Inl ENOMEM, Some (h\<lparr>buckets := [], tab_size := 0, hfree := False,
      nodes := (nodes h)(entries h \<mapsto> \<lparr>nxt = 0, prv = 0\<rparr>)\<rparr>\<lparr>tab_size := futils_hash_prime_tab ! i\<rparr>))"
    by (simp add: futils_hash_init_def Let_def i_def)
  moreover have "futils_hash_prime_tab ! i \<in> set futils_hash_prime_tab" using b(1) by (simp add: length_prime_tab)
  ultimately show ?thesis using 1 size unfolding i_def by auto
qed

lemma hash_init_size_witness:
  "\<exists>h'. futils_hash_init True (Some sample_hash1) 100 False = Some (Inr (), Some h') \<and> unat (tab_size h') > 100"
proof -
  have "(100 :: nat) < 2147483647" by simp
  then show ?thesis using hash_init_size [of sample_hash1 100 False] by (metis (full_types))
qed

end
