(* ===== verification/Chacha.thy ===== *)
theory Chacha
  imports Prelude
begin

text \<open>
  Component \<open>random\<close>, first part (src/src/random.c): the ChaCha20 generator.  Arrays of words and
  bytes are lists of their fixed length; the index arguments are constants of the code, so the
  list operations stay inside them (\<open>length\<close> lemmas below).
\<close>

subsection \<open>Words and bytes\<close>

definition rotl :: "u32 \<Rightarrow> nat \<Rightarrow> u32" where
  "rotl x k = push_bit k x OR drop_bit (32 - k) x"

text \<open>\<open>read_32le(&d[i], v)\<close>: the value stored through \<open>v\<close>.\<close>

definition read_32le :: "u8 list \<Rightarrow> nat \<Rightarrow> u32" where
  "read_32le d i =
     (let v = 0;
          v = v OR push_bit 0 (ucast (d ! i));
          v = v OR push_bit 8 (ucast (d ! (i + 1)));
          v = v OR push_bit 16 (ucast (d ! (i + 2)));
          v = v OR push_bit 24 (ucast (d ! (i + 3)))
      in v)"

text \<open>\<open>write_32le\<close>: the four bytes stored.\<close>

definition write_32le :: "u32 \<Rightarrow> u8 list" where
  "write_32le v = [ucast (drop_bit 0 v), ucast (drop_bit 8 v), ucast (drop_bit 16 v), ucast (drop_bit 24 v)]"

definition CHACHA_KEY_SIZE :: nat where "CHACHA_KEY_SIZE = 32"
definition CHACHA_NONCE_SIZE :: nat where "CHACHA_NONCE_SIZE = 12"
definition CHACHA_KEY_NONCE_SIZE :: nat where "CHACHA_KEY_NONCE_SIZE = CHACHA_KEY_SIZE + CHACHA_NONCE_SIZE"
definition CHACHA_BLOCK_SIZE :: nat where "CHACHA_BLOCK_SIZE = 64"
definition CHACHA_ROUNDS :: nat where "CHACHA_ROUNDS = 20"

subsection \<open>The block function\<close>

definition chacha_quarterround :: "nat \<Rightarrow> nat \<Rightarrow> nat \<Rightarrow> nat \<Rightarrow> u32 list \<Rightarrow> u32 list" where
  "chacha_quarterround a b c d x =
    (let x = x[a := x ! a + x ! b]; x = x[d := rotl (x ! d XOR x ! a) 16];
         x = x[c := x ! c + x ! d]; x = x[b := rotl (x ! b XOR x ! c) 12];
         x = x[a := x ! a + x ! b]; x = x[d := rotl (x ! d XOR x ! a) 8];
         x = x[c := x ! c + x ! d]; x = x[b := rotl (x ! b XOR x ! c) 7]
     in x)"

definition chacha_double_round :: "u32 list \<Rightarrow> u32 list" where
  "chacha_double_round x =
    (let x = chacha_quarterround 0 4 8 12 x;
         x = chacha_quarterround 1 5 9 13 x;
         x = chacha_quarterround 2 6 10 14 x;
         x = chacha_quarterround 3 7 11 15 x;
         x = chacha_quarterround 0 5 10 15 x;
         x = chacha_quarterround 1 6 11 12 x;
         x = chacha_quarterround 2 7 8 13 x;
         x = chacha_quarterround 3 4 9 14 x
     in x)"

function chacha_rounds :: "nat \<Rightarrow> u32 list \<Rightarrow> u32 list" where
  "chacha_rounds i x = (if i < CHACHA_ROUNDS then chacha_rounds (i + 2) (chacha_double_round x) else x)"
  by pat_completeness auto
termination by (relation "measure (\<lambda>(i, x). CHACHA_ROUNDS - i)") auto

declare chacha_rounds.simps [simp del]

text \<open>The 64 bytes stored to \<open>out\<close>.\<close>

definition chacha_block :: "u32 list \<Rightarrow> u8 list" where
  "chacha_block inp =
    (let x = chacha_rounds 0 inp;
         x = map2 (+) x inp
     in concat (map write_32le x))"

subsection \<open>The generator\<close>

definition chacha_constant :: "u8 list" where
  "chacha_constant = map (\<lambda>c. word_of_nat (of_char c)) ''expand 32-byte k''"

definition chacha_init :: "u8 list \<Rightarrow> u32 list" where
  "chacha_init k =
     [read_32le chacha_constant 0, read_32le chacha_constant 4,
      read_32le chacha_constant 8, read_32le chacha_constant 12,
      read_32le k 0, read_32le k 4, read_32le k 8, read_32le k 12,
      read_32le k 16, read_32le k 20, read_32le k 24, read_32le k 28,
      0,
      read_32le k 32, read_32le k 36, read_32le k 40]"

definition chacha_get :: "u32 list \<Rightarrow> u8 list \<times> u32 list" where
  "chacha_get x = (chacha_block x, x[12 := x ! 12 + 1])"

function chacha_keystream :: "nat \<Rightarrow> u32 list \<Rightarrow> u8 list \<times> u32 list" where
  "chacha_keystream len x =
    (if len \<ge> CHACHA_BLOCK_SIZE
     then let (blk, x) = chacha_get x; (rest, x) = chacha_keystream (len - CHACHA_BLOCK_SIZE) x in (blk @ rest, x)
     else if len \<noteq> 0
     then let (tmp, x) = chacha_get x in (take len tmp, x)
     else ([], x))"
  by pat_completeness auto
termination by (relation "measure fst") (auto simp: CHACHA_BLOCK_SIZE_def)

declare chacha_keystream.simps [simp del]

subsection \<open>Lengths\<close>

lemma length_quarterround [simp]: "length (chacha_quarterround a b c d x) = length x"
  by (simp add: chacha_quarterround_def Let_def)

lemma length_double_round [simp]: "length (chacha_double_round x) = length x"
  by (simp add: chacha_double_round_def Let_def)

lemma length_chacha_rounds [simp]: "length (chacha_rounds i x) = length x"
proof (induction i x rule: chacha_rounds.induct)
  case (1 i x)
  then show ?case by (subst chacha_rounds.simps) simp
qed

lemma length_write_32le [simp]: "length (write_32le v) = 4"
  by (simp add: write_32le_def)

lemma length_concat_const: "(\<And>x. length (f x) = k) \<Longrightarrow> length (concat (map f xs)) = k * length xs"
  by (induction xs) simp_all

lemma length_chacha_block [simp]: "length x = 16 \<Longrightarrow> length (chacha_block x) = 64"
  by (simp add: chacha_block_def Let_def length_concat_const)

lemma length_chacha_init [simp]: "length (chacha_init k) = 16"
  by (simp add: chacha_init_def)

lemma chacha_get_simps [simp]:
  "fst (chacha_get x) = chacha_block x" "length (snd (chacha_get x)) = length x"
  by (simp_all add: chacha_get_def)

lemma length_chacha_keystream:
  "length x = 16 \<Longrightarrow> length (fst (chacha_keystream len x)) = len \<and> length (snd (chacha_keystream len x)) = 16"
proof (induction len x rule: chacha_keystream.induct)
  case (1 len x)
  show ?case
  proof (cases "len \<ge> CHACHA_BLOCK_SIZE")
    case True
    then show ?thesis using 1
      by (subst (1 2) chacha_keystream.simps) (simp add: chacha_get_def CHACHA_BLOCK_SIZE_def split: prod.split, fastforce)
  next
    case False
    then show ?thesis using 1
      by (subst (1 2) chacha_keystream.simps) (simp add: chacha_get_def CHACHA_BLOCK_SIZE_def)
  qed
qed

subsection \<open>The keystream, block by block\<close>

text \<open>Block \<open>i\<close> of the stream, counted from the current counter, computed on its own.\<close>

definition keystream_block :: "u32 list \<Rightarrow> nat \<Rightarrow> u8 list" where
  "keystream_block x i = chacha_block (x[12 := x ! 12 + of_nat i])"

lemma keystream_block_Suc:
  "length x = 16 \<Longrightarrow> keystream_block (x[12 := x ! 12 + 1]) i = keystream_block x (Suc i)"
  by (simp add: keystream_block_def add_ac)

text \<open>
  Property C32.  The keystream of any length is the beginning of the concatenation of the blocks
  of successive counter values, and the state afterwards differs only in the counter, which has
  advanced by the number of blocks begun (modulo \<open>2^32\<close>).
\<close>

theorem chacha_keystream_blocks:
  assumes "length x = 16"
  shows "chacha_keystream len x =
    (take len (concat (map (keystream_block x) [0..<(len + 63) div 64])),
     x[12 := x ! 12 + of_nat ((len + 63) div 64)])"
  using assms
proof (induction len x rule: chacha_keystream.induct)
  case (1 len x)
  let ?x = "x[12 := x ! 12 + 1]"
  have b0: "keystream_block x 0 = chacha_block x" by (simp add: keystream_block_def)
  show ?case
  proof (cases "len \<ge> 64")
    case True
    define n where "n = (len - 64 + 63) div 64"
    have n: "(len + 63) div 64 = Suc n" using True by (simp add: n_def)
    have "map (keystream_block ?x) [0..<n] = map (keystream_block x) (map Suc [0..<n])"
      using "1.prems" by (simp add: keystream_block_Suc)
    then have "map (keystream_block ?x) [0..<n] = map (keystream_block x) [1..<Suc n]"
      by (simp only: map_Suc_upt One_nat_def)
    moreover have "[0..<Suc n] = 0 # [1..<Suc n]" by (simp add: upt_conv_Cons)
    moreover have "chacha_keystream (len - 64) ?x =
      (take (len - 64) (concat (map (keystream_block ?x) [0..<n])), ?x[12 := ?x ! 12 + of_nat n])"
      using "1.IH"(1) [OF _ refl, of "chacha_block x" ?x] "1.prems" True
      by (simp add: chacha_get_def CHACHA_BLOCK_SIZE_def n_def)
    ultimately show ?thesis using True "1.prems" unfolding n
      by (subst chacha_keystream.simps) (simp add: CHACHA_BLOCK_SIZE_def chacha_get_def b0 add_ac)
  next
    case False
    then have "len = 0 \<or> (len + 63) div 64 = 1" by (cases "len = 0") (auto intro!: div_nat_eqI)
    then show ?thesis using False "1.prems"
      by (subst chacha_keystream.simps) (auto simp: CHACHA_BLOCK_SIZE_def chacha_get_def b0)
  qed
qed

lemma chacha_keystream_blocks_witness:
  "snd (chacha_keystream 100 (replicate 16 0)) = (replicate 16 0)[12 := 2]"
  using chacha_keystream_blocks [of "replicate 16 0" 100] by simp

end
