(* ===== verification/RandWin.thy ===== *)
theory RandWin
  imports Prelude
begin

text \<open>
  The Windows branch of \<open>rand_fetch\<close> (src/src/random.c): \<open>RtlGenRandom\<close> first, if it is there, then
  \<open>rand_s\<close> four bytes at a time.

  \<open>answer i\<close> is the outcome of the \<open>i\<close>-th call of \<open>rand_s\<close>: the value returned and, if it stored one,
  the number.  \<open>errno_value\<close> is \<open>errno\<close> after a failing call.
\<close>

function rand_s_loop :: "(nat \<Rightarrow> int \<times> u32 option) \<Rightarrow> error \<Rightarrow> nat \<Rightarrow> u32 \<Rightarrow> nat \<Rightarrow> unit res \<times> u8 list" where
  "rand_s_loop answer errno_value i val len =
    (if len = 0 then (Inr (), [])
     else let chunk = min 4 len;
              (ret, stored) = answer i;
              val = (case stored of None \<Rightarrow> val | Some v \<Rightarrow> v)
          in if ret < 0 then (Inl errno_value, [])
             else let (r, bs) = rand_s_loop answer errno_value (i + 1) val (len - chunk)
                  in (r, take chunk (u32_bytes val) @ bs))"
  by auto
termination by (relation "measure (\<lambda>(answer, e, i, val, len). len)") auto

declare rand_s_loop.simps [simp del]

text \<open>\<open>rtl\<close>: the bytes of \<open>RtlGenRandom\<close>, if the function exists and succeeds.\<close>

definition rand_fetch_win :: "u8 list option \<Rightarrow> (nat \<Rightarrow> int \<times> u32 option) \<Rightarrow> error \<Rightarrow> nat \<Rightarrow> unit res \<times> u8 list" where
  "rand_fetch_win rtl answer errno_value len = (case rtl of
     Some bs \<Rightarrow> (Inr (), bs)
   | None \<Rightarrow> rand_s_loop answer errno_value 0 0 len)"

section \<open>Errors of \<open>rand_s\<close>\<close>

text \<open>
  The fill is faithful when every call succeeds: the result is the beginning of the numbers drawn, one
  after the other.
\<close>

lemma rand_s_loop_ok:
  "rand_s_loop (\<lambda>i. (0, Some (v i))) e i val len = (Inr (), take len (concat (map (\<lambda>k. u32_bytes (v k)) [i..<i + len])))"
proof (induction len arbitrary: i val rule: less_induct)
  case (less len)
  show ?case
  proof (cases "len \<le> 4")
    case True
    have l: "rand_s_loop answer e i val 0 = (Inr (), [])" for answer i val by (simp add: rand_s_loop.simps)
    show ?thesis
    proof (cases "len = 0")
      case False
      then have "[i..<i + len] = i # [Suc i..<i + len]" by (simp add: upt_conv_Cons)
      then show ?thesis using True False by (subst rand_s_loop.simps) (simp add: l Let_def min_absorb2)
    qed (simp add: l)
  next
    case False
    define m where "m = len - 4"
    with False have m: "len = Suc (Suc (Suc (Suc m)))" by simp
    have u: "[i..<i + len] = i # [Suc i..<Suc i + m] @ [Suc i + m..<Suc i + m + 3]"
    proof -
      have "i + len = Suc i + m + 3" by (simp add: m)
      moreover have "[Suc i..<Suc i + m + 3] = [Suc i..<Suc i + m] @ [Suc i + m..<Suc i + m + 3]"
        by (rule upt_add_eq_append) simp
      moreover have "[i..<Suc i + m + 3] = i # [Suc i..<Suc i + m + 3]" by (rule upt_conv_Cons) simp
      ultimately show ?thesis by metis
    qed
    have n: "m \<le> length (concat (map (\<lambda>k. u32_bytes (v k)) [Suc i..<Suc i + m]))"
      by (simp add: length_concat comp_def sum_list_triv)
    show ?thesis
      using less.IH [of m "Suc i" "v i"] n
      unfolding u by (subst rand_s_loop.simps) (simp add: m Let_def del: upt_Suc)
  qed
qed

text \<open>
  \<open>rand_s\<close> is documented to return a positive error code; the test is for a negative one.  So a failure
  is never reported: if \<open>rand_s\<close> fails every time without storing a number, the caller gets success and
  a buffer of zeros.
\<close>

theorem rand_fetch_win_failure_lost:
  assumes "\<And>i. answer i = (code i, None)" "\<And>i. 0 < code i"
  shows "rand_fetch_win None answer e len = (Inr (), replicate len 0)"
proof -
  have z: "u32_bytes 0 = replicate 4 0" by (simp add: u32_bytes_def numeral_eq_Suc)
  have eq: "answer = (\<lambda>i. (code i, None))" using assms(1) by blast
  have "rand_s_loop answer e i 0 len = (Inr (), replicate len 0)" for i
    unfolding eq
  proof (induction len arbitrary: i rule: less_induct)
    case (less len)
    show ?case
    proof (cases "len = 0")
      case False
      have n: "\<not> code i < 0" using assms(2) [of i] by simp
      have "min (min 4 len) 4 + (len - min 4 len) = len" by auto
      then have "replicate (min (min 4 len) 4) (0 :: u8) @ replicate (len - min 4 len) 0 = replicate len 0"
        by (simp flip: replicate_add)
      then show ?thesis
        using False n less.IH [of "len - min 4 len" "i + 1"] by (subst rand_s_loop.simps) (simp add: z Let_def)
    qed (simp add: rand_s_loop.simps)
  qed
  then show ?thesis by (simp add: rand_fetch_win_def)
qed

end
