(* ===== verification/Pool.thy ===== *)
theory Pool
  imports Chacha
begin

text \<open>
  Component \<open>random\<close>, second part (src/src/random.c): fetching entropy from the system, and the
  per-thread pool of pseudorandom bytes.

  The operating system is a script: the answers it will give to \<open>getrandom\<close>, \<open>open\<close> and
  \<open>read\<close>, in order, and the log of the calls made.  A call without an answer left never returns.
  Operations return \<open>None\<close> when they do not return, call \<open>abort()\<close>, violate an \<open>assert\<close> or access
  memory outside an object.
\<close>

subsection \<open>Entropy from the system\<close>

datatype rng_call =
    Sys_getrandom nat bool     \<comment> \<open>length, \<open>GRND_RANDOM\<close>\<close>
  | Sys_open string bool       \<comment> \<open>path, \<open>O_NONBLOCK\<close>\<close>
  | Sys_read nat
  | Sys_close

record kernel =
  getrandom_answers :: "(error + u8 list) list"
  open_answers :: "error option list"
  read_answers :: "(error + u8 list) list"
  calls :: "rng_call list"

text \<open>
  The loop around \<open>getrandom\<close>: the bytes obtained so far are \<open>p\<close>, \<open>len\<close> are missing.  The kernel
  never delivers more than was asked for.
\<close>

fun getrandom_loop :: "bool \<Rightarrow> nat \<Rightarrow> u8 list \<Rightarrow> (error + u8 list) list \<Rightarrow> rng_call list \<Rightarrow>
    (nat \<times> u8 list \<times> (error + u8 list) list \<times> rng_call list) option" where
  "getrandom_loop strong len p [] log = (if len = 0 then Some (0, p, [], log) else None)"
| "getrandom_loop strong len p (a # as) log =
    (if len = 0 then Some (0, p, a # as, log)
     else let log = log @ [Sys_getrandom len strong] in
       (case a of
          Inl e \<Rightarrow>
            if e = EINTR then getrandom_loop strong len p as log
            else if e = ENOSYS \<or> e = EAGAIN then Some (len, p, as, log)
            else Some (len, p, as, log)
        | Inr bs \<Rightarrow>
            let bs = take len bs; rd = length bs in
            if rd = 0 then Some (len, p, as, log)
            else getrandom_loop strong (len - rd) (p @ bs) as log))"

fun read_loop :: "nat \<Rightarrow> u8 list \<Rightarrow> (error + u8 list) list \<Rightarrow> rng_call list \<Rightarrow>
    (unit res \<times> u8 list \<times> (error + u8 list) list \<times> rng_call list) option" where
  "read_loop len p [] log = (if len = 0 then Some (Inr (), p, [], log) else None)"
| "read_loop len p (a # as) log =
    (if len = 0 then Some (Inr (), p, a # as, log)
     else let log = log @ [Sys_read len] in
       (case a of
          Inl e \<Rightarrow> if e = EINTR then read_loop len p as log else Some (Inl e, p, as, log)
        | Inr bs \<Rightarrow>
            let bs = take len bs; rd = length bs in
            if rd = 0 then Some (Inl EAGAIN, p, as, log)
            else read_loop (len - rd) (p @ bs) as log))"

text \<open>The result, and the bytes stored at the beginning of the buffer.\<close>

definition rand_fetch :: "nat \<Rightarrow> bool \<Rightarrow> kernel \<Rightarrow> ((unit res \<times> u8 list) \<times> kernel) option" where
  "rand_fetch len strong k = do {
     let dev_path = (if strong then ''/dev/random'' else ''/dev/urandom'');
     (len, p, as, log) \<leftarrow> getrandom_loop strong len [] (getrandom_answers k) (calls k);
     let k = k\<lparr>getrandom_answers := as, calls := log\<rparr>;
     if len = 0 then Some ((Inr (), p), k)
     else (case open_answers k of
         [] \<Rightarrow> None
       | Some e # os \<Rightarrow>
           Some ((Inl e, p), k\<lparr>open_answers := os, calls := calls k @ [Sys_open dev_path (\<not> strong)]\<rparr>)
       | None # os \<Rightarrow> do {
           let k = k\<lparr>open_answers := os, calls := calls k @ [Sys_open dev_path (\<not> strong)]\<rparr>;
           (ret, p, as, log) \<leftarrow> read_loop len p (read_answers k) (calls k);
           Some ((ret, p), k\<lparr>read_answers := as, calls := log @ [Sys_close]\<rparr>) }) }"

text \<open>\<open>futils_random_strong\<close>; \<open>None\<close> as buffer is \<open>NULL\<close>.  The result holds the buffer after the call.\<close>

definition futils_random_strong :: "u8 list option \<Rightarrow> nat \<Rightarrow> kernel \<Rightarrow> ((unit res \<times> u8 list option) \<times> kernel) option" where
  "futils_random_strong buffer len k = (case buffer of
     None \<Rightarrow> Some ((Inl EINVAL, None), k)
   | Some b \<Rightarrow>
      if len = 0 then Some ((Inl EINVAL, Some b), k)
      else do {
        ((ret, bs), k) \<leftarrow> rand_fetch len True k;
        if length bs \<le> length b then Some ((ret, Some (mem_write 0 bs b)), k) else None })"

subsection \<open>The pool\<close>

record pool =
  chacha :: "u32 list"
  seeded :: u32
  era :: u32
  available :: nat
  buffer :: "u8 list"

text \<open>One thread's pool, the seed era all threads share, and the system.\<close>

record rng =
  pool :: pool
  seed_era :: u32
  kern :: kernel

text \<open>The zero-initialised thread-local pool, and the state at program start.\<close>

definition pool_static :: pool where
  "pool_static = \<lparr>chacha = replicate 16 0, seeded = 0, era = 0, available = 0, buffer = replicate 512 0\<rparr>"

definition rng_start :: "kernel \<Rightarrow> rng" where
  "rng_start k = \<lparr>pool = pool_static, seed_era = 1, kern = k\<rparr>"

text \<open>Without thread-local storage: \<open>malloc\<close>ed memory (whatever it contains), and its release.\<close>

definition pool_new :: "pool option \<Rightarrow> pool option" where
  "pool_new alloc = (case alloc of None \<Rightarrow> None | Some p \<Rightarrow> Some (p\<lparr>era := 0, available := 0\<rparr>))"

definition pool_free :: "pool \<Rightarrow> pool" where
  "pool_free p = pool_static"

text \<open>
  \<open>pool_get\<close> without thread-local storage: the key is created once per process (\<open>once\<close>: it already was),
  the pool at the thread's first call.  \<open>key_create\<close> and \<open>setspecific\<close> are the answers of the system.
\<close>

definition pool_once :: "error option \<Rightarrow> unit option" where
  "pool_once key_create = (case key_create of Some e \<Rightarrow> None \<comment> \<open>\<open>abort()\<close>\<close> | None \<Rightarrow> Some ())"

definition pool_get_key ::
  "bool \<Rightarrow> error option \<Rightarrow> pool option \<Rightarrow> pool option \<Rightarrow> error option \<Rightarrow> pool option" where
  "pool_get_key once key_create slot alloc setspecific = do {
     _ \<leftarrow> (if once then Some () else pool_once key_create);
     case slot of
       Some p \<Rightarrow> Some p
     | None \<Rightarrow> (case pool_new alloc of
         None \<Rightarrow> None
       | Some p \<Rightarrow> (case setspecific of Some e \<Rightarrow> None | None \<Rightarrow> Some p)) }"

text \<open>A thread keeps its pool; a new one is empty and of no era, so its first request seeds it.\<close>

lemma pool_get_key_keeps:
  "pool_get_key once kc slot alloc ss = Some p \<Longrightarrow> pool_get_key True kc' (Some p) alloc' ss' = Some p"
  by (simp add: pool_get_key_def)

lemma pool_get_key_fresh:
  "pool_get_key once kc None alloc ss = Some p \<Longrightarrow> era p = 0 \<and> available p = 0"
  by (auto simp: pool_get_key_def pool_new_def split: option.splits if_splits Option.bind_splits)

text \<open>The address of the available bytes, as an index into the buffer.\<close>

definition pool_buffer_get :: "nat \<Rightarrow> pool \<Rightarrow> nat option" where
  "pool_buffer_get len p =
    (if len \<le> available p \<and> available p \<le> 512 then Some (512 - available p) else None)"

definition pool_buffer_consume :: "nat \<Rightarrow> nat \<Rightarrow> pool \<Rightarrow> pool option" where
  "pool_buffer_consume ptr len p =
    (if available p \<le> 512 \<and> ptr = 512 - available p \<and> len \<le> available p
     then Some (p\<lparr>buffer := mem_write (512 - available p) (replicate len 0) (buffer p),
                  available := available p - len\<rparr>)
     else None)"

definition pool_seed_era :: "rng \<Rightarrow> u32" where
  "pool_seed_era s = seed_era s"

definition pool_seed_era_new :: "rng \<Rightarrow> u32 \<times> rng" where
  "pool_seed_era_new s = (seed_era s + 2, s\<lparr>seed_era := seed_era s + 2\<rparr>)"

definition pool_seed :: "u32 \<Rightarrow> rng \<Rightarrow> (unit res \<times> rng) option" where
  "pool_seed e s = do {
     ((err, key), k) \<leftarrow> rand_fetch CHACHA_KEY_NONCE_SIZE False (kern s);
     let s = s\<lparr>kern := k\<rparr>;
     (case err of
        Inl x \<Rightarrow> Some (Inl x, s)
      | Inr _ \<Rightarrow>
          let p = (pool s)\<lparr>chacha := chacha_init key\<rparr>;
              p = p\<lparr>era := e\<rparr>;
              p = p\<lparr>available := 0\<rparr>
          in Some (Inr (), s\<lparr>pool := p\<rparr>)) }"

definition pool_seed_if_needed :: "rng \<Rightarrow> rng option" where
  "pool_seed_if_needed s =
    (let e = pool_seed_era s in
     if era (pool s) = e then Some s
     else do {
       (ret, s) \<leftarrow> pool_seed e s;
       (case ret of Inl _ \<Rightarrow> None \<comment> \<open>\<open>abort()\<close>\<close> | Inr _ \<Rightarrow> Some s) })"

definition pool_reseed :: "rng \<Rightarrow> (unit res \<times> rng) option" where
  "pool_reseed s = (let (e, s) = pool_seed_era_new s in pool_seed e s)"

definition pool_reload :: "pool \<Rightarrow> pool option" where
  "pool_reload p =
    (if available p \<le> 512 then do {
       let consumed = 512 - available p;
       let p = p\<lparr>buffer := mem_write 0 (mem_read consumed (available p) (buffer p)) (buffer p)\<rparr>;
       let (bytes, x) = chacha_keystream consumed (chacha p);
       let p = p\<lparr>chacha := x, buffer := mem_write (available p) bytes (buffer p)\<rparr>;
       let p = p\<lparr>available := 512\<rparr>;
       key \<leftarrow> pool_buffer_get CHACHA_KEY_NONCE_SIZE p;
       let p = p\<lparr>chacha := chacha_init (mem_read key CHACHA_KEY_NONCE_SIZE (buffer p))\<rparr>;
       pool_buffer_consume key CHACHA_KEY_NONCE_SIZE p }
     else None)"

definition pool_reload_if_needed :: "nat \<Rightarrow> pool \<Rightarrow> pool option" where
  "pool_reload_if_needed required p =
    (if available p \<ge> required then Some p
     else do {
       p \<leftarrow> pool_reload p;
       if available p \<ge> required then Some p else None })"

text \<open>The \<open>len\<close> bytes stored to the buffer, and the pool.\<close>

definition pool_stir :: "nat \<Rightarrow> pool \<Rightarrow> (u8 list \<times> pool) option" where
  "pool_stir len p = do {
     p \<leftarrow> pool_reload_if_needed CHACHA_KEY_NONCE_SIZE p;
     key \<leftarrow> pool_buffer_get CHACHA_KEY_NONCE_SIZE p;
     let x = chacha_init (mem_read key CHACHA_KEY_NONCE_SIZE (buffer p));
     p \<leftarrow> pool_buffer_consume key CHACHA_KEY_NONCE_SIZE p;
     let (bytes, x) = chacha_keystream len x;
     Some (bytes, p) }"

definition pool_rand :: "nat \<Rightarrow> rng \<Rightarrow> (u8 list \<times> rng) option" where
  "pool_rand len s = do {
     s \<leftarrow> pool_seed_if_needed s;
     if len \<ge> 512 - CHACHA_KEY_NONCE_SIZE
     then do {
       (bytes, p) \<leftarrow> pool_stir len (pool s);
       Some (bytes, s\<lparr>pool := p\<rparr>) }
     else do {
       p \<leftarrow> pool_reload_if_needed len (pool s);
       ptr \<leftarrow> pool_buffer_get len p;
       let bytes = mem_read ptr len (buffer p);
       p \<leftarrow> pool_buffer_consume ptr len p;
       Some (bytes, s\<lparr>pool := p\<rparr>) } }"

text \<open>The public entry points; the buffer is given and returned whole.\<close>

definition futils_random :: "u8 list \<Rightarrow> nat \<Rightarrow> rng \<Rightarrow> (u8 list \<times> rng) option" where
  "futils_random b len s = do {
     (bytes, s) \<leftarrow> pool_rand len s;
     if length bytes \<le> length b then Some (mem_write 0 bytes b, s) else None }"

definition futils_random_bytes :: "u8 list option \<Rightarrow> nat \<Rightarrow> rng \<Rightarrow> ((unit res \<times> u8 list option) \<times> rng) option" where
  "futils_random_bytes b len s = (case b of
     None \<Rightarrow> Some ((Inl EINVAL, None), s)
   | Some b \<Rightarrow> if len = 0 then Some ((Inl EINVAL, Some b), s)
       else do { (b, s) \<leftarrow> futils_random b len s; Some ((Inr (), Some b), s) })"

definition futils_random_reseed :: "rng \<Rightarrow> (unit res \<times> rng) option" where
  "futils_random_reseed s = pool_reseed s"

text \<open>What the rest of the program can do in between: other threads start new eras.\<close>

definition other_thread_reseed :: "rng \<Rightarrow> rng" where
  "other_thread_reseed s = snd (pool_seed_era_new s)"

subsection \<open>Fetching entropy\<close>

definition answer_bytes :: "(error + u8 list) list \<Rightarrow> u8 set" where
  "answer_bytes as = (\<Union>a \<in> set as. case a of Inl _ \<Rightarrow> {} | Inr bs \<Rightarrow> set bs)"

lemma answer_bytes_simps [simp]:
  "answer_bytes [] = {}" "answer_bytes (Inl e # as) = answer_bytes as"
  "answer_bytes (Inr bs # as) = set bs \<union> answer_bytes as"
  by (simp_all add: answer_bytes_def)

lemma getrandom_loop_spec:
  "getrandom_loop strong len p as log = Some (len', p', as', log') \<Longrightarrow>
   len' \<le> len \<and> length p' + len' = length p + len \<and> (\<exists>q. p' = p @ q \<and> set q \<subseteq> answer_bytes as) \<and>
   (\<exists>l. log' = log @ l \<and> (\<forall>c \<in> set l. \<exists>n. c = Sys_getrandom n strong))"
proof (induction strong len p as log rule: getrandom_loop.induct)
  case (1 strong len p log)
  then show ?case by (auto split: if_splits)
next
  case (2 strong len p a as log)
  show ?case
  proof (cases "len = 0")
    case True
    then show ?thesis using "2.prems" by auto
  next
    case False
    show ?thesis
    proof (cases a)
      case (Inl e)
      show ?thesis
      proof (cases "e = EINTR")
        case True
        then show ?thesis using "2.IH"(1) [OF False refl Inl True] "2.prems" False Inl by fastforce
      next
        case e: False
        then show ?thesis using "2.prems" False Inl by auto
      qed
    next
      case (Inr bs)
      show ?thesis
      proof (cases "take len bs = []")
        case True
        then show ?thesis using "2.prems" False Inr by (auto simp: Let_def)
      next
        case bs: False
        have "getrandom_loop strong (len - length (take len bs)) (p @ take len bs) as
            (log @ [Sys_getrandom len strong]) = Some (len', p', as', log')"
          using "2.prems" False Inr bs by (auto simp: Let_def)
        from "2.IH"(2) [OF False refl Inr refl refl _ this] bs False
        obtain q l where *: "len' \<le> len - length (take len bs)"
          "length p' + len' = length (p @ take len bs) + (len - length (take len bs))"
          "p' = (p @ take len bs) @ q" "set q \<subseteq> answer_bytes as"
          "log' = (log @ [Sys_getrandom len strong]) @ l" "\<forall>c \<in> set l. \<exists>n. c = Sys_getrandom n strong"
          by auto
        then show ?thesis using Inr set_take_subset [of len bs]
          by (intro conjI exI [of _ "take len bs @ q"] exI [of _ "Sys_getrandom len strong # l"]) auto
      qed
    qed
  qed
qed

lemma read_loop_spec:
  "read_loop len p as log = Some (ret, p', as', log') \<Longrightarrow>
   length p' \<le> length p + len \<and> (\<exists>q. p' = p @ q \<and> set q \<subseteq> answer_bytes as) \<and>
   (case ret of Inr _ \<Rightarrow> length p' = length p + len
      | Inl e \<Rightarrow> e = EAGAIN \<or> Inl e \<in> set as \<and> e \<noteq> EINTR) \<and>
   (\<exists>l. log' = log @ l \<and> (\<forall>c \<in> set l. \<exists>n. c = Sys_read n))"
proof (induction len p as log rule: read_loop.induct)
  case (1 len p log)
  then show ?case by (auto split: if_splits)
next
  case (2 len p a as log)
  show ?case
  proof (cases "len = 0")
    case True
    then show ?thesis using "2.prems" by auto
  next
    case False
    show ?thesis
    proof (cases a)
      case (Inl e)
      show ?thesis
      proof (cases "e = EINTR")
        case True
        have "read_loop len p as (log @ [Sys_read len]) = Some (ret, p', as', log')"
          using "2.prems" False Inl True by simp
        from "2.IH"(1) [OF False refl Inl True this] Inl show ?thesis by (auto split: sum.splits)
      next
        case e: False
        then show ?thesis using "2.prems" False Inl by auto
      qed
    next
      case (Inr bs)
      show ?thesis
      proof (cases "take len bs = []")
        case True
        then show ?thesis using "2.prems" False Inr by (auto simp: Let_def)
      next
        case bs: False
        have "read_loop (len - length (take len bs)) (p @ take len bs) as
            (log @ [Sys_read len]) = Some (ret, p', as', log')"
          using "2.prems" False Inr bs by (auto simp: Let_def)
        from "2.IH"(2) [OF False refl Inr refl refl _ this] bs False
        obtain q l where *: "length p' \<le> length (p @ take len bs) + (len - length (take len bs))"
          "p' = (p @ take len bs) @ q" "set q \<subseteq> answer_bytes as"
          "case ret of Inr _ \<Rightarrow> length p' = length (p @ take len bs) + (len - length (take len bs))
             | Inl e \<Rightarrow> e = EAGAIN \<or> Inl e \<in> set as \<and> e \<noteq> EINTR"
          "log' = (log @ [Sys_read len]) @ l" "\<forall>c \<in> set l. \<exists>n. c = Sys_read n"
          by auto
        have "set (take len bs @ q) \<subseteq> answer_bytes (a # as)" using *(3) Inr set_take_subset [of len bs] by auto
        then show ?thesis using *
          by (intro conjI exI [of _ "take len bs @ q"] exI [of _ "Sys_read len # l"]) (auto split: sum.splits)
      qed
    qed
  qed
qed

lemma rand_fetch_spec:
  assumes "rand_fetch len strong k = Some ((ret, bs), k')"
  shows "length bs \<le> len \<and> set bs \<subseteq> answer_bytes (getrandom_answers k) \<union> answer_bytes (read_answers k) \<and>
    (case ret of
       Inr _ \<Rightarrow> length bs = len
     | Inl e \<Rightarrow> (\<exists>os. open_answers k = Some e # os) \<or> e = EAGAIN \<or> Inl e \<in> set (read_answers k) \<and> e \<noteq> EINTR)"
proof -
  obtain n p as log where g: "getrandom_loop strong len [] (getrandom_answers k) (calls k) = Some (n, p, as, log)"
    using assms by (cases "getrandom_loop strong len [] (getrandom_answers k) (calls k)") (auto simp: rand_fetch_def)
  have p: "length p + n = len" "set p \<subseteq> answer_bytes (getrandom_answers k)"
    using getrandom_loop_spec [OF g] by auto
  show ?thesis
  proof (cases "n = 0")
    case True
    then show ?thesis using assms g p by (auto simp: rand_fetch_def)
  next
    case False
    then obtain o' os where o: "open_answers k = o' # os"
      using assms g by (cases "open_answers k") (auto simp: rand_fetch_def)
    show ?thesis
    proof (cases o')
      case (Some e)
      then show ?thesis using assms g p o False by (auto simp: rand_fetch_def)
    next
      case None
      then obtain as' log' log'' where r: "read_loop n p (read_answers k) log'' = Some (ret, bs, as', log')"
        using assms g o False by (auto simp: rand_fetch_def Let_def bind_eq_Some_conv split: prod.splits)
      show ?thesis using read_loop_spec [OF r] p by (auto split: sum.splits)
    qed
  qed
qed

subsection \<open>The pool as a stream with fast key erasure\<close>

text \<open>
  The abstract pool: the bytes that are still available and the generator.  Reloading appends
  keystream up to 512 bytes and spends the first 44 of them on the generator's next key.
\<close>

type_synonym apool = "u8 list \<times> u32 list"

definition spec_reload :: "apool \<Rightarrow> apool" where
  "spec_reload st = (let all = fst st @ fst (chacha_keystream (512 - length (fst st)) (snd st))
     in (drop 44 all, chacha_init (take 44 all)))"

definition spec_need :: "nat \<Rightarrow> apool \<Rightarrow> apool" where
  "spec_need n st = (if n \<le> length (fst st) then st else spec_reload st)"

definition spec_take :: "nat \<Rightarrow> apool \<Rightarrow> u8 list \<times> apool" where
  "spec_take n st = (take n (fst st), drop n (fst st), snd st)"

definition spec_rand :: "nat \<Rightarrow> apool \<Rightarrow> u8 list \<times> apool" where
  "spec_rand len st =
    (if len < 468 then spec_take len (spec_need len st)
     else let (key, st) = spec_take 44 (spec_need 44 st) in (fst (chacha_keystream len (chacha_init key)), st))"

definition pool_abs :: "pool \<Rightarrow> apool" where
  "pool_abs p = (drop (512 - available p) (buffer p), chacha p)"

text \<open>
  Well-formed pools: sizes, and that the bytes in front of the available ones are erased (unless
  the pool was just seeded, when the next request overwrites the whole buffer).
\<close>

definition erased :: "pool \<Rightarrow> bool" where
  "erased p \<longleftrightarrow> take (512 - available p) (buffer p) = replicate (512 - available p) 0"

definition pool_ok :: "pool \<Rightarrow> bool" where
  "pool_ok p \<longleftrightarrow> length (chacha p) = 16 \<and> length (buffer p) = 512 \<and> available p \<le> 512 \<and>
     (available p = 0 \<or> erased p)"

lemma pool_abs_length: "pool_ok p \<Longrightarrow> length (fst (pool_abs p)) = available p"
  by (simp add: pool_ok_def pool_abs_def)

lemma pool_buffer_get_eq: "pool_ok p \<Longrightarrow> len \<le> available p \<Longrightarrow> pool_buffer_get len p = Some (512 - available p)"
  by (simp add: pool_buffer_get_def pool_ok_def)

lemma pool_read_front: "pool_ok p \<Longrightarrow> len \<le> available p \<Longrightarrow>
    mem_read (512 - available p) len (buffer p) = fst (spec_take len (pool_abs p))"
  by (simp add: mem_read_def spec_take_def pool_abs_def)

text \<open>Only the sizes are needed to hand out bytes; it is the whole erased prefix that grows.\<close>

lemma pool_consume:
  assumes "length (chacha p) = 16" "length (buffer p) = 512" "available p \<le> 512" "len \<le> available p"
    and "available p \<noteq> 0 \<Longrightarrow> erased p"
  obtains p' where "pool_buffer_consume (512 - available p) len p = Some p'" "pool_ok p'"
    "pool_abs p' = snd (spec_take len (pool_abs p))" "era p' = era p" "chacha p' = chacha p"
    "available p' = available p - len" "available p \<noteq> 0 \<longrightarrow> erased p'"
proof -
  let ?b = "mem_write (512 - available p) (replicate len 0) (buffer p)"
  define p' where "p' = p\<lparr>buffer := ?b, available := available p - len\<rparr>"
  have "pool_buffer_consume (512 - available p) len p = Some p'"
    using assms by (simp add: pool_buffer_consume_def p'_def)
  moreover have b: "?b = take (512 - available p) (buffer p) @ replicate len 0 @ drop (512 - available p + len) (buffer p)"
    by (simp add: mem_write_def)
  have l: "512 - (available p - len) = 512 - available p + len" using assms by simp
  have er: "erased p'" if nz: "available p \<noteq> 0"
  proof -
    have "take (512 - available p + len) ?b = replicate (512 - available p + len) 0"
      unfolding b using assms(5) [OF nz] assms(2-4) by (simp add: erased_def flip: replicate_add)
    then show ?thesis using assms(1-4) by (simp add: erased_def p'_def l)
  qed
  have "pool_ok p'"
    using er assms(1-4) by (cases "available p = 0") (simp_all add: pool_ok_def p'_def)
  moreover have "pool_abs p' = snd (spec_take len (pool_abs p))"
    unfolding pool_abs_def p'_def spec_take_def using assms(2-4) by (simp add: l b add_ac)
  ultimately show thesis using that [of p'] er by (simp add: p'_def)
qed

lemma pool_reload_spec:
  assumes "pool_ok p"
  obtains p' where "pool_reload p = Some p'" "pool_ok p'" "pool_abs p' = spec_reload (pool_abs p)"
    "era p' = era p" "available p' = 468"
proof -
  have ok: "length (chacha p) = 16" "length (buffer p) = 512" "available p \<le> 512"
    using assms by (auto simp: pool_ok_def)
  define n where "n = 512 - available p"
  obtain ks x where ks: "chacha_keystream n (chacha p) = (ks, x)" by (cases "chacha_keystream n (chacha p)")
  have len: "length ks = n" using length_chacha_keystream [OF ok(1), of n] ks by simp
  define rest where "rest = drop n (buffer p)"
  have rest: "length rest = available p" using ok by (simp add: rest_def n_def)
  have "mem_read n (available p) (buffer p) = rest" using rest by (simp add: mem_read_def rest_def)
  moreover have "mem_write (available p) ks (mem_write 0 rest (buffer p)) = rest @ ks"
    using ok rest len by (simp add: mem_write_def n_def)
  moreover define q where "q = p\<lparr>buffer := rest @ ks, available := 512, chacha := chacha_init (take 44 (rest @ ks))\<rparr>"
  ultimately have run: "pool_reload p = pool_buffer_consume 0 44 q"
    using ok ks by (simp add: pool_reload_def pool_buffer_get_def CHACHA_KEY_NONCE_SIZE_def CHACHA_KEY_SIZE_def
        CHACHA_NONCE_SIZE_def mem_read_def q_def Let_def flip: n_def)
  have q: "length (chacha q) = 16" "length (buffer q) = 512" "available q = 512"
    using ok rest len by (simp_all add: q_def n_def)
  obtain p' where p': "pool_buffer_consume (512 - available q) 44 q = Some p'" "pool_ok p'"
    "pool_abs p' = snd (spec_take 44 (pool_abs q))" "era p' = era q" "chacha p' = chacha q"
    "available p' = available q - 44"
    by (rule pool_consume [of q 44]) (use q in \<open>auto simp: erased_def\<close>)
  have "pool_abs p' = spec_reload (pool_abs p)"
    using p'(3) rest by (simp add: spec_reload_def spec_take_def pool_abs_def q_def ks Let_def flip: n_def rest_def)
  then show thesis using that [of p'] p' run by (simp add: q_def)
qed

lemma pool_need_spec:
  assumes "pool_ok p" "n \<le> 468"
  obtains p' where "pool_reload_if_needed n p = Some p'" "pool_ok p'" "pool_abs p' = spec_need n (pool_abs p)"
    "era p' = era p" "n \<le> available p'"
proof (cases "n \<le> available p")
  case True
  then show thesis using that [of p] assms by (simp add: pool_reload_if_needed_def spec_need_def pool_abs_length)
next
  case False
  obtain p' where "pool_reload p = Some p'" "pool_ok p'" "pool_abs p' = spec_reload (pool_abs p)"
    "era p' = era p" "available p' = 468"
    by (rule pool_reload_spec [OF assms(1)])
  then show thesis using that [of p'] False assms
    by (simp add: pool_reload_if_needed_def spec_need_def pool_abs_length)
qed

lemma pool_take_spec:
  assumes "pool_ok p" "n \<le> available p"
  obtains p' where "pool_buffer_consume (512 - available p) n p = Some p'" "pool_ok p'"
    "pool_abs p' = snd (spec_take n (pool_abs p))" "era p' = era p" "available p \<noteq> 0 \<longrightarrow> erased p'"
  by (rule pool_consume [of p n]) (use assms that in \<open>auto simp: pool_ok_def\<close>)

lemma pool_stir_spec:
  assumes "pool_ok p" "468 \<le> len"
  obtains p' where "pool_stir len p = Some (fst (spec_rand len (pool_abs p)), p')" "pool_ok p'"
    "pool_abs p' = snd (spec_rand len (pool_abs p))" "era p' = era p" "erased p'"
proof -
  obtain p1 where 1: "pool_reload_if_needed 44 p = Some p1" "pool_ok p1" "pool_abs p1 = spec_need 44 (pool_abs p)"
    "era p1 = era p" "44 \<le> available p1"
    by (rule pool_need_spec [OF assms(1), of 44]) auto
  obtain p2 where 2: "pool_buffer_consume (512 - available p1) 44 p1 = Some p2" "pool_ok p2"
    "pool_abs p2 = snd (spec_take 44 (pool_abs p1))" "era p2 = era p1" "available p1 \<noteq> 0 \<longrightarrow> erased p2"
    by (rule pool_take_spec [OF 1(2,5)])
  have "pool_stir len p = Some (fst (spec_rand len (pool_abs p)), p2)"
    using 1 2(1) assms pool_buffer_get_eq [OF 1(2,5)] pool_read_front [OF 1(2,5)]
    by (simp add: pool_stir_def CHACHA_KEY_NONCE_SIZE_def CHACHA_KEY_SIZE_def CHACHA_NONCE_SIZE_def spec_rand_def
        case_prod_beta)
  then show thesis using that [of p2] 1 2 assms(2) by (simp add: spec_rand_def case_prod_beta)
qed

lemma length_spec_rand:
  assumes "pool_ok p"
  shows "length (fst (spec_rand len (pool_abs p))) = len"
proof (cases "len < 468")
  case True
  obtain p1 where "pool_ok p1" "pool_abs p1 = spec_need len (pool_abs p)" "len \<le> available p1"
    using pool_need_spec [OF assms, of len] True by (metis less_imp_le_nat)
  then show ?thesis using True pool_abs_length [of p1] by (simp add: spec_rand_def spec_take_def)
next
  case False
  then show ?thesis using length_chacha_keystream [of "chacha_init k" len for k]
    by (simp add: spec_rand_def spec_take_def)
qed

text \<open>A request served by a pool of the current era.\<close>

lemma pool_rand_seeded:
  assumes "pool_ok (pool s)" "era (pool s) = seed_era s"
  obtains p' where "pool_rand len s = Some (fst (spec_rand len (pool_abs (pool s))), s\<lparr>pool := p'\<rparr>)" "pool_ok p'"
    "pool_abs p' = snd (spec_rand len (pool_abs (pool s)))" "era p' = seed_era s" "len \<noteq> 0 \<longrightarrow> erased p'"
proof -
  have seed: "pool_seed_if_needed s = Some s" using assms(2) by (simp add: pool_seed_if_needed_def pool_seed_era_def)
  have c: "512 - CHACHA_KEY_NONCE_SIZE = 468"
    by (simp add: CHACHA_KEY_NONCE_SIZE_def CHACHA_KEY_SIZE_def CHACHA_NONCE_SIZE_def)
  show thesis
  proof (cases "len < 468")
    case False
    then have "468 \<le> len" by simp
    then obtain p' where "pool_stir len (pool s) = Some (fst (spec_rand len (pool_abs (pool s))), p')" "pool_ok p'"
      "pool_abs p' = snd (spec_rand len (pool_abs (pool s)))" "era p' = era (pool s)" "erased p'"
      by (rule pool_stir_spec [OF assms(1)])
    then show thesis using that [of p'] seed False assms(2) by (simp add: pool_rand_def c)
  next
    case True
    obtain p1 where 1: "pool_reload_if_needed len (pool s) = Some p1" "pool_ok p1"
      "pool_abs p1 = spec_need len (pool_abs (pool s))" "era p1 = era (pool s)" "len \<le> available p1"
      using pool_need_spec [OF assms(1), of len] True by (metis less_imp_le_nat)
    obtain p2 where 2: "pool_buffer_consume (512 - available p1) len p1 = Some p2" "pool_ok p2"
      "pool_abs p2 = snd (spec_take len (pool_abs p1))" "era p2 = era p1" "available p1 \<noteq> 0 \<longrightarrow> erased p2"
      by (rule pool_take_spec [OF 1(2,5)])
    have "pool_rand len s = Some (fst (spec_rand len (pool_abs (pool s))), s\<lparr>pool := p2\<rparr>)"
      using seed True 1 2(1) pool_buffer_get_eq [OF 1(2,5)] pool_read_front [OF 1(2,5)]
      by (simp add: pool_rand_def c spec_rand_def)
    then show thesis using that [of p2] 1 2 True assms(2) by (simp add: spec_rand_def)
  qed
qed

text \<open>Seeding: the abstract pool is empty and the generator keyed with the 44 fetched bytes.\<close>

lemma pool_seed_eq:
  "pool_seed e s = (case rand_fetch 44 False (kern s) of
     None \<Rightarrow> None
   | Some ((Inl x, key), k) \<Rightarrow> Some (Inl x, s\<lparr>kern := k\<rparr>)
   | Some ((Inr _, key), k) \<Rightarrow> Some (Inr (), s\<lparr>kern := k,
       pool := (pool s)\<lparr>chacha := chacha_init key, era := e, available := 0\<rparr>\<rparr>))"
  by (simp add: pool_seed_def CHACHA_KEY_NONCE_SIZE_def CHACHA_KEY_SIZE_def CHACHA_NONCE_SIZE_def
      split: option.split prod.split sum.split)

lemma pool_ok_seeded: "pool_ok p \<Longrightarrow> pool_ok (p\<lparr>chacha := chacha_init key, era := e, available := 0\<rparr>)"
  by (simp add: pool_ok_def)

lemma pool_rand_unseeded:
  "era (pool s) \<noteq> seed_era s \<Longrightarrow> pool_rand len s = (case rand_fetch 44 False (kern s) of
     None \<Rightarrow> None
   | Some ((Inl x, key), k) \<Rightarrow> None
   | Some ((Inr _, key), k) \<Rightarrow> pool_rand len (s\<lparr>kern := k,
       pool := (pool s)\<lparr>chacha := chacha_init key, era := seed_era s, available := 0\<rparr>\<rparr>))"
  by (simp add: pool_rand_def pool_seed_if_needed_def pool_seed_era_def pool_seed_eq
      split: option.split prod.split sum.split)

subsection \<open>The states a thread can reach\<close>

text \<open>Requests and reseeds of this thread, and reseeds by other threads, in any order.\<close>

inductive rng_step :: "rng \<Rightarrow> rng \<Rightarrow> bool" where
  step_rand: "pool_rand len s = Some (bytes, s') \<Longrightarrow> rng_step s s'"
| step_reseed: "futils_random_reseed s = Some (ret, s') \<Longrightarrow> rng_step s s'"
| step_other: "rng_step s (other_thread_reseed s)"

definition rng_inv :: "rng \<Rightarrow> bool" where
  "rng_inv s \<longleftrightarrow> pool_ok (pool s) \<and> odd (seed_era s) \<and>
     (era (pool s) = 0 \<and> pool s = pool_static \<or> odd (era (pool s)))"

lemma rng_inv_start: "rng_inv (rng_start k)"
  by (simp add: rng_inv_def rng_start_def pool_static_def pool_ok_def)

lemma rand_fetch_key_length: "rand_fetch 44 st k = Some ((Inr u, key), k') \<Longrightarrow> length key = 44"
  using rand_fetch_spec by fastforce

lemma pool_rand_inv:
  assumes "pool_ok (pool s)" "pool_rand len s = Some (bytes, s')"
  shows "pool_ok (pool s') \<and> era (pool s') = seed_era s \<and> seed_era s' = seed_era s \<and> length bytes = len"
proof (cases "era (pool s) = seed_era s")
  case True
  obtain p' where "pool_rand len s = Some (fst (spec_rand len (pool_abs (pool s))), s\<lparr>pool := p'\<rparr>)" "pool_ok p'"
    "era p' = seed_era s"
    by (rule pool_rand_seeded [OF assms(1) True])
  then show ?thesis using assms(2) length_spec_rand [OF assms(1), of len] by auto
next
  case False
  then obtain key k u where f: "rand_fetch 44 False (kern s) = Some ((Inr u, key), k)"
    "pool_rand len (s\<lparr>kern := k, pool := (pool s)\<lparr>chacha := chacha_init key, era := seed_era s, available := 0\<rparr>\<rparr>)
      = Some (bytes, s')"
    using assms(2) pool_rand_unseeded [OF False, of len] by (auto split: option.splits prod.splits sum.splits)
  let ?s = "s\<lparr>kern := k, pool := (pool s)\<lparr>chacha := chacha_init key, era := seed_era s, available := 0\<rparr>\<rparr>"
  have ok: "pool_ok (pool ?s)" "era (pool ?s) = seed_era ?s" using pool_ok_seeded [OF assms(1)] by simp_all
  obtain p' where "pool_rand len ?s = Some (fst (spec_rand len (pool_abs (pool ?s))), ?s\<lparr>pool := p'\<rparr>)" "pool_ok p'"
    "era p' = seed_era ?s"
    by (rule pool_rand_seeded [OF ok])
  then show ?thesis using f(2) length_spec_rand [OF ok(1), of len] by auto
qed

lemma rng_step_inv: "rng_step s s' \<Longrightarrow> rng_inv s \<Longrightarrow> rng_inv s'"
proof (induction rule: rng_step.induct)
  case (step_rand len s bytes s')
  then show ?case using pool_rand_inv [of s len bytes s'] by (simp add: rng_inv_def)
next
  case (step_reseed s ret s')
  then have "pool_seed (seed_era s + 2) (s\<lparr>seed_era := seed_era s + 2\<rparr>) = Some (ret, s')"
    by (simp add: futils_random_reseed_def pool_reseed_def pool_seed_era_new_def)
  then show ?case using step_reseed(2)
    by (auto simp: pool_seed_eq rng_inv_def pool_ok_seeded split: option.splits prod.splits sum.splits)
next
  case (step_other s)
  then show ?case by (simp add: other_thread_reseed_def pool_seed_era_new_def rng_inv_def)
qed

subsection \<open>Properties\<close>

text \<open>Samples: a kernel that answers with zero bytes, and the seeded pool it gives.\<close>

definition sample_kernel :: kernel where
  "sample_kernel = \<lparr>getrandom_answers = [Inl EINTR, Inr (replicate 40 7), Inr (replicate 40 9)], open_answers = [],
     read_answers = [], calls = []\<rparr>"

lemma sample_fetch: "rand_fetch 44 False sample_kernel = Some ((Inr (), replicate 40 7 @ replicate 4 9),
    \<lparr>getrandom_answers = [], open_answers = [], read_answers = [],
     calls = [Sys_getrandom 44 False, Sys_getrandom 44 False, Sys_getrandom 4 False]\<rparr>)"
  by (simp add: rand_fetch_def sample_kernel_def Let_def)

text \<open>
  The strong generator: success fills exactly the \<open>len\<close> requested bytes with bytes
  the system delivered and leaves the rest of the buffer alone; a failure reports what \<open>open\<close> or
  \<open>read\<close> reported, or \<open>EAGAIN\<close> at the end of the device, and an interrupted read is never
  reported.  \<open>NULL\<close> and length 0 are refused without a system call.
\<close>

theorem random_strong_correct:
  assumes "futils_random_strong b len k = Some ((ret, b'), k')"
  shows "(b = None \<or> len = 0 \<longrightarrow> ret = Inl EINVAL \<and> b' = b \<and> k' = k) \<and>
    (\<forall>m. b = Some m \<and> 0 < len \<longrightarrow>
      (\<exists>m'. b' = Some m' \<and> length m' = length m \<and> drop len m' = drop len m \<and>
        (case ret of
           Inr _ \<Rightarrow> len \<le> length m \<and>
             set (take len m') \<subseteq> answer_bytes (getrandom_answers k) \<union> answer_bytes (read_answers k)
         | Inl e \<Rightarrow> (\<exists>os. open_answers k = Some e # os) \<or> e = EAGAIN \<or>
             Inl e \<in> set (read_answers k) \<and> e \<noteq> EINTR)))"
proof (cases "b = None \<or> len = 0")
  case True
  then show ?thesis using assms by (auto simp: futils_random_strong_def split: option.splits)
next
  case False
  then obtain m where m: "b = Some m" "0 < len" by auto
  obtain bs where f: "rand_fetch len True k = Some ((ret, bs), k')" "length bs \<le> length m" "b' = Some (mem_write 0 bs m)"
    using assms m by (auto simp: futils_random_strong_def bind_eq_Some_conv split: if_splits)
  have l: "length bs \<le> len" using rand_fetch_spec [OF f(1)] by simp
  have "drop len (mem_write 0 bs m) = drop len m" using l f(2) by (simp add: mem_write_def)
  then show ?thesis using rand_fetch_spec [OF f(1)] f m by (auto simp: mem_write_def split: sum.splits)
qed

lemma random_strong_correct_witness:
  "\<exists>b' k'. futils_random_strong (Some (replicate 50 1)) 45 sample_kernel = Some ((Inr (), Some b'), k') \<and>
    drop 45 b' = replicate 5 1"
proof -
  let ?b = "replicate 40 7 @ replicate 5 9 @ replicate 5 (1 :: u8)"
  have e: "futils_random_strong (Some (replicate 50 1)) 45 sample_kernel = Some ((Inr (), Some ?b),
    \<lparr>getrandom_answers = [], open_answers = [], read_answers = [],
     calls = [Sys_getrandom 45 True, Sys_getrandom 45 True, Sys_getrandom 5 True]\<rparr>)"
    by (simp add: futils_random_strong_def rand_fetch_def sample_kernel_def mem_write_def Let_def)
  show ?thesis using random_strong_correct [OF e] e by auto
qed

text \<open>
  Property C2.  Every request to a well-formed pool returns exactly the bytes of the abstract
  stream (keystream, keyed from the first 44 bytes of every refill) and leaves a well-formed pool
  of the current era in which the bytes handed out are erased.  When the pool belongs to an old
  era it is first keyed with 44 fresh bytes of the system; the request does not return only when
  that fetch fails, so no assertion ever fails.
\<close>

theorem pool_rand_refines_stream:
  assumes "pool_ok (pool s)"
  shows "case (if era (pool s) = seed_era s then Some (pool_abs (pool s), kern s)
        else (case rand_fetch 44 False (kern s) of
            Some ((Inr _, key), k) \<Rightarrow> Some (([], chacha_init key), k) | _ \<Rightarrow> None)) of
      None \<Rightarrow> pool_rand len s = None
    | Some (st, k) \<Rightarrow> \<exists>s'. pool_rand len s = Some (fst (spec_rand len st), s') \<and>
        length (fst (spec_rand len st)) = len \<and> pool_abs (pool s') = snd (spec_rand len st) \<and>
        pool_ok (pool s') \<and> era (pool s') = seed_era s' \<and> seed_era s' = seed_era s \<and> kern s' = k \<and>
        (len \<noteq> 0 \<longrightarrow> take (512 - available (pool s')) (buffer (pool s')) = replicate (512 - available (pool s')) 0)"
proof (cases "era (pool s) = seed_era s")
  case True
  obtain p' where "pool_rand len s = Some (fst (spec_rand len (pool_abs (pool s))), s\<lparr>pool := p'\<rparr>)" "pool_ok p'"
    "pool_abs p' = snd (spec_rand len (pool_abs (pool s)))" "era p' = seed_era s" "len \<noteq> 0 \<longrightarrow> erased p'"
    by (rule pool_rand_seeded [OF assms True])
  then show ?thesis using True length_spec_rand [OF assms, of len]
    by (simp add: erased_def exI [of _ "s\<lparr>pool := p'\<rparr>"])
next
  case False
  show ?thesis
  proof (cases "\<exists>u key k. rand_fetch 44 False (kern s) = Some ((Inr u, key), k)")
    case True
    then obtain u key k where f: "rand_fetch 44 False (kern s) = Some ((Inr u, key), k)" by blast
    let ?s = "s\<lparr>kern := k, pool := (pool s)\<lparr>chacha := chacha_init key, era := seed_era s, available := 0\<rparr>\<rparr>"
    have ok: "pool_ok (pool ?s)" "era (pool ?s) = seed_era ?s" using pool_ok_seeded [OF assms] by simp_all
    have "pool_abs (pool ?s) = ([], chacha_init key)" using assms by (simp add: pool_abs_def pool_ok_def)
    moreover have "pool_rand len s = pool_rand len ?s" using f by (simp add: pool_rand_unseeded [OF False])
    moreover obtain p' where "pool_rand len ?s = Some (fst (spec_rand len (pool_abs (pool ?s))), ?s\<lparr>pool := p'\<rparr>)"
      "pool_ok p'" "pool_abs p' = snd (spec_rand len (pool_abs (pool ?s)))" "era p' = seed_era ?s"
      "len \<noteq> 0 \<longrightarrow> erased p'"
      by (rule pool_rand_seeded [OF ok])
    ultimately show ?thesis using False f length_spec_rand [OF ok(1), of len]
      by (simp add: erased_def exI [of _ "?s\<lparr>pool := p'\<rparr>"])
  next
    case none: False
    then have "pool_rand len s = None"
      by (auto simp: pool_rand_unseeded [OF False] split: option.split prod.split sum.split)
    then show ?thesis using False none by (auto split: option.split prod.split sum.split)
  qed
qed

lemma pool_rand_refines_stream_witness:
  "\<exists>s'. pool_rand 100 (rng_start sample_kernel) =
     Some (fst (spec_rand 100 ([], chacha_init (replicate 40 7 @ replicate 4 9))), s') \<and> pool_ok (pool s')"
proof -
  have "pool_ok (pool (rng_start sample_kernel))" "era (pool (rng_start sample_kernel)) \<noteq> seed_era (rng_start sample_kernel)"
    "kern (rng_start sample_kernel) = sample_kernel"
    by (simp_all add: rng_start_def pool_static_def pool_ok_def)
  then show ?thesis using pool_rand_refines_stream [of "rng_start sample_kernel" 100] sample_fetch by auto
qed

text \<open>
  Property C31.  In every state a thread can reach from program start, with any interleaving of its
  requests and reseeds and of reseeds by other threads, the pool is well formed, the seed era is
  odd, and a pool that was never seeded is not of the current era: it cannot serve a request
  before it is seeded.
\<close>

theorem rng_reachable_inv:
  assumes "rng_step\<^sup>*\<^sup>* (rng_start k) s"
  shows "pool_ok (pool s) \<and> odd (seed_era s) \<and>
    (era (pool s) = 0 \<longrightarrow> pool s = pool_static \<and> era (pool s) \<noteq> pool_seed_era s)"
proof -
  have "rng_inv s" using assms by (induction rule: rtranclp_induct) (auto intro: rng_inv_start rng_step_inv)
  then show ?thesis by (auto simp: rng_inv_def pool_seed_era_def)
qed

lemma rng_reachable_inv_witness:
  "pool_ok (pool (other_thread_reseed (rng_start sample_kernel))) \<and>
   odd (seed_era (other_thread_reseed (rng_start sample_kernel)))"
proof -
  have "rng_step\<^sup>*\<^sup>* (rng_start sample_kernel) (other_thread_reseed (rng_start sample_kernel))"
    by (rule r_into_rtranclp) (rule step_other)
  from rng_reachable_inv [OF this] show ?thesis by simp
qed

end
