(* ===== verification/RandMax.thy ===== *)
theory RandMax
  imports Pool Complex_Main
begin

text \<open>
  Component \<open>random\<close>, third part (src/src/random.c, src/include/futils/random.h): integers of all
  widths from the pool, integers up to a maximum by rejection, and the public functions around
  them.  A value whose bytes the code copies from the pool is read little-endian, as on the
  library's targets.
\<close>

subsection \<open>Bit tricks\<close>

definition p2minus1 :: "u64 \<Rightarrow> u64" where
  "p2minus1 v =
    (let v = v OR drop_bit 1 v;
         v = v OR drop_bit 2 v;
         v = v OR drop_bit 4 v;
         v = v OR drop_bit 8 v;
         v = v OR drop_bit 16 v;
         v = v OR drop_bit 32 v
     in v)"

text \<open>One step of \<open>ilog2plus1\<close> on its variables \<open>r\<close> and \<open>v\<close>: \<open>if (v >= 1 << k) { r += d; v >>= d; }\<close>.\<close>

definition ilog_block :: "nat \<Rightarrow> nat \<Rightarrow> nat \<times> u64 \<Rightarrow> nat \<times> u64" where
  "ilog_block k d p = (if snd p \<ge> push_bit k 1 then (fst p + d, drop_bit d (snd p)) else p)"

definition ilog2plus1 :: "u64 \<Rightarrow> nat" where
  "ilog2plus1 v =
    (let p = (0, v);
         p = ilog_block 32 33 p;
         p = ilog_block 16 17 p;
         p = ilog_block 8 9 p;
         p = ilog_block 4 5 p;
         p = ilog_block 2 3 p;
         p = ilog_block 1 2 p;
         p = ilog_block 0 1 p
     in fst p)"

subsection \<open>Integers from the pool\<close>

text \<open>The number whose little-endian bytes are given.\<close>

fun le_value :: "u8 list \<Rightarrow> nat" where
  "le_value [] = 0"
| "le_value (b # bs) = unat b + 256 * le_value bs"

definition pool_rand8 :: "rng \<Rightarrow> (u8 \<times> rng) option" where
  "pool_rand8 s = do { (b, s) \<leftarrow> pool_rand 1 s; Some (of_nat (le_value b), s) }"

definition pool_rand16 :: "rng \<Rightarrow> (u16 \<times> rng) option" where
  "pool_rand16 s = do { (b, s) \<leftarrow> pool_rand 2 s; Some (of_nat (le_value b), s) }"

definition pool_rand24 :: "rng \<Rightarrow> (u32 \<times> rng) option" where
  "pool_rand24 s = do {
     (b, s) \<leftarrow> pool_rand 3 s;
     let val = 0;
     let val = val OR push_bit 0 (ucast (b ! 0));
     let val = val OR push_bit 8 (ucast (b ! 1));
     let val = val OR push_bit 16 (ucast (b ! 2));
     Some (val, s) }"

definition pool_rand32 :: "rng \<Rightarrow> (u32 \<times> rng) option" where
  "pool_rand32 s = do { (b, s) \<leftarrow> pool_rand 4 s; Some (of_nat (le_value b), s) }"

definition pool_rand40 :: "rng \<Rightarrow> (u64 \<times> rng) option" where
  "pool_rand40 s = do {
     (b, s) \<leftarrow> pool_rand 5 s;
     let val = 0;
     let val = val OR push_bit 0 (ucast (b ! 0));
     let val = val OR push_bit 8 (ucast (b ! 1));
     let val = val OR push_bit 16 (ucast (b ! 2));
     let val = val OR push_bit 24 (ucast (b ! 3));
     let val = val OR push_bit 32 (ucast (b ! 4));
     Some (val, s) }"

definition pool_rand48 :: "rng \<Rightarrow> (u64 \<times> rng) option" where
  "pool_rand48 s = do {
     (b, s) \<leftarrow> pool_rand 6 s;
     let val = 0;
     let val = val OR push_bit 0 (ucast (b ! 0));
     let val = val OR push_bit 8 (ucast (b ! 1));
     let val = val OR push_bit 16 (ucast (b ! 2));
     let val = val OR push_bit 24 (ucast (b ! 3));
     let val = val OR push_bit 32 (ucast (b ! 4));
     let val = val OR push_bit 40 (ucast (b ! 5));
     Some (val, s) }"

definition pool_rand56 :: "rng \<Rightarrow> (u64 \<times> rng) option" where
  "pool_rand56 s = do {
     (b, s) \<leftarrow> pool_rand 7 s;
     let val = 0;
     let val = val OR push_bit 0 (ucast (b ! 0));
     let val = val OR push_bit 8 (ucast (b ! 1));
     let val = val OR push_bit 16 (ucast (b ! 2));
     let val = val OR push_bit 24 (ucast (b ! 3));
     let val = val OR push_bit 32 (ucast (b ! 4));
     let val = val OR push_bit 40 (ucast (b ! 5));
     let val = val OR push_bit 48 (ucast (b ! 6));
     Some (val, s) }"

definition pool_rand64 :: "rng \<Rightarrow> (u64 \<times> rng) option" where
  "pool_rand64 s = do { (b, s) \<leftarrow> pool_rand 8 s; Some (of_nat (le_value b), s) }"

subsection \<open>Integers up to a maximum\<close>

text \<open>The rejection loop of the macro \<open>_pool_rand_maximum\<close>; it may run forever.\<close>

partial_function (option) rand_maximum_loop ::
    "(rng \<Rightarrow> ('a::len word \<times> rng) option) \<Rightarrow> 'a word \<Rightarrow> 'a word \<Rightarrow> rng \<Rightarrow> ('a word \<times> rng) option" where
  "rand_maximum_loop draw maximum msk s = do {
     (out, s) \<leftarrow> draw s;
     let out = out AND msk;
     if out > maximum then rand_maximum_loop draw maximum msk s else Some (out, s) }"

definition raw_pool_rand8_maximum :: "u8 \<Rightarrow> u8 \<Rightarrow> rng \<Rightarrow> (u8 \<times> rng) option" where
  "raw_pool_rand8_maximum = rand_maximum_loop pool_rand8"

definition raw_pool_rand16_maximum :: "u16 \<Rightarrow> u16 \<Rightarrow> rng \<Rightarrow> (u16 \<times> rng) option" where
  "raw_pool_rand16_maximum = rand_maximum_loop pool_rand16"

definition raw_pool_rand24_maximum :: "u32 \<Rightarrow> u32 \<Rightarrow> rng \<Rightarrow> (u32 \<times> rng) option" where
  "raw_pool_rand24_maximum = rand_maximum_loop pool_rand24"

definition raw_pool_rand32_maximum :: "u32 \<Rightarrow> u32 \<Rightarrow> rng \<Rightarrow> (u32 \<times> rng) option" where
  "raw_pool_rand32_maximum = rand_maximum_loop pool_rand32"

definition raw_pool_rand40_maximum :: "u64 \<Rightarrow> u64 \<Rightarrow> rng \<Rightarrow> (u64 \<times> rng) option" where
  "raw_pool_rand40_maximum = rand_maximum_loop pool_rand40"

definition raw_pool_rand48_maximum :: "u64 \<Rightarrow> u64 \<Rightarrow> rng \<Rightarrow> (u64 \<times> rng) option" where
  "raw_pool_rand48_maximum = rand_maximum_loop pool_rand48"

definition raw_pool_rand56_maximum :: "u64 \<Rightarrow> u64 \<Rightarrow> rng \<Rightarrow> (u64 \<times> rng) option" where
  "raw_pool_rand56_maximum = rand_maximum_loop pool_rand56"

definition raw_pool_rand64_maximum :: "u64 \<Rightarrow> u64 \<Rightarrow> rng \<Rightarrow> (u64 \<times> rng) option" where
  "raw_pool_rand64_maximum = rand_maximum_loop pool_rand64"

definition pool_rand8_maximum :: "u8 \<Rightarrow> rng \<Rightarrow> (u8 \<times> rng) option" where
  "pool_rand8_maximum maximum s =
    (let msk = ucast (p2minus1 (ucast maximum)) in raw_pool_rand8_maximum maximum msk s)"

text \<open>The implicit conversions of a narrower result; the last branch is \<open>abort()\<close>.\<close>

definition pool_rand16_maximum :: "u16 \<Rightarrow> rng \<Rightarrow> (u16 \<times> rng) option" where
  "pool_rand16_maximum maximum s =
    (let msk = ucast (p2minus1 (ucast maximum)) :: u16;
         count = (ilog2plus1 (ucast msk) + 7) div 8 in
     if count = 0 then Some (0, s)
     else if count = 1 then map_option (apfst ucast) (raw_pool_rand8_maximum (ucast maximum) (ucast msk) s)
     else if count = 2 then raw_pool_rand16_maximum maximum msk s
     else None)"

definition pool_rand32_maximum :: "u32 \<Rightarrow> rng \<Rightarrow> (u32 \<times> rng) option" where
  "pool_rand32_maximum maximum s =
    (let msk = ucast (p2minus1 (ucast maximum)) :: u32;
         count = (ilog2plus1 (ucast msk) + 7) div 8 in
     if count = 0 then Some (0, s)
     else if count = 1 then map_option (apfst ucast) (raw_pool_rand8_maximum (ucast maximum) (ucast msk) s)
     else if count = 2 then map_option (apfst ucast) (raw_pool_rand16_maximum (ucast maximum) (ucast msk) s)
     else if count = 3 then raw_pool_rand24_maximum maximum msk s
     else if count = 4 then raw_pool_rand32_maximum maximum msk s
     else None)"

definition pool_rand64_maximum :: "u64 \<Rightarrow> rng \<Rightarrow> (u64 \<times> rng) option" where
  "pool_rand64_maximum maximum s =
    (let msk = p2minus1 maximum;
         count = (ilog2plus1 msk + 7) div 8 in
     if count = 0 then Some (0, s)
     else if count = 1 then map_option (apfst ucast) (raw_pool_rand8_maximum (ucast maximum) (ucast msk) s)
     else if count = 2 then map_option (apfst ucast) (raw_pool_rand16_maximum (ucast maximum) (ucast msk) s)
     else if count = 3 then map_option (apfst ucast) (raw_pool_rand24_maximum (ucast maximum) (ucast msk) s)
     else if count = 4 then map_option (apfst ucast) (raw_pool_rand32_maximum (ucast maximum) (ucast msk) s)
     else if count = 5 then raw_pool_rand40_maximum maximum msk s
     else if count = 6 then raw_pool_rand48_maximum maximum msk s
     else if count = 7 then raw_pool_rand56_maximum maximum msk s
     else if count = 8 then raw_pool_rand64_maximum maximum msk s
     else None)"

text \<open>With a 64-bit \<open>size_t\<close>.\<close>

definition pool_rand_size_maximum :: "u64 \<Rightarrow> rng \<Rightarrow> (u64 \<times> rng) option" where
  "pool_rand_size_maximum maximum s = pool_rand64_maximum maximum s"

subsection \<open>The public functions\<close>

definition futils_randomr8 :: "rng \<Rightarrow> (u8 \<times> rng) option" where
  "futils_randomr8 s = pool_rand8 s"
definition futils_randomr16 :: "rng \<Rightarrow> (u16 \<times> rng) option" where
  "futils_randomr16 s = pool_rand16 s"
definition futils_randomr32 :: "rng \<Rightarrow> (u32 \<times> rng) option" where
  "futils_randomr32 s = pool_rand32 s"
definition futils_randomr64 :: "rng \<Rightarrow> (u64 \<times> rng) option" where
  "futils_randomr64 s = pool_rand64 s"

definition futils_randomr8_maximum :: "u8 \<Rightarrow> rng \<Rightarrow> (u8 \<times> rng) option" where
  "futils_randomr8_maximum m s = pool_rand8_maximum m s"
definition futils_randomr16_maximum :: "u16 \<Rightarrow> rng \<Rightarrow> (u16 \<times> rng) option" where
  "futils_randomr16_maximum m s = pool_rand16_maximum m s"
definition futils_randomr32_maximum :: "u32 \<Rightarrow> rng \<Rightarrow> (u32 \<times> rng) option" where
  "futils_randomr32_maximum m s = pool_rand32_maximum m s"
definition futils_randomr64_maximum :: "u64 \<Rightarrow> rng \<Rightarrow> (u64 \<times> rng) option" where
  "futils_randomr64_maximum m s = pool_rand64_maximum m s"

text \<open>
  The floating-point results, as the real numbers they denote: 53 and 24 significant bits scaled
  by a power of two are exact in \<open>double\<close> and \<open>float\<close>.
\<close>

definition futils_randomrd :: "rng \<Rightarrow> (real \<times> rng) option" where
  "futils_randomrd s = do { (val, s) \<leftarrow> pool_rand56 s; Some (real (unat (drop_bit 3 val)) / 2 ^ 53, s) }"

definition futils_randomrf :: "rng \<Rightarrow> (real \<times> rng) option" where
  "futils_randomrf s = do { (val, s) \<leftarrow> pool_rand24 s; Some (real (unat val) / 2 ^ 24, s) }"

text \<open>
  The inline functions of the header with an out parameter, which may be \<open>NULL\<close>
  (\<open>given = False\<close>); the value stored is the result.
\<close>

definition out_param :: "bool \<Rightarrow> (rng \<Rightarrow> ('a \<times> rng) option) \<Rightarrow> rng \<Rightarrow> ('a res \<times> rng) option" where
  "out_param given f s =
    (if \<not> given then Some (Inl EINVAL, s) else do { (v, s) \<leftarrow> f s; Some (Inr v, s) })"

definition futils_random8 :: "bool \<Rightarrow> rng \<Rightarrow> (u8 res \<times> rng) option" where
  "futils_random8 val s = out_param val futils_randomr8 s"
definition futils_random16 :: "bool \<Rightarrow> rng \<Rightarrow> (u16 res \<times> rng) option" where
  "futils_random16 val s = out_param val futils_randomr16 s"
definition futils_random32 :: "bool \<Rightarrow> rng \<Rightarrow> (u32 res \<times> rng) option" where
  "futils_random32 val s = out_param val futils_randomr32 s"
definition futils_random64 :: "bool \<Rightarrow> rng \<Rightarrow> (u64 res \<times> rng) option" where
  "futils_random64 val s = out_param val futils_randomr64 s"
definition futils_random8_maximum :: "bool \<Rightarrow> u8 \<Rightarrow> rng \<Rightarrow> (u8 res \<times> rng) option" where
  "futils_random8_maximum val m s = out_param val (futils_randomr8_maximum m) s"
definition futils_random16_maximum :: "bool \<Rightarrow> u16 \<Rightarrow> rng \<Rightarrow> (u16 res \<times> rng) option" where
  "futils_random16_maximum val m s = out_param val (futils_randomr16_maximum m) s"
definition futils_random32_maximum :: "bool \<Rightarrow> u32 \<Rightarrow> rng \<Rightarrow> (u32 res \<times> rng) option" where
  "futils_random32_maximum val m s = out_param val (futils_randomr32_maximum m) s"
definition futils_random64_maximum :: "bool \<Rightarrow> u64 \<Rightarrow> rng \<Rightarrow> (u64 res \<times> rng) option" where
  "futils_random64_maximum val m s = out_param val (futils_randomr64_maximum m) s"

subsection \<open>The bit tricks are exact\<close>

text \<open>The length of the binary representation.\<close>

fun bitlen :: "nat \<Rightarrow> nat" where
  "bitlen n = (if n = 0 then 0 else Suc (bitlen (n div 2)))"

declare bitlen.simps [simp del]

lemma bitlen_0 [simp]: "bitlen 0 = 0"
  by (simp add: bitlen.simps)

lemma bitlen_pos: "n \<noteq> 0 \<Longrightarrow> bitlen n = Suc (bitlen (n div 2))"
  by (subst bitlen.simps) simp

lemma bitlen_le_iff: "bitlen n \<le> k \<longleftrightarrow> n < 2 ^ k"
proof (induction n arbitrary: k rule: bitlen.induct)
  case (1 n)
  show ?case
  proof (cases "n = 0")
    case False
    then show ?thesis using 1 [OF False, of "k - 1"]
      by (cases k) (auto simp: bitlen_pos [OF False] div_less_iff_less_mult mult.commute)
  qed simp
qed

lemma bitlen_eqI: "n < 2 ^ k \<Longrightarrow> 2 ^ k \<le> 2 * n \<Longrightarrow> bitlen n = k"
  using bitlen_le_iff [of n k] bitlen_le_iff [of n "k - 1"] by (cases k) auto

lemma bitlen_drop: "2 ^ k \<le> n \<Longrightarrow> bitlen n = Suc k + bitlen (n div 2 ^ Suc k)"
proof (induction k arbitrary: n)
  case 0
  then show ?case using bitlen_pos [of n] by simp
next
  case (Suc k)
  have "0 < (2 :: nat) ^ Suc k" by simp
  with Suc.prems have n: "n \<noteq> 0" "2 ^ k \<le> n div 2" by (linarith, simp add: less_eq_div_iff_mult_less_eq mult.commute)
  have "n div 2 ^ Suc (Suc k) = n div 2 div 2 ^ Suc k" by (simp only: power_Suc [of _ "Suc k"] div_mult2_eq)
  then show ?case using Suc.IH [OF n(2)] bitlen_pos [OF n(1)] by simp
qed

lemma ilog_block_keeps:
  assumes "k < 64" "unat (snd p) < 2 ^ (2 * k + 1)" "d = Suc k"
  shows "fst (ilog_block k d p) + bitlen (unat (snd (ilog_block k d p))) = fst p + bitlen (unat (snd p))"
    and "unat (snd (ilog_block k d p)) < 2 ^ k"
proof -
  have "unat (push_bit k 1 :: u64) = 2 ^ k" using unat_exp [where 'a = 64, of k] assms(1)
    by (simp add: push_bit_eq_mult)
  then have ge: "snd p \<ge> push_bit k 1 \<longleftrightarrow> 2 ^ k \<le> unat (snd p)" by (simp only: word_le_nat_alt)
  show "fst (ilog_block k d p) + bitlen (unat (snd (ilog_block k d p))) = fst p + bitlen (unat (snd p))"
    using bitlen_drop [of k "unat (snd p)"] unfolding ilog_block_def ge assms(3) by (simp add: unat_drop_bit)
  have "2 ^ (2 * k + 1) = (2 :: nat) ^ k * 2 ^ Suc k" by (simp flip: power_add)
  then have "unat (snd p) div 2 ^ Suc k < 2 ^ k"
    using assms(2) less_mult_imp_div_less by metis
  then show "unat (snd (ilog_block k d p)) < 2 ^ k"
    unfolding ilog_block_def ge assms(3) by (auto simp: unat_drop_bit)
qed

lemma ilog2plus1_bitlen: "ilog2plus1 v = bitlen (unat v)"
proof -
  define p6 where "p6 = ilog_block 32 33 (0, v)"
  define p5 where "p5 = ilog_block 16 17 p6"
  define p4 where "p4 = ilog_block 8 9 p5"
  define p3 where "p3 = ilog_block 4 5 p4"
  define p2 where "p2 = ilog_block 2 3 p3"
  define p1 where "p1 = ilog_block 1 2 p2"
  define p0 where "p0 = ilog_block 0 1 p1"
  have "unat (snd (0 :: nat, v)) < 2 ^ (2 * 32 + 1)" using unat_bound [of v] by simp
  note k6 = ilog_block_keeps [OF _ this, of 33, folded p6_def, simplified]
  have "unat (snd p6) < 2 ^ (2 * 16 + 1)" using k6(2) by simp
  note k5 = ilog_block_keeps [OF _ this, of 17, folded p5_def, simplified]
  have "unat (snd p5) < 2 ^ (2 * 8 + 1)" using k5(2) by simp
  note k4 = ilog_block_keeps [OF _ this, of 9, folded p4_def, simplified]
  have "unat (snd p4) < 2 ^ (2 * 4 + 1)" using k4(2) by simp
  note k3 = ilog_block_keeps [OF _ this, of 5, folded p3_def, simplified]
  have "unat (snd p3) < 2 ^ (2 * 2 + 1)" using k3(2) by simp
  note k2 = ilog_block_keeps [OF _ this, of 3, folded p2_def, simplified]
  have "unat (snd p2) < 2 ^ (2 * 1 + 1)" using k2(2) by simp
  note k1 = ilog_block_keeps [OF _ this, of 2, folded p1_def]
  have "unat (snd p1) < 2 ^ (2 * 0 + 1)" using k1(2) by simp
  note k0 = ilog_block_keeps [OF _ this, of 1, folded p0_def]
  have "ilog2plus1 v = fst p0"
    by (simp only: ilog2plus1_def Let_def p0_def p1_def p2_def p3_def p4_def p5_def p6_def)
  moreover have "fst p0 + bitlen (unat (snd p0)) = fst p1 + bitlen (unat (snd p1))" "unat (snd p0) < 1"
    using k0 by simp_all
  moreover have "fst p1 + bitlen (unat (snd p1)) = fst p2 + bitlen (unat (snd p2))" using k1(1) by simp
  ultimately show ?thesis using k2(1) k3(1) k4(1) k5(1) k6(1) by simp
qed

text \<open>Smearing the highest bit downwards.\<close>

lemma smear_step:
  fixes f v :: u64
  assumes "\<And>n. bit f n \<longleftrightarrow> (\<exists>j<k. bit v (n + j))"
  shows "bit (f OR drop_bit k f) n \<longleftrightarrow> (\<exists>j<2 * k. bit v (n + j))"
proof -
  have "(\<exists>j<2 * k. bit v (n + j)) \<longleftrightarrow> (\<exists>j<k. bit v (n + j)) \<or> (\<exists>j<k. bit v (k + n + j))" (is "?l \<longleftrightarrow> ?r")
  proof
    assume ?l
    then obtain j where "j < 2 * k" "bit v (n + j)" by blast
    then show ?r by (cases "j < k") (auto intro: exI [of _ "j - k"] simp: add_ac)
  next
    assume ?r
    then show ?l
    proof
      assume "\<exists>j<k. bit v (k + n + j)"
      then obtain j where "j < k" "bit v (k + n + j)" by blast
      then show ?l by (intro exI [of _ "k + j"]) (simp add: add_ac)
    next
      assume "\<exists>j<k. bit v (n + j)"
      then obtain j where "j < k" "bit v (n + j)" by blast
      then show ?l by (intro exI [of _ j]) simp
    qed
  qed
  then show ?thesis using assms by (simp add: bit_or_iff bit_drop_bit_eq add_ac)
qed

lemma p2minus1_bit: "bit (p2minus1 v) n \<longleftrightarrow> (\<exists>j<64. bit v (n + j))"
proof -
  define f1 where "f1 = v OR drop_bit 1 v"
  define f2 where "f2 = f1 OR drop_bit 2 f1"
  define f3 where "f3 = f2 OR drop_bit 4 f2"
  define f4 where "f4 = f3 OR drop_bit 8 f3"
  define f5 where "f5 = f4 OR drop_bit 16 f4"
  define f6 where "f6 = f5 OR drop_bit 32 f5"
  have 0: "\<And>n. bit v n \<longleftrightarrow> (\<exists>j<1. bit v (n + j))" by simp
  have 1: "\<And>n. bit f1 n \<longleftrightarrow> (\<exists>j<2. bit v (n + j))" using smear_step [OF 0, folded f1_def] by simp
  have 2: "\<And>n. bit f2 n \<longleftrightarrow> (\<exists>j<4. bit v (n + j))" using smear_step [OF 1, folded f2_def] by simp
  have 3: "\<And>n. bit f3 n \<longleftrightarrow> (\<exists>j<8. bit v (n + j))" using smear_step [OF 2, folded f3_def] by simp
  have 4: "\<And>n. bit f4 n \<longleftrightarrow> (\<exists>j<16. bit v (n + j))" using smear_step [OF 3, folded f4_def] by simp
  have 5: "\<And>n. bit f5 n \<longleftrightarrow> (\<exists>j<32. bit v (n + j))" using smear_step [OF 4, folded f5_def] by simp
  have 6: "\<And>n. bit f6 n \<longleftrightarrow> (\<exists>j<64. bit v (n + j))" using smear_step [OF 5, folded f6_def] by simp
  have "p2minus1 v = f6"
    by (simp add: p2minus1_def Let_def f1_def f2_def f3_def f4_def f5_def f6_def)
  then show ?thesis using 6 by simp
qed

lemma high_bits: "(\<exists>j. bit (v :: 'a::len word) (n + j)) \<longleftrightarrow> n < bitlen (unat v)"
proof -
  have "(\<exists>j. bit v (n + j)) \<longleftrightarrow> drop_bit n v \<noteq> 0"
  proof
    assume "\<exists>j. bit v (n + j)"
    then obtain j where "bit (drop_bit n v) j" by (auto simp: bit_drop_bit_eq)
    then show "drop_bit n v \<noteq> 0" by auto
  next
    assume nz: "drop_bit n v \<noteq> 0"
    show "\<exists>j. bit v (n + j)"
    proof (rule ccontr)
      assume "\<not> ?thesis"
      then have "drop_bit n v = 0" by (intro bit_word_eqI) (simp add: bit_drop_bit_eq)
      with nz show False by simp
    qed
  qed
  also have "\<dots> \<longleftrightarrow> unat v div 2 ^ n \<noteq> 0" by (simp add: unat_drop_bit flip: unat_eq_0)
  also have "\<dots> \<longleftrightarrow> n < bitlen (unat v)"
    using bitlen_le_iff [of "unat v" n] by (auto simp: div_eq_0_iff not_less)
  finally show ?thesis .
qed

lemma p2minus1_mask: "p2minus1 v = mask (bitlen (unat v))"
proof (rule bit_word_eqI)
  fix n assume "n < LENGTH(64)"
  have "bitlen (unat v) \<le> 64" using bitlen_le_iff [of "unat v" 64] unsigned_less [of v] by simp
  moreover have "(\<exists>j<64. bit v (n + j)) \<longleftrightarrow> (\<exists>j. bit v (n + j))"
  proof
    assume "\<exists>j. bit v (n + j)"
    then obtain j where j: "bit v (n + j)" by blast
    then have "n + j < 64" using bit_imp_le_length [of v "n + j"] by simp
    with j show "\<exists>j<64. bit v (n + j)" by (intro exI [of _ j]) simp
  qed blast
  ultimately show "bit (p2minus1 v) n \<longleftrightarrow> bit (mask (bitlen (unat v)) :: u64) n"
    unfolding p2minus1_bit high_bits bit_mask_iff by auto
qed


subsection \<open>The draws\<close>

lemma le_value_bound: "le_value bs < 256 ^ length bs"
proof (induction bs)
  case (Cons b bs)
  have "unat b < 256" using unat_bound [of b] by simp
  with Cons show ?case by simp
qed simp

lemma le_value_inj: "length bs = length cs \<Longrightarrow> le_value bs = le_value cs \<Longrightarrow> bs = cs"
proof (induction bs cs rule: list_induct2)
  case (Cons b bs c cs)
  have "unat b < 256" "unat c < 256" using unat_bound [of b] unat_bound [of c] by simp_all
  then have "unat b = unat c" "le_value bs = le_value cs"
    using Cons.prems by (auto dest: arg_cong [where f = "\<lambda>x. x mod 256"] arg_cong [where f = "\<lambda>x. x div 256"])
  with Cons.IH show ?case by (simp add: word_unat_eq_iff)
qed simp

lemma le_value_surj: "n < 256 ^ k \<Longrightarrow> \<exists>bs. length bs = k \<and> le_value bs = n"
proof (induction k arbitrary: n)
  case (Suc k)
  then have "n div 256 < 256 ^ k" by (simp add: div_less_iff_less_mult mult.commute)
  then obtain bs where "length bs = k" "le_value bs = n div 256" using Suc.IH by blast
  then show ?case by (intro exI [of _ "of_nat (n mod 256) # bs"]) (simp add: unat_of_nat_small)
qed simp

lemma le_value_bij: "bij_betw le_value {bs. length bs = k} {..<256 ^ k}"
  unfolding bij_betw_def inj_on_def using le_value_inj le_value_bound le_value_surj by fastforce

text \<open>The values assembled by shifting are the little-endian values as well.\<close>

lemma or_push_add:
  fixes a b :: "'a::len word"
  assumes "unat a < 2 ^ k" "unat b < 2 ^ m" "k + m \<le> LENGTH('a)"
  shows "unat (a OR push_bit k b) = unat a + 2 ^ k * unat b" and "unat (a OR push_bit k b) < 2 ^ (k + m)"
proof -
  have "2 ^ k * unat b < 2 ^ k * 2 ^ m" using assms(2) by simp
  also have "\<dots> \<le> 2 ^ LENGTH('a)" using assms(3) by (simp flip: power_add)
  finally have "unat (push_bit k b) = 2 ^ k * unat b"
    unfolding unsigned_push_bit_eq by (simp add: push_bit_eq_mult take_bit_nat_eq_self mult.commute)
  moreover have "unat (a OR push_bit k b) = (unat a OR unat (push_bit k b))" by (rule unsigned_or_eq)
  moreover have "(unat a OR 2 ^ k * unat b) = unat a + 2 ^ k * unat b"
  proof -
    have "(unat a AND push_bit k (unat b)) = 0"
    proof (rule bit_eqI)
      fix n
      have "\<not> bit (unat a) n" if "k \<le> n"
        using assms(1) that by (metis bit_take_bit_iff not_le take_bit_nat_eq_self)
      then show "bit (unat a AND push_bit k (unat b)) n = bit 0 n" by (auto simp: bit_and_iff bit_push_bit_iff)
    qed
    then show ?thesis using disjunctive_add_eq_or [of "unat a" "push_bit k (unat b)"] by (simp add: push_bit_eq_mult mult.commute)
  qed
  ultimately show "unat (a OR push_bit k b) = unat a + 2 ^ k * unat b" by simp
  also have "\<dots> < 2 ^ k * Suc (unat b)" using assms(1) by simp
  also have "\<dots> \<le> 2 ^ k * 2 ^ m" using assms(2) by (simp only: mult_le_mono2 Suc_leI)
  finally show "unat (a OR push_bit k b) < 2 ^ (k + m)" by (simp add: power_add)
qed


lemma asm_step:
  fixes v :: "'a::len word" and b :: u8
  assumes "unat v < 2 ^ (8 * k)" "8 * k + 8 \<le> LENGTH('a)"
  shows "unat (v OR push_bit (8 * k) (ucast b)) = unat v + 2 ^ (8 * k) * unat b"
    and "unat (v OR push_bit (8 * k) (ucast b)) < 2 ^ (8 * Suc k)"
proof -
  have b: "unat (ucast b :: 'a word) = unat b" using assms(2) by (intro unat_ucast_le) simp
  then have "unat (ucast b :: 'a word) < 2 ^ 8" using unat_bound [of b] by simp
  from or_push_add [OF assms(1) this assms(2)] b
  show "unat (v OR push_bit (8 * k) (ucast b)) = unat v + 2 ^ (8 * k) * unat b"
    "unat (v OR push_bit (8 * k) (ucast b)) < 2 ^ (8 * Suc k)"
    by (simp_all add: add.commute)
qed

definition asm :: "nat \<Rightarrow> u8 list \<Rightarrow> 'a::len word" where
  "asm n b = fold (\<lambda>i v. v OR push_bit (8 * i) (ucast (b ! i))) [0..<n] 0"

lemma asm_Suc: "asm (Suc n) b = asm n b OR push_bit (8 * n) (ucast (b ! n))"
  by (simp add: asm_def)

lemma asm_numerals:
  fixes A :: "nat \<Rightarrow> u8 list \<Rightarrow> 'a::len word"
  defines "A \<equiv> asm"
  shows
  "A 3 b = ((0 OR push_bit 0 (ucast (b ! 0))) OR push_bit 8 (ucast (b ! 1))) OR push_bit 16 (ucast (b ! 2))"
  "A 4 b = A 3 b OR push_bit 24 (ucast (b ! 3))"
  "A 5 b = A 4 b OR push_bit 32 (ucast (b ! 4))"
  "A 6 b = A 5 b OR push_bit 40 (ucast (b ! 5))"
  "A 7 b = A 6 b OR push_bit 48 (ucast (b ! 6))"
proof -
  have A_Suc: "A (Suc n) b = A n b OR push_bit (8 * n) (ucast (b ! n))" for n by (simp add: A_def asm_Suc)
  have "A 0 b = 0" by (simp add: A_def asm_def)
  then have "A 1 b = 0 OR push_bit 0 (ucast (b ! 0))" using A_Suc [of 0] by simp
  then have "A 2 b = (0 OR push_bit 0 (ucast (b ! 0))) OR push_bit 8 (ucast (b ! 1))" using A_Suc [of 1] by (simp add: numeral_2_eq_2)
  then show "A 3 b = ((0 OR push_bit 0 (ucast (b ! 0))) OR push_bit 8 (ucast (b ! 1))) OR push_bit 16 (ucast (b ! 2))"
    using A_Suc [of 2] by simp
  show "A 4 b = A 3 b OR push_bit 24 (ucast (b ! 3))" "A 5 b = A 4 b OR push_bit 32 (ucast (b ! 4))"
    "A 6 b = A 5 b OR push_bit 40 (ucast (b ! 5))" "A 7 b = A 6 b OR push_bit 48 (ucast (b ! 6))"
    using A_Suc [of 3] A_Suc [of 4] A_Suc [of 5] A_Suc [of 6] by simp_all
qed

lemma le_value_append: "le_value (bs @ [b]) = le_value bs + 256 ^ length bs * unat b"
  by (induction bs) (simp_all add: algebra_simps)

lemma asm_le_value:
  "n \<le> length b \<Longrightarrow> 8 * n \<le> LENGTH('a) \<Longrightarrow>
   unat (asm n b :: 'a::len word) = le_value (take n b) \<and> unat (asm n b :: 'a word) < 2 ^ (8 * n)"
proof (induction n)
  case 0
  then show ?case by (simp add: asm_def)
next
  case (Suc n)
  then have IH: "unat (asm n b :: 'a word) = le_value (take n b)" "unat (asm n b :: 'a word) < 2 ^ (8 * n)"
    by simp_all
  have "(256 :: nat) ^ n = 2 ^ (8 * n)" by (simp add: power_mult)
  then show ?case using asm_step [OF IH(2), of "b ! n"] Suc.prems IH(1)
    by (simp add: asm_Suc take_Suc_conv_app_nth le_value_append)
qed

lemma asm_eq: "length b = n \<Longrightarrow> 8 * n \<le> LENGTH('a) \<Longrightarrow> (asm n b :: 'a::len word) = of_nat (le_value b)"
proof -
  assume "length b = n" "8 * n \<le> LENGTH('a)"
  then have "unat (asm n b :: 'a word) = le_value b" using asm_le_value [of n b, where 'a = 'a] by simp
  then have "of_nat (le_value b) = (of_nat (unat (asm n b :: 'a word)) :: 'a word)" by (simp only:)
  also have "\<dots> = asm n b" by simp
  finally show ?thesis by simp
qed

text \<open>All eight draws: the value of \<open>c\<close> bytes of the pool.\<close>

definition draw_bytes :: "nat \<Rightarrow> rng \<Rightarrow> ('a::len word \<times> rng) option" where
  "draw_bytes c s = map_option (\<lambda>(b, s). (of_nat (le_value b), s)) (pool_rand c s)"

lemma draw_eq:
  assumes "pool_ok (pool s)"
  shows "pool_rand8 s = draw_bytes 1 s" "pool_rand16 s = draw_bytes 2 s" "pool_rand24 s = draw_bytes 3 s"
    "pool_rand32 s = draw_bytes 4 s" "pool_rand40 s = draw_bytes 5 s" "pool_rand48 s = draw_bytes 6 s"
    "pool_rand56 s = draw_bytes 7 s" "pool_rand64 s = draw_bytes 8 s"
proof -
  have len: "length b = c" if "pool_rand c s = Some (b, s')" for c b s'
    using pool_rand_inv [OF assms that] by simp
  show "pool_rand8 s = draw_bytes 1 s" "pool_rand16 s = draw_bytes 2 s" "pool_rand32 s = draw_bytes 4 s"
    "pool_rand64 s = draw_bytes 8 s"
    by (auto simp: pool_rand8_def pool_rand16_def pool_rand32_def pool_rand64_def draw_bytes_def
        split: Option.bind_split option.split)
  show "pool_rand24 s = draw_bytes 3 s"
    using len [of 3] asm_eq [of _ 3, where 'a = 32]
    by (cases "pool_rand 3 s") (auto simp: pool_rand24_def draw_bytes_def asm_numerals Let_def)
  show "pool_rand40 s = draw_bytes 5 s"
    using len [of 5] asm_eq [of _ 5, where 'a = 64]
    by (cases "pool_rand 5 s") (auto simp: pool_rand40_def draw_bytes_def asm_numerals Let_def)
  show "pool_rand48 s = draw_bytes 6 s"
    using len [of 6] asm_eq [of _ 6, where 'a = 64]
    by (cases "pool_rand 6 s") (auto simp: pool_rand48_def draw_bytes_def asm_numerals Let_def)
  show "pool_rand56 s = draw_bytes 7 s"
    using len [of 7] asm_eq [of _ 7, where 'a = 64]
    by (cases "pool_rand 7 s") (auto simp: pool_rand56_def draw_bytes_def asm_numerals Let_def)
qed

subsection \<open>The rejection loop\<close>

text \<open>
  \<open>first_accepted c k m s v s'\<close>: of the successive draws of \<open>c\<close> bytes from state \<open>s\<close>, cut to \<open>k\<close>
  bits, \<open>v\<close> is the first that does not exceed \<open>m\<close>, and \<open>s'\<close> the state after it.
\<close>

inductive first_accepted :: "nat \<Rightarrow> nat \<Rightarrow> nat \<Rightarrow> rng \<Rightarrow> nat \<Rightarrow> rng \<Rightarrow> bool" for c k m where
  accept: "pool_rand c s = Some (b, s') \<Longrightarrow> le_value b mod 2 ^ k \<le> m \<Longrightarrow>
    first_accepted c k m s (le_value b mod 2 ^ k) s'"
| reject: "pool_rand c s = Some (b, s1) \<Longrightarrow> m < le_value b mod 2 ^ k \<Longrightarrow> first_accepted c k m s1 v s' \<Longrightarrow>
    first_accepted c k m s v s'"

lemma first_accepted_le: "first_accepted c k m s v s' \<Longrightarrow> v \<le> m"
  by (induction rule: first_accepted.induct)

lemma masked_value: "k \<le> LENGTH('a) \<Longrightarrow> unat ((of_nat n :: 'a::len word) AND mask k) = n mod 2 ^ k"
  by (simp add: unat_and_mask unat_of_nat take_bit_eq_mod mod_mod_cancel le_imp_power_dvd)

lemma rand_maximum_loop_sound:
  fixes draw :: "rng \<Rightarrow> ('a::len word \<times> rng) option"
  assumes draw: "\<And>s. pool_ok (pool s) \<Longrightarrow> draw s = draw_bytes c s"
    and k: "k \<le> LENGTH('a)"
  shows "rand_maximum_loop draw maximum (mask k) s = Some (v, s') \<Longrightarrow> pool_ok (pool s) \<Longrightarrow>
    first_accepted c k (unat maximum) s (unat v) s'"
proof -
  define P where "P = (\<lambda>dr (ma :: 'a word) (ms :: 'a word) s r. dr = draw \<longrightarrow> ma = maximum \<longrightarrow> ms = mask k \<longrightarrow> pool_ok (pool s) \<longrightarrow>
    first_accepted c k (unat maximum) s (unat (fst r)) (snd (r :: 'a word \<times> rng)))"
  have step: "P dr ma ms s r"
    if IH: "\<And>dr ma ms s r. loop dr ma ms s = Some r \<Longrightarrow> P dr ma ms s r"
      and run: "dr s \<bind> (\<lambda>(out, s). let out = out AND ms in if ma < out then loop dr ma ms s else Some (out, s)) = Some r"
    for loop dr ma ms s and r :: "'a word \<times> rng"
  unfolding P_def
  proof (intro impI)
    assume eq: "dr = draw" "ma = maximum" "ms = mask k" and ok: "pool_ok (pool s)"
    obtain b s1 where b: "pool_rand c s = Some (b, s1)" "draw s = Some (of_nat (le_value b), s1)"
      using draw [OF ok] run eq(1) by (cases "pool_rand c s") (auto simp: draw_bytes_def)
    have ok1: "pool_ok (pool s1)" using pool_rand_inv [OF ok b(1)] by simp
    have v: "unat ((of_nat (le_value b) :: 'a word) AND mask k) = le_value b mod 2 ^ k"
      using k by (rule masked_value)
    show "first_accepted c k (unat maximum) s (unat (fst r)) (snd r)"
    proof (cases "maximum < of_nat (le_value b) AND mask k")
      case True
      then have "loop draw maximum (mask k) s1 = Some r" using run b(2) eq by simp
      then have "first_accepted c k (unat maximum) s1 (unat (fst r)) (snd r)" using IH ok1 by (auto simp: P_def)
      moreover have "unat maximum < le_value b mod 2 ^ k" using True v by (simp add: word_less_nat_alt)
      ultimately show ?thesis using b(1) by (blast intro: reject)
    next
      case False
      then have "r = (of_nat (le_value b) AND mask k, s1)" using run b(2) eq by simp
      moreover have "le_value b mod 2 ^ k \<le> unat maximum" using False v by (simp add: word_less_nat_alt not_less)
      ultimately show ?thesis using accept [OF b(1)] v by simp
    qed
  qed
  have "P draw maximum (mask k) s r" if "rand_maximum_loop draw maximum (mask k) s = Some r" for r
    by (rule rand_maximum_loop.raw_induct [where P = P, OF step that])
  then show "rand_maximum_loop draw maximum (mask k) s = Some (v, s') \<Longrightarrow> pool_ok (pool s) \<Longrightarrow>
    first_accepted c k (unat maximum) s (unat v) s'" by (fastforce simp: P_def)
qed

lemma rand_maximum_loop_complete:
  fixes draw :: "rng \<Rightarrow> ('a::len word \<times> rng) option"
  assumes draw: "\<And>s. pool_ok (pool s) \<Longrightarrow> draw s = draw_bytes c s"
    and k: "k \<le> LENGTH('a)"
  shows "first_accepted c k (unat maximum) s v s' \<Longrightarrow> pool_ok (pool s) \<Longrightarrow>
    rand_maximum_loop draw maximum (mask k) s = Some (of_nat v, s')"
proof (induction rule: first_accepted.induct)
  case (accept s b s')
  have v: "unat ((of_nat (le_value b) :: 'a word) AND mask k) = le_value b mod 2 ^ k"
    using k by (rule masked_value)
  then have "(of_nat (le_value b) :: 'a word) AND mask k = of_nat (le_value b mod 2 ^ k)"
    by (metis word_unat_eq_iff unat_of_nat_small unat_bound)
  moreover have "\<not> maximum < of_nat (le_value b) AND mask k" using v accept(2) by (simp add: word_less_nat_alt)
  ultimately show ?case using draw [OF accept(3)] accept(1)
    by (subst rand_maximum_loop.simps) (simp add: draw_bytes_def)
next
  case (reject s b s1 v s')
  have v: "unat ((of_nat (le_value b) :: 'a word) AND mask k) = le_value b mod 2 ^ k"
    using k by (rule masked_value)
  then have "maximum < of_nat (le_value b) AND mask k" using reject(2) by (simp add: word_less_nat_alt)
  moreover have "pool_ok (pool s1)" using pool_rand_inv [OF reject(5,1)] by simp
  ultimately show ?case using draw [OF reject(5)] reject(1,4)
    by (subst rand_maximum_loop.simps) (simp add: draw_bytes_def)
qed

lemma rand_maximum_loop_iff:
  fixes draw :: "rng \<Rightarrow> ('a::len word \<times> rng) option"
  assumes "\<And>s. pool_ok (pool s) \<Longrightarrow> draw s = draw_bytes c s" "k \<le> LENGTH('a)" "pool_ok (pool s)"
  shows "rand_maximum_loop draw maximum (mask k) s = Some (v, s') \<longleftrightarrow> first_accepted c k (unat maximum) s (unat v) s'"
  using rand_maximum_loop_sound [OF assms(1,2), of maximum s v s']
    rand_maximum_loop_complete [OF assms(1,2), of maximum s "unat v" s'] assms(3) by auto


subsection \<open>Bounded integers of every width\<close>

lemma ucast_mask: "k \<le> LENGTH('b) \<Longrightarrow> LENGTH('b) \<le> LENGTH('a) \<Longrightarrow> (ucast (mask k :: 'a::len word) :: 'b::len word) = mask k"
  by (rule bit_word_eqI) (auto simp: bit_simps)

lemma narrow_loop_iff:
  fixes draw :: "rng \<Rightarrow> ('b::len word \<times> rng) option" and m v :: "'a::len word"
  assumes "\<And>s. pool_ok (pool s) \<Longrightarrow> draw s = draw_bytes c s" "pool_ok (pool s)"
    and "bitlen (unat m) \<le> LENGTH('b)" "LENGTH('b) \<le> LENGTH('a)"
  shows "map_option (apfst ucast) (rand_maximum_loop draw (ucast m) (ucast (mask (bitlen (unat m)) :: 'a word)) s) = Some (v, s') \<longleftrightarrow>
    first_accepted c (bitlen (unat m)) (unat m) s (unat v) s'"
proof -
  let ?k = "bitlen (unat m)"
  have m: "unat m < 2 ^ LENGTH('b)" using bitlen_le_iff [of "unat m"] assms(3) by blast
  have mb: "unat (ucast m :: 'b word) = unat m"
    using m by (simp add: unsigned_ucast_eq take_bit_nat_eq_self)
  note iff = rand_maximum_loop_iff [OF assms(1) assms(3) assms(2), of "ucast m", unfolded mb]
  have up: "unat (ucast w :: 'a word) = unat w" for w :: "'b word" using assms(4) by (rule unat_ucast_le)
  show ?thesis
  proof
    assume "map_option (apfst ucast) (rand_maximum_loop draw (ucast m) (ucast (mask ?k :: 'a word)) s) = Some (v, s')"
    then obtain w where "rand_maximum_loop draw (ucast m) (mask ?k) s = Some (w, s')" "v = ucast w"
      using ucast_mask [OF assms(3,4)] by auto
    then show "first_accepted c ?k (unat m) s (unat v) s'" using iff up by simp
  next
    assume f: "first_accepted c ?k (unat m) s (unat v) s'"
    have v: "unat v < 2 ^ LENGTH('b)" using first_accepted_le [OF f] m by simp
    then have w: "unat (of_nat (unat v) :: 'b word) = unat v" by (rule unat_of_nat_small)
    then have "rand_maximum_loop draw (ucast m) (mask ?k) s = Some (of_nat (unat v), s')" using iff f by simp
    moreover have "ucast (of_nat (unat v) :: 'b word) = v" using up [of "of_nat (unat v)"] w by (simp add: word_unat_eq_iff)
    ultimately show "map_option (apfst ucast) (rand_maximum_loop draw (ucast m) (ucast (mask ?k :: 'a word)) s) = Some (v, s')"
      using ucast_mask [OF assms(3,4)] by simp
  qed
qed

text \<open>What all the bounded generators compute.\<close>

definition bounded_draw :: "nat \<Rightarrow> rng \<Rightarrow> nat \<Rightarrow> rng \<Rightarrow> bool" where
  "bounded_draw m s v s' \<longleftrightarrow>
    (if m = 0 then v = 0 \<and> s' = s else first_accepted ((bitlen m + 7) div 8) (bitlen m) m s v s')"

lemma bitlen_mask: "k \<le> LENGTH('a) \<Longrightarrow> bitlen (unat (mask k :: 'a::len word)) = k"
proof -
  assume k: "k \<le> LENGTH('a)"
  have "(2 :: nat) ^ k - 1 < 2 ^ k" by simp
  moreover have "(2 :: nat) ^ k \<le> 2 * (2 ^ k - 1) \<or> k = 0"
    using one_le_power [of "2 :: nat" "k - 1"] by (cases k) auto
  ultimately have "bitlen (2 ^ k - 1) = k" using bitlen_eqI [of "2 ^ k - 1" k] by auto
  moreover have "unat (mask k :: 'a word) = 2 ^ k - 1"
  proof -
    have "unat (mask k :: 'a word) = nat (mask (min LENGTH('a) k))"
      by (simp only: unat_eq_nat_uint uint_mask_eq)
    also have "min LENGTH('a) k = k" using k by simp
    also have "nat (mask k) = mask k" by (rule nat_mask_eq)
    finally show ?thesis by (simp only: mask_eq_exp_minus_1)
  qed
  ultimately show ?thesis by simp
qed

lemma bitlen_0_iff: "bitlen n = 0 \<longleftrightarrow> n = 0"
  using bitlen_pos [of n] by (cases "n = 0") auto

lemma bitlen_word: "bitlen (unat (w :: 'a::len word)) \<le> LENGTH('a)"
  by (simp add: bitlen_le_iff unat_bound)

lemma mask_of_maximum:
  fixes m :: "'a::len word"
  assumes "LENGTH('a) \<le> 64"
  shows "(ucast (p2minus1 (ucast m)) :: 'a word) = mask (bitlen (unat m))"
    and "ilog2plus1 (ucast (mask (bitlen (unat m)) :: 'a word)) = bitlen (unat m)"
proof -
  have u: "unat (ucast m :: u64) = unat m" using assms by (intro unat_ucast_le) simp
  show "(ucast (p2minus1 (ucast m)) :: 'a word) = mask (bitlen (unat m))"
    using assms bitlen_word [of m] by (simp add: p2minus1_mask u ucast_mask)
  have "unat (ucast (mask (bitlen (unat m)) :: 'a word) :: u64) = unat (mask (bitlen (unat m)) :: 'a word)"
    using assms by (intro unat_ucast_le) simp
  then show "ilog2plus1 (ucast (mask (bitlen (unat m)) :: 'a word)) = bitlen (unat m)"
    using bitlen_mask [OF bitlen_word] by (simp add: ilog2plus1_bitlen)
qed

lemma count_le: "(k + 7) div 8 = c \<Longrightarrow> k \<le> 8 * c" for k c :: nat
  by simp

lemmas raw_maximum_defs = raw_pool_rand8_maximum_def raw_pool_rand16_maximum_def raw_pool_rand24_maximum_def
  raw_pool_rand32_maximum_def raw_pool_rand40_maximum_def raw_pool_rand48_maximum_def
  raw_pool_rand56_maximum_def raw_pool_rand64_maximum_def

lemma pool_rand8_maximum_iff:
  assumes "pool_ok (pool s)"
  shows "pool_rand8_maximum m s = Some (v, s') \<longleftrightarrow> first_accepted 1 (bitlen (unat m)) (unat m) s (unat v) s'"
  using rand_maximum_loop_iff [OF draw_eq(1) bitlen_word assms, of m m v s']
  by (simp add: pool_rand8_maximum_def raw_maximum_defs mask_of_maximum)

lemma pool_rand16_maximum_iff:
  assumes "pool_ok (pool s)"
  shows "pool_rand16_maximum m s = Some (v, s') \<longleftrightarrow> bounded_draw (unat m) s (unat v) s'"
proof -
  define k where "k = bitlen (unat m)"
  define c where "c = (k + 7) div 8"
  have k: "k \<le> 16" using bitlen_word [of m] by (simp add: k_def)
  have kc: "k \<le> 8 * c" using count_le [of k c] by (simp add: c_def)
  have c8: "c \<le> 2" using k div_le_mono [of "k + 7" "23" 8] by (simp add: c_def)
  have run: "pool_rand16_maximum m s = (if c = 0 then Some (0, s)
     else if c = 1 then map_option (apfst ucast) (rand_maximum_loop pool_rand8 (ucast m) (ucast (mask k :: u16)) s)
     else if c = 2 then rand_maximum_loop pool_rand16 m (mask k) s
     else None)"
    using mask_of_maximum [of m] by (simp add: pool_rand16_maximum_def raw_maximum_defs Let_def c_def k_def)
  have k0: "m = 0 \<longleftrightarrow> c = 0" using bitlen_0_iff [of "unat m"] by (auto simp: c_def k_def unat_eq_zero)
  show ?thesis
  proof (cases "c = 0")
    case True
    then show ?thesis using run k0 by (auto simp: bounded_draw_def word_unat_eq_iff)
  next
    case False
    then have b: "bounded_draw (unat m) s (unat v) s' \<longleftrightarrow> first_accepted c k (unat m) s (unat v) s'"
      using k0 by (simp add: bounded_draw_def c_def k_def unat_eq_zero)
    have "c = 1 \<or> c = 2" using c8 False by presburger
    then show ?thesis
    proof (elim disjE)
      assume "c = 1"
      then show ?thesis unfolding b run k_def
        using narrow_loop_iff [OF draw_eq(1) assms, of m v s'] kc by (simp add: k_def)
    next
      assume "c = 2"
      then show ?thesis unfolding b run k_def
        using rand_maximum_loop_iff [OF draw_eq(2) bitlen_word assms, of m m v s'] by simp
    qed
  qed
qed

lemma pool_rand32_maximum_iff:
  assumes "pool_ok (pool s)"
  shows "pool_rand32_maximum m s = Some (v, s') \<longleftrightarrow> bounded_draw (unat m) s (unat v) s'"
proof -
  define k where "k = bitlen (unat m)"
  define c where "c = (k + 7) div 8"
  have k: "k \<le> 32" using bitlen_word [of m] by (simp add: k_def)
  have kc: "k \<le> 8 * c" using count_le [of k c] by (simp add: c_def)
  have c8: "c \<le> 4" using k div_le_mono [of "k + 7" "39" 8] by (simp add: c_def)
  have run: "pool_rand32_maximum m s = (if c = 0 then Some (0, s)
     else if c = 1 then map_option (apfst ucast) (rand_maximum_loop pool_rand8 (ucast m) (ucast (mask k :: u32)) s)
     else if c = 2 then map_option (apfst ucast) (rand_maximum_loop pool_rand16 (ucast m) (ucast (mask k :: u32)) s)
     else if c = 3 then rand_maximum_loop pool_rand24 m (mask k) s
     else if c = 4 then rand_maximum_loop pool_rand32 m (mask k) s
     else None)"
    using mask_of_maximum [of m] by (simp add: pool_rand32_maximum_def raw_maximum_defs Let_def c_def k_def)
  have k0: "m = 0 \<longleftrightarrow> c = 0" using bitlen_0_iff [of "unat m"] by (auto simp: c_def k_def unat_eq_zero)
  show ?thesis
  proof (cases "c = 0")
    case True
    then show ?thesis using run k0 by (auto simp: bounded_draw_def word_unat_eq_iff)
  next
    case False
    then have b: "bounded_draw (unat m) s (unat v) s' \<longleftrightarrow> first_accepted c k (unat m) s (unat v) s'"
      using k0 by (simp add: bounded_draw_def c_def k_def unat_eq_zero)
    have "c = 1 \<or> c = 2 \<or> c = 3 \<or> c = 4" using c8 False by presburger
    then show ?thesis
    proof (elim disjE)
      assume "c = 1"
      then show ?thesis unfolding b run k_def
        using narrow_loop_iff [OF draw_eq(1) assms, of m v s'] kc by (simp add: k_def)
    next
      assume "c = 2"
      then show ?thesis unfolding b run k_def
        using narrow_loop_iff [OF draw_eq(2) assms, of m v s'] kc by (simp add: k_def)
    next
      assume "c = 3"
      then show ?thesis unfolding b run k_def
        using rand_maximum_loop_iff [OF draw_eq(3) bitlen_word assms, of m m v s'] by simp
    next
      assume "c = 4"
      then show ?thesis unfolding b run k_def
        using rand_maximum_loop_iff [OF draw_eq(4) bitlen_word assms, of m m v s'] by simp
    qed
  qed
qed

lemma pool_rand64_maximum_iff:
  assumes "pool_ok (pool s)"
  shows "pool_rand64_maximum m s = Some (v, s') \<longleftrightarrow> bounded_draw (unat m) s (unat v) s'"
proof -
  define k where "k = bitlen (unat m)"
  define c where "c = (k + 7) div 8"
  have k: "k \<le> 64" using bitlen_word [of m] by (simp add: k_def)
  have kc: "k \<le> 8 * c" using count_le [of k c] by (simp add: c_def)
  have c8: "c \<le> 8" using k div_le_mono [of "k + 7" "71" 8] by (simp add: c_def)
  have run: "pool_rand64_maximum m s = (if c = 0 then Some (0, s)
     else if c = 1 then map_option (apfst ucast) (rand_maximum_loop pool_rand8 (ucast m) (ucast (mask k :: u64)) s)
     else if c = 2 then map_option (apfst ucast) (rand_maximum_loop pool_rand16 (ucast m) (ucast (mask k :: u64)) s)
     else if c = 3 then map_option (apfst ucast) (rand_maximum_loop pool_rand24 (ucast m) (ucast (mask k :: u64)) s)
     else if c = 4 then map_option (apfst ucast) (rand_maximum_loop pool_rand32 (ucast m) (ucast (mask k :: u64)) s)
     else if c = 5 then rand_maximum_loop pool_rand40 m (mask k) s
     else if c = 6 then rand_maximum_loop pool_rand48 m (mask k) s
     else if c = 7 then rand_maximum_loop pool_rand56 m (mask k) s
     else if c = 8 then rand_maximum_loop pool_rand64 m (mask k) s
     else None)"
    using mask_of_maximum [of m] by (simp add: pool_rand64_maximum_def raw_maximum_defs Let_def c_def k_def)
  have k0: "m = 0 \<longleftrightarrow> c = 0" using bitlen_0_iff [of "unat m"] by (auto simp: c_def k_def unat_eq_zero)
  show ?thesis
  proof (cases "c = 0")
    case True
    then show ?thesis using run k0 by (auto simp: bounded_draw_def word_unat_eq_iff)
  next
    case False
    then have b: "bounded_draw (unat m) s (unat v) s' \<longleftrightarrow> first_accepted c k (unat m) s (unat v) s'"
      using k0 by (simp add: bounded_draw_def c_def k_def unat_eq_zero)
    have "c = 1 \<or> c = 2 \<or> c = 3 \<or> c = 4 \<or> c = 5 \<or> c = 6 \<or> c = 7 \<or> c = 8" using c8 False by presburger
    then show ?thesis
    proof (elim disjE)
      assume "c = 1"
      then show ?thesis unfolding b run k_def
        using narrow_loop_iff [OF draw_eq(1) assms, of m v s'] kc by (simp add: k_def)
    next
      assume "c = 2"
      then show ?thesis unfolding b run k_def
        using narrow_loop_iff [OF draw_eq(2) assms, of m v s'] kc by (simp add: k_def)
    next
      assume "c = 3"
      then show ?thesis unfolding b run k_def
        using narrow_loop_iff [OF draw_eq(3) assms, of m v s'] kc by (simp add: k_def)
    next
      assume "c = 4"
      then show ?thesis unfolding b run k_def
        using narrow_loop_iff [OF draw_eq(4) assms, of m v s'] kc by (simp add: k_def)
    next
      assume "c = 5"
      then show ?thesis unfolding b run k_def
        using rand_maximum_loop_iff [OF draw_eq(5) bitlen_word assms, of m m v s'] by simp
    next
      assume "c = 6"
      then show ?thesis unfolding b run k_def
        using rand_maximum_loop_iff [OF draw_eq(6) bitlen_word assms, of m m v s'] by simp
    next
      assume "c = 7"
      then show ?thesis unfolding b run k_def
        using rand_maximum_loop_iff [OF draw_eq(7) bitlen_word assms, of m m v s'] by simp
    next
      assume "c = 8"
      then show ?thesis unfolding b run k_def
        using rand_maximum_loop_iff [OF draw_eq(8) bitlen_word assms, of m m v s'] by simp
    qed
  qed
qed

subsection \<open>Properties\<close>

lemma card_residue:
  assumes "k \<le> n" "v < 2 ^ k"
  shows "card {x :: nat. x < 2 ^ n \<and> x mod 2 ^ k = v} = 2 ^ (n - k)"
proof -
  have n: "(2 :: nat) ^ n = 2 ^ k * 2 ^ (n - k)" using assms(1) by (simp flip: power_add)
  have "{x :: nat. x < 2 ^ n \<and> x mod 2 ^ k = v} = (\<lambda>j. v + 2 ^ k * j) ` {..<2 ^ (n - k)}" (is "?A = ?B")
  proof
    show "?A \<subseteq> ?B"
    proof
      fix x assume "x \<in> ?A"
      then have x: "x < 2 ^ k * 2 ^ (n - k)" "x mod 2 ^ k = v" using n by simp_all
      then have "x div 2 ^ k < 2 ^ (n - k)" using less_mult_imp_div_less [of x "2 ^ (n - k)" "2 ^ k"] by (simp add: mult.commute)
      moreover have "x = v + 2 ^ k * (x div 2 ^ k)" using x(2) mod_mult_div_eq [of x "2 ^ k"] by simp
      ultimately show "x \<in> ?B" by blast
    qed
    show "?B \<subseteq> ?A"
    proof
      fix x assume "x \<in> ?B"
      then obtain j where j: "j < 2 ^ (n - k)" "x = v + 2 ^ k * j" by auto
      have "x < 2 ^ k * Suc j" using j(2) assms(2) by simp
      also have "\<dots> \<le> 2 ^ n" using j(1) n by (simp only: mult_le_mono2 Suc_leI)
      finally show "x \<in> ?A" using j(2) assms(2) by simp
    qed
  qed
  moreover have "inj_on (\<lambda>j. v + 2 ^ k * j) {..<2 ^ (n - k) :: nat}" by (rule inj_onI) simp
  ultimately show ?thesis by (simp add: card_image)
qed

lemma card_draws: "card {bs. length bs = c \<and> P (le_value bs)} = card {x. x < 256 ^ c \<and> P x}"
proof (rule bij_betw_same_card [of le_value])
  show "bij_betw le_value {bs. length bs = c \<and> P (le_value bs)} {x. x < 256 ^ c \<and> P x}"
    unfolding bij_betw_def
  proof
    show "inj_on le_value {bs. length bs = c \<and> P (le_value bs)}"
      by (rule inj_onI) (auto intro: le_value_inj)
    have "x \<in> le_value ` {bs. length bs = c \<and> P (le_value bs)}" if "x < 256 ^ c" "P x" for x
      using le_value_surj [OF that(1)] that(2) by (auto simp: image_iff)
    moreover have "le_value bs < 256 ^ c" if "length bs = c" for bs using le_value_bound [of bs] that by simp
    ultimately show "le_value ` {bs. length bs = c \<and> P (le_value bs)} = {x. x < 256 ^ c \<and> P x}" by blast
  qed
qed

text \<open>
  Property C8.  The bounded generators of all widths return exactly when some draw is accepted,
  and then the first accepted one: the successive requests of as many bytes as the maximum needs,
  cut to the bits of the maximum, until one does not exceed it.  In particular no \<open>abort()\<close> is
  reached and the result never exceeds the maximum.
\<close>

theorem rand_maximum_exact:
  assumes "pool_ok (pool s)"
  shows "(pool_rand8_maximum m8 s = Some (v8, s') \<longleftrightarrow> first_accepted 1 (bitlen (unat m8)) (unat m8) s (unat v8) s') \<and>
    (pool_rand16_maximum m16 s = Some (v16, s') \<longleftrightarrow> bounded_draw (unat m16) s (unat v16) s') \<and>
    (pool_rand32_maximum m32 s = Some (v32, s') \<longleftrightarrow> bounded_draw (unat m32) s (unat v32) s') \<and>
    (pool_rand64_maximum m64 s = Some (v64, s') \<longleftrightarrow> bounded_draw (unat m64) s (unat v64) s') \<and>
    (bounded_draw m s v s' \<longrightarrow> v \<le> m) \<and> (first_accepted c k m s v s' \<longrightarrow> v \<le> m)"
  using pool_rand8_maximum_iff [OF assms, of m8 v8 s'] pool_rand16_maximum_iff [OF assms, of m16 v16 s']
    pool_rand32_maximum_iff [OF assms, of m32 v32 s'] pool_rand64_maximum_iff [OF assms, of m64 v64 s']
    first_accepted_le [of c k m s v s'] first_accepted_le [of "(bitlen m + 7) div 8" "bitlen m" m s v s']
  by (auto simp: bounded_draw_def)

lemma rand_maximum_exact_witness:
  "pool_rand64_maximum 0 (rng_start sample_kernel) = Some (0, rng_start sample_kernel)"
proof -
  have "pool_ok (pool (rng_start sample_kernel))" by (simp add: rng_start_def pool_static_def pool_ok_def)
  moreover have "bounded_draw (unat (0 :: u64)) (rng_start sample_kernel) (unat (0 :: u64)) (rng_start sample_kernel)"
    by (simp add: bounded_draw_def)
  ultimately show ?thesis using rand_maximum_exact by blast
qed

text \<open>
  Property C30.  No bias: with the bit length and the mask the code computes for a maximum, every
  admissible value stands for the same number of byte strings, and more than half of all byte
  strings are accepted, so a draw is rejected with probability below one half.
\<close>

theorem rand_maximum_uniform:
  assumes "0 < m" "k = ilog2plus1 (p2minus1 m)" "c = (k + 7) div 8"
  shows "unat (p2minus1 m) = 2 ^ k - 1 \<and>
    (\<forall>v \<le> unat m. card {bs :: u8 list. length bs = c \<and> le_value bs mod 2 ^ k = v} = 2 ^ (8 * c - k)) \<and>
    256 ^ c < 2 * card {bs :: u8 list. length bs = c \<and> le_value bs mod 2 ^ k \<le> unat m}"
proof -
  have k: "k = bitlen (unat m)"
    using assms(2) mask_of_maximum [of m] by (simp add: p2minus1_mask)
  have kl: "k \<le> 64" using bitlen_word [of m] by (simp add: k)
  have pm: "unat (p2minus1 m) = 2 ^ k - 1"
  proof -
    have "unat (p2minus1 m) = nat (mask (min 64 k))"
      by (simp only: p2minus1_mask unat_eq_nat_uint uint_mask_eq k) simp
    then show ?thesis using kl by (simp add: min_def nat_mask_eq) (simp add: mask_eq_exp_minus_1)
  qed
  have m: "unat m < 2 ^ k" "2 ^ k \<le> 2 * unat m"
    using bitlen_le_iff [of "unat m" k] bitlen_le_iff [of "unat m" "k - 1"] assms(1)
    by (simp add: k, cases k) (auto simp: k word_less_nat_alt bitlen_0_iff)
  have kc: "k \<le> 8 * c" using count_le assms(3) by blast
  have pw: "(256 :: nat) ^ c = 2 ^ (8 * c)" by (simp add: power_mult)
  have each: "card {bs :: u8 list. length bs = c \<and> le_value bs mod 2 ^ k = v} = 2 ^ (8 * c - k)" if "v \<le> unat m" for v
    using card_residue [OF kc, of v] m(1) that by (simp add: card_draws [of c "\<lambda>x. x mod 2 ^ k = v"] pw)
  have "{bs :: u8 list. length bs = c \<and> le_value bs mod 2 ^ k \<le> unat m} =
      (\<Union>v \<in> {..unat m}. {bs. length bs = c \<and> le_value bs mod 2 ^ k = v})" by auto
  also have "card \<dots> = (\<Sum>v \<in> {..unat m}. card {bs :: u8 list. length bs = c \<and> le_value bs mod 2 ^ k = v})"
  proof (rule card_UN_disjoint)
    show "\<forall>v \<in> {..unat m}. finite {bs :: u8 list. length bs = c \<and> le_value bs mod 2 ^ k = v}"
    proof
      fix v
      have "finite {bs :: u8 list. length bs = c}"
        using finite_lists_length_eq [of "UNIV :: u8 set" c] by simp
      then show "finite {bs :: u8 list. length bs = c \<and> le_value bs mod 2 ^ k = v}" by (rule rev_finite_subset) auto
    qed
  qed auto
  also have "\<dots> = Suc (unat m) * 2 ^ (8 * c - k)" using each by simp
  finally have total: "card {bs :: u8 list. length bs = c \<and> le_value bs mod 2 ^ k \<le> unat m} = Suc (unat m) * 2 ^ (8 * c - k)" .
  have "(256 :: nat) ^ c = 2 ^ k * 2 ^ (8 * c - k)" using kc by (simp add: pw flip: power_add)
  also have "\<dots> < (2 * Suc (unat m)) * 2 ^ (8 * c - k)"
    by (rule mult_strict_right_mono) (use m(2) in simp_all)
  finally show ?thesis using pm each total by (simp add: mult.assoc)
qed

lemma rand_maximum_uniform_witness:
  "card {bs :: u8 list. length bs = 2 \<and> le_value bs mod 1024 = 999} = 64"
proof -
  have "bitlen 1000 = 10" by (rule bitlen_eqI) simp_all
  then have k: "ilog2plus1 (p2minus1 1000) = 10" using mask_of_maximum(2) [of "1000 :: u64"] by (simp add: p2minus1_mask)
  have all: "\<forall>v \<le> unat (1000 :: u64). card {bs :: u8 list. length bs = 2 \<and> le_value bs mod 2 ^ 10 = v} = 2 ^ (8 * 2 - 10)"
    by (rule rand_maximum_uniform [THEN conjunct2, THEN conjunct1]) (simp_all add: k)
  have "999 \<le> unat (1000 :: u64)" by simp
  with all have "card {bs :: u8 list. length bs = 2 \<and> le_value bs mod 2 ^ 10 = 999} = 2 ^ (8 * 2 - 10)" by blast
  moreover have "(2 :: nat) ^ 10 = 1024" "(2 :: nat) ^ (8 * 2 - 10) = 64" by simp_all
  ultimately show ?thesis by (simp only:)
qed

end
