(* ===== verification/RandText.thy ===== *)
theory RandText
  imports RandMax
begin

text \<open>
  Component \<open>random\<close>, text part (src/src/random.c): random strings over an alphabet and
  random base16, base32 and base64 texts.

  A character buffer is the whole object as a \<open>string\<close>; a store outside it is \<open>None\<close>, like every
  other way of not returning.  \<open>size_t\<close> has 64 bits; the functions test their arguments so that
  no computation on it wraps, and these tests are part of the model.
\<close>

definition INT_MAX :: nat where "INT_MAX = 2147483647"
definition SIZE_MAX :: nat where "SIZE_MAX = 2 ^ 64 - 1"
definition NUL :: char where "NUL = CHR 0x00"

definition put :: "nat \<Rightarrow> char \<Rightarrow> string \<Rightarrow> string option" where
  "put p c buf = (if p < length buf then Some (buf[p := c]) else None)"

definition copy_to :: "nat \<Rightarrow> string \<Rightarrow> string \<Rightarrow> string option" where
  "copy_to p xs buf = (if p + length xs \<le> length buf then Some (mem_write p xs buf) else None)"

subsection \<open>Strings over an alphabet\<close>

fun random_string_loop :: "string \<Rightarrow> nat \<Rightarrow> nat \<Rightarrow> string \<Rightarrow> rng \<Rightarrow> ((nat \<times> string) \<times> rng) option" where
  "random_string_loop alphabet 0 p buf s = Some ((p, buf), s)"
| "random_string_loop alphabet (Suc ps) p buf s = do {
     (i, s) \<leftarrow> pool_rand_size_maximum (of_nat (length alphabet - 1)) s;
     c \<leftarrow> (if unat i < length alphabet then Some (alphabet ! unat i) else None);
     buf \<leftarrow> put p c buf;
     random_string_loop alphabet ps (p + 1) buf s }"

text \<open>\<open>alphabet\<close> is the C string without its terminator.\<close>

definition futils_random_string :: "string \<Rightarrow> nat \<Rightarrow> nat \<Rightarrow> string \<Rightarrow> rng \<Rightarrow> ((nat res \<times> string) \<times> rng) option" where
  "futils_random_string buf len count alphabet s =
    (if count > INT_MAX then Some ((Inl EINVAL, buf), s)
     else if len = 0 then (if alphabet = [] then Some ((Inr 0, buf), s) else Some ((Inr count, buf), s))
     else if alphabet = [] then do { buf \<leftarrow> put 0 NUL buf; Some ((Inr 0, buf), s) }
     else do {
       let ps = (if count > len - 1 then len - 1 else count);
       ((p, buf), s) \<leftarrow> random_string_loop alphabet ps 0 buf s;
       buf \<leftarrow> put p NUL buf;
       Some ((Inr count, buf), s) })"

subsection \<open>Base 16\<close>

definition alphabet16 :: string where "alphabet16 = ''0123456789abcdef''"

text \<open>\<open>n\<close> times: store the digit of the low bits of \<open>v\<close> and shift.\<close>

fun put_digits :: "string \<Rightarrow> nat \<Rightarrow> nat \<Rightarrow> u64 \<Rightarrow> nat \<Rightarrow> string \<Rightarrow> (nat \<times> string) option" where
  "put_digits alphabet k 0 v p buf = Some (p, buf)"
| "put_digits alphabet k (Suc n) v p buf = do {
     buf \<leftarrow> put p (alphabet ! unat (v AND mask k)) buf;
     put_digits alphabet k n (drop_bit k v) (p + 1) buf }"

function base16_loop :: "nat \<Rightarrow> nat \<Rightarrow> string \<Rightarrow> rng \<Rightarrow> ((nat \<times> nat \<times> string) \<times> rng) option" where
  "base16_loop ps p buf s =
    (if ps \<ge> 16 then do {
       (v, s) \<leftarrow> pool_rand64 s;
       (p, buf) \<leftarrow> put_digits alphabet16 4 16 v p buf;
       base16_loop (ps - 16) p buf s }
     else Some ((ps, p, buf), s))"
  by pat_completeness auto
termination by (relation "measure fst") auto

declare base16_loop.simps [simp del]

definition futils_random_base16 :: "string \<Rightarrow> nat \<Rightarrow> nat \<Rightarrow> rng \<Rightarrow> ((nat res \<times> string) \<times> rng) option" where
  "futils_random_base16 buf len count s =
    (if count > (INT_MAX + 1) div 2 then Some ((Inl EINVAL, buf), s)
     else if count * 2 > INT_MAX then Some ((Inl EINVAL, buf), s)
     else if len = 0 then Some ((Inr (count * 2), buf), s)
     else do {
       let ps = (if count * 2 > len - 1 then len - 1 else count * 2);
       ((ps, p, buf), s) \<leftarrow> base16_loop ps 0 buf s;
       ((p, buf), s) \<leftarrow> (if ps \<noteq> 0 then do {
           (v, s) \<leftarrow> pool_rand64 s;
           (p, buf) \<leftarrow> put_digits alphabet16 4 ps v p buf;
           Some ((p, buf), s) }
         else Some ((p, buf), s));
       buf \<leftarrow> put p NUL buf;
       Some ((Inr (count * 2), buf), s) })"

subsection \<open>Base 32 and base 64\<close>

definition alphabet32 :: string where "alphabet32 = ''ABCDEFGHIJKLMNOPQRSTUVWXYZ234567''"

definition alphabet64 :: string where
  "alphabet64 = ''ABCDEFGHIJKLMNOPQRSTUVWXYZabcdefghijklmnopqrstuvwxyz0123456789+/''"

text \<open>The eight and four characters of a whole blob.\<close>

definition blob32 :: "u64 \<Rightarrow> string" where
  "blob32 v =
    [alphabet32 ! unat (drop_bit 0 v AND 31), alphabet32 ! unat (drop_bit 5 v AND 31),
     alphabet32 ! unat (drop_bit 10 v AND 31), alphabet32 ! unat (drop_bit 15 v AND 31),
     alphabet32 ! unat (drop_bit 20 v AND 31), alphabet32 ! unat (drop_bit 25 v AND 31),
     alphabet32 ! unat (drop_bit 30 v AND 31), alphabet32 ! unat (drop_bit 35 v AND 31)]"

definition blob64 :: "u32 \<Rightarrow> string" where
  "blob64 v =
    [alphabet64 ! unat (drop_bit 0 v AND 63), alphabet64 ! unat (drop_bit 6 v AND 63),
     alphabet64 ! unat (drop_bit 12 v AND 63), alphabet64 ! unat (drop_bit 18 v AND 63)]"

text \<open>The loop of the last blob: \<open>b[i] = alphabet[v & m]; v >>= k\<close>, and the value left.\<close>

fun tail_digits :: "string \<Rightarrow> 'a::len word \<Rightarrow> nat \<Rightarrow> nat \<Rightarrow> 'a word \<Rightarrow> string \<times> 'a word" where
  "tail_digits alphabet m k 0 v = ([], v)"
| "tail_digits alphabet m k (Suc n) v =
    (let (ds, v') = tail_digits alphabet m k n (drop_bit k v) in (alphabet ! unat (v AND m) # ds, v'))"

text \<open>The last blob for \<open>c\<close> remaining bytes, padded with \<open>=\<close>.  The mask is a 32-bit \<open>unsigned int\<close>.\<close>

definition tail32 :: "nat \<Rightarrow> u64 \<Rightarrow> string" where
  "tail32 c v =
    (let n = (c * 8) div 5;
         (b, v) = tail_digits alphabet32 31 5 n v;
         remaining = c * 8 - n * 5;
         msk = NOT (push_bit (5 - remaining) 1 - 1) :: u32;
         b = b @ [alphabet32 ! unat ((v AND 31) AND ucast msk)]
     in b @ replicate (8 - length b) CHR ''='')"

definition tail64 :: "nat \<Rightarrow> u32 \<Rightarrow> string" where
  "tail64 c v =
    (let n = (c * 8) div 6;
         (b, v) = tail_digits alphabet64 63 3 n v;
         remaining = c * 8 - n * 6;
         msk = NOT (push_bit (6 - remaining) 1 - 1) :: u32;
         b = b @ [alphabet64 ! unat ((v AND 63) AND msk)]
     in b @ replicate (4 - length b) CHR ''='')"

text \<open>The loops over whole blobs: \<open>c\<close> bytes left, \<open>ps\<close> characters left, at position \<open>p\<close>.\<close>

function base32_loop :: "nat \<Rightarrow> nat \<Rightarrow> nat \<Rightarrow> string \<Rightarrow> rng \<Rightarrow> ((nat \<times> nat \<times> nat \<times> string) \<times> rng) option" where
  "base32_loop c ps p buf s =
    (if c \<ge> 5 \<and> ps \<noteq> 0 then do {
       (v, s) \<leftarrow> pool_rand64 s;
       let bs = (if 8 > ps then ps else 8);
       buf \<leftarrow> copy_to p (take bs (blob32 v)) buf;
       base32_loop (c - 5) (ps - bs) (p + bs) buf s }
     else Some ((c, ps, p, buf), s))"
  by pat_completeness auto
termination by (relation "measure fst") auto

function base64_loop :: "nat \<Rightarrow> nat \<Rightarrow> nat \<Rightarrow> string \<Rightarrow> rng \<Rightarrow> ((nat \<times> nat \<times> nat \<times> string) \<times> rng) option" where
  "base64_loop c ps p buf s =
    (if c \<ge> 3 \<and> ps \<noteq> 0 then do {
       (v, s) \<leftarrow> pool_rand32 s;
       let bs = (if 4 > ps then ps else 4);
       buf \<leftarrow> copy_to p (take bs (blob64 v)) buf;
       base64_loop (c - 3) (ps - bs) (p + bs) buf s }
     else Some ((c, ps, p, buf), s))"
  by pat_completeness auto
termination by (relation "measure fst") auto

declare base32_loop.simps [simp del] base64_loop.simps [simp del]

definition futils_random_base32 :: "string \<Rightarrow> nat \<Rightarrow> nat \<Rightarrow> rng \<Rightarrow> ((nat res \<times> string) \<times> rng) option" where
  "futils_random_base32 buf len count s =
    (if count > SIZE_MAX - 4 then Some ((Inl EINVAL, buf), s)
     else if (count + 4) div 5 > (INT_MAX + 7) div 8 then Some ((Inl EINVAL, buf), s)
     else if ((count + 4) div 5) * 8 > INT_MAX then Some ((Inl EINVAL, buf), s)
     else if len = 0 then Some ((Inr (((count + 4) div 5) * 8), buf), s)
     else do {
       let ps = ((count + 4) div 5) * 8;
       let ps = (if ps > len - 1 then len - 1 else ps);
       ((c, ps, p, buf), s) \<leftarrow> base32_loop count ps 0 buf s;
       ((p, buf), s) \<leftarrow> (if c \<noteq> 0 \<and> ps \<noteq> 0 then do {
           (v, s) \<leftarrow> pool_rand64 s;
           let bs = (if 8 > ps then ps else 8);
           buf \<leftarrow> copy_to p (take bs (tail32 c v)) buf;
           Some ((p + bs, buf), s) }
         else Some ((p, buf), s));
       buf \<leftarrow> put p NUL buf;
       Some ((Inr (((count + 4) div 5) * 8), buf), s) })"

definition futils_random_base64 :: "string \<Rightarrow> nat \<Rightarrow> nat \<Rightarrow> rng \<Rightarrow> ((nat res \<times> string) \<times> rng) option" where
  "futils_random_base64 buf len count s =
    (if count > SIZE_MAX - 2 then Some ((Inl EINVAL, buf), s)
     else if (count + 2) div 3 > (INT_MAX + 3) div 4 then Some ((Inl EINVAL, buf), s)
     else if ((count + 2) div 3) * 4 > INT_MAX then Some ((Inl EINVAL, buf), s)
     else if len = 0 then Some ((Inr (((count + 2) div 3) * 4), buf), s)
     else do {
       let ps = ((count + 2) div 3) * 4;
       let ps = (if ps > len - 1 then len - 1 else ps);
       ((c, ps, p, buf), s) \<leftarrow> base64_loop count ps 0 buf s;
       ((p, buf), s) \<leftarrow> (if c \<noteq> 0 \<and> ps \<noteq> 0 then do {
           (v, s) \<leftarrow> pool_rand32 s;
           let bs = (if 4 > ps then ps else 4);
           buf \<leftarrow> copy_to p (take bs (tail64 c v)) buf;
           Some ((p + bs, buf), s) }
         else Some ((p, buf), s));
       buf \<leftarrow> put p NUL buf;
       Some ((Inr (((count + 2) div 3) * 4), buf), s) })"

subsection \<open>Writing into buffers\<close>

lemma put_eq: "p < length buf \<Longrightarrow> put p c buf = Some (mem_write p [c] buf)"
  by (simp add: put_def mem_write_def upd_conv_take_nth_drop)

lemma copy_to_eq: "p + length xs \<le> length buf \<Longrightarrow> copy_to p xs buf = Some (mem_write p xs buf)"
  by (simp add: copy_to_def)

lemma mem_write_append:
  "p + length xs + length ys \<le> length m \<Longrightarrow>
   mem_write (p + length xs) ys (mem_write p xs m) = mem_write p (xs @ ys) m"
  by (rule nth_equalityI) (auto simp: nth_mem_write nth_append add_ac)

subsection \<open>A seeded generator always answers\<close>

definition ready :: "rng \<Rightarrow> bool" where
  "ready s \<longleftrightarrow> pool_ok (pool s) \<and> era (pool s) = seed_era s"

lemma ready_draw:
  assumes "ready s"
  obtains v s' where "draw_bytes c s = Some (v, s')" "ready s'"
proof -
  have r: "pool_ok (pool s)" "era (pool s) = seed_era s" using assms by (simp_all add: ready_def)
  obtain p' where "pool_rand c s = Some (fst (spec_rand c (pool_abs (pool s))), s\<lparr>pool := p'\<rparr>)" "pool_ok p'" "era p' = seed_era s"
    by (rule pool_rand_seeded [OF r])
  then show thesis using that by (simp add: draw_bytes_def ready_def)
qed

lemma ready_rand64:
  assumes "ready s"
  obtains v s' where "pool_rand64 s = Some (v, s')" "ready s'"
  using ready_draw [OF assms] draw_eq(8) [of s] assms that by (metis ready_def)

lemma ready_rand32:
  assumes "ready s"
  obtains v s' where "pool_rand32 s = Some (v, s')" "ready s'"
  using ready_draw [OF assms] draw_eq(4) [of s] assms that by (metis ready_def)

subsection \<open>Digits\<close>

lemma length_tail_digits [simp]: "length (fst (tail_digits al m k n v)) = n"
  by (induction n arbitrary: v) (simp_all add: case_prod_beta Let_def)

lemma masked_less: "unat (v AND mask k :: 'a::len word) < 2 ^ k"
  by (simp add: unat_and_mask)

lemma set_tail_digits: "2 ^ k \<le> length al \<Longrightarrow> set (fst (tail_digits al (mask k) j n v)) \<subseteq> set al"
proof (induction n arbitrary: v)
  case (Suc n)
  have "unat (v AND mask k) < length al" using masked_less [of v k] Suc.prems by simp
  with Suc show ?case by (simp add: case_prod_beta Let_def)
qed simp

lemma put_digits_eq:
  "p + n \<le> length buf \<Longrightarrow>
   put_digits al k n v p buf = Some (p + n, mem_write p (fst (tail_digits al (mask k) k n v)) buf)"
proof (induction n arbitrary: v p buf)
  case (Suc n)
  let ?c = "al ! unat (v AND mask k)"
  have "put p ?c buf = Some (mem_write p [?c] buf)" using Suc.prems by (intro put_eq) simp
  moreover have "p + 1 + n \<le> length (mem_write p [?c] buf)" using Suc.prems by simp
  note Suc.IH [OF this, of "drop_bit k v"]
  ultimately show ?case using Suc.prems mem_write_append [of p "[?c]" "fst (tail_digits al (mask k) k n (drop_bit k v))" buf]
    by (simp add: case_prod_beta Let_def)
qed simp

lemma length_alphabet: "length alphabet16 = 16" "length alphabet32 = 32" "length alphabet64 = 64"
  by (simp_all add: alphabet16_def alphabet32_def alphabet64_def)

subsection \<open>Base 16\<close>

lemma base16_loop_run:
  assumes "ready s" "p + ps \<le> length buf"
  shows "\<exists>tx s'. base16_loop ps p buf s = Some ((ps mod 16, p + length tx, mem_write p tx buf), s') \<and>
    length tx = ps - ps mod 16 \<and> set tx \<subseteq> set alphabet16 \<and> ready s'"
  using assms
proof (induction ps p buf s rule: base16_loop.induct)
  case (1 ps p buf s)
  show ?case
  proof (cases "ps \<ge> 16")
    case True
    obtain v s1 where v: "pool_rand64 s = Some (v, s1)" "ready s1" by (rule ready_rand64 [OF "1.prems"(1)])
    let ?d = "fst (tail_digits alphabet16 (mask 4) 4 16 v)"
    have put: "put_digits alphabet16 4 16 v p buf = Some (p + 16, mem_write p ?d buf)"
      using "1.prems"(2) True by (intro put_digits_eq) simp
    have "\<exists>tx s'. base16_loop (ps - 16) (p + 16) (mem_write p ?d buf) s1 =
        Some (((ps - 16) mod 16, p + 16 + length tx, mem_write (p + 16) tx (mem_write p ?d buf)), s') \<and>
      length tx = ps - 16 - (ps - 16) mod 16 \<and> set tx \<subseteq> set alphabet16 \<and> ready s'"
      using "1.IH" [OF True v(1) refl put refl] v(2) "1.prems"(2) True by simp
    then obtain tx s' where t: "base16_loop (ps - 16) (p + 16) (mem_write p ?d buf) s1 =
        Some (((ps - 16) mod 16, p + 16 + length tx, mem_write (p + 16) tx (mem_write p ?d buf)), s')"
      "length tx = ps - 16 - (ps - 16) mod 16" "set tx \<subseteq> set alphabet16" "ready s'"
      by blast
    have m: "(ps - 16) mod 16 = ps mod 16" using True by (simp add: le_mod_geq)
    have "mem_write (p + 16) tx (mem_write p ?d buf) = mem_write p (?d @ tx) buf"
      using mem_write_append [of p ?d tx buf] "1.prems"(2) t(2) True by simp
    moreover have "set ?d \<subseteq> set alphabet16" by (rule set_tail_digits) (simp add: length_alphabet)
    moreover have "16 + (ps - 16 - ps mod 16) = ps - ps mod 16"
    proof -
      have "ps mod 16 \<le> ps - 16" using m mod_less_eq_dividend [of "ps - 16" 16] by simp
      then show ?thesis using True by simp
    qed
    ultimately show ?thesis using True v put t
      by (subst base16_loop.simps) (intro exI [of _ "?d @ tx"] exI [of _ s'], simp add: m)
  next
    case False
    then show ?thesis using "1.prems"(1) by (subst base16_loop.simps) (intro exI [of _ "[]"] exI [of _ s], simp)
  qed
qed


lemma base16_run:
  assumes "ready s" "0 < len" "len \<le> length buf" "2 * count \<le> INT_MAX"
  shows "\<exists>tx s'. futils_random_base16 buf len count s = Some ((Inr (2 * count), mem_write 0 (tx @ [NUL]) buf), s') \<and>
    length tx = min (2 * count) (len - 1) \<and> set tx \<subseteq> set alphabet16 \<and> ready s'"
proof -
  define ps where "ps = (if count * 2 > len - 1 then len - 1 else count * 2)"
  have ps: "ps = min (2 * count) (len - 1)" "ps < length buf" using assms(2,3) by (auto simp: ps_def)
  obtain t1 s1 where 1: "base16_loop ps 0 buf s = Some ((ps mod 16, length t1, mem_write 0 t1 buf), s1)"
    "length t1 = ps - ps mod 16" "set t1 \<subseteq> set alphabet16" "ready s1"
    using base16_loop_run [OF assms(1), of 0 ps buf] ps(2) by auto
  have ok: "\<not> count > (INT_MAX + 1) div 2" "\<not> count * 2 > INT_MAX" using assms(4) by auto
  obtain t2 s2 where 2: "(if ps mod 16 \<noteq> 0 then do {
           (v, s) \<leftarrow> pool_rand64 s1;
           (p, buf) \<leftarrow> put_digits alphabet16 4 (ps mod 16) v (length t1) (mem_write 0 t1 buf);
           Some ((p, buf), s) }
         else Some ((length t1, mem_write 0 t1 buf), s1)) = Some ((ps, mem_write 0 (t1 @ t2) buf), s2)"
    "length (t1 @ t2) = ps" "set t2 \<subseteq> set alphabet16" "ready s2"
  proof (cases "ps mod 16 = 0")
    case True
    then show thesis using that [of "[]" s1] 1 by simp
  next
    case False
    obtain v s2 where v: "pool_rand64 s1 = Some (v, s2)" "ready s2" by (rule ready_rand64 [OF 1(4)])
    let ?d = "fst (tail_digits alphabet16 (mask 4) 4 (ps mod 16) v)"
    have "set ?d \<subseteq> set alphabet16" by (rule set_tail_digits) (simp add: length_alphabet)
    moreover have "put_digits alphabet16 4 (ps mod 16) v (length t1) (mem_write 0 t1 buf) =
        Some (ps, mem_write (length t1) ?d (mem_write 0 t1 buf))"
      using 1(2) ps(2) put_digits_eq [of "length t1" "ps mod 16" "mem_write 0 t1 buf" alphabet16 4 v]
      by (simp add: mod_less_eq_dividend)
    moreover have "mem_write (length t1) ?d (mem_write 0 t1 buf) = mem_write 0 (t1 @ ?d) buf"
      using mem_write_append [of 0 t1 ?d buf] 1(2) ps(2) by simp
    ultimately show thesis using that [of ?d s2] v False 1(2) by simp
  qed
  have "put ps NUL (mem_write 0 (t1 @ t2) buf) = Some (mem_write 0 ((t1 @ t2) @ [NUL]) buf)"
    using mem_write_append [of 0 "t1 @ t2" "[NUL]" buf] 2(2) ps(2) put_eq [of ps "mem_write 0 (t1 @ t2) buf" NUL] by simp
  then have "futils_random_base16 buf len count s = Some ((Inr (2 * count), mem_write 0 ((t1 @ t2) @ [NUL]) buf), s2)"
    using ok assms(2) 1(1) 2(1) unfolding futils_random_base16_def Let_def ps_def [symmetric]
    by (simp add: mult.commute)
  then show ?thesis using 1(3) 2(2-4) ps(1) by (intro exI [of _ "t1 @ t2"] exI [of _ s2]) simp
qed

subsection \<open>Base 64 and base 32\<close>

text \<open>The whole texts that given draws stand for.\<close>

fun text64 :: "nat \<Rightarrow> u32 list \<Rightarrow> string" where
  "text64 c [] = []"
| "text64 c (v # vs) = (if c \<ge> 3 then blob64 v @ text64 (c - 3) vs else if c \<noteq> 0 then tail64 c v else [])"

fun text32 :: "nat \<Rightarrow> u64 list \<Rightarrow> string" where
  "text32 c [] = []"
| "text32 c (v # vs) = (if c \<ge> 5 then blob32 v @ text32 (c - 5) vs else if c \<noteq> 0 then tail32 c v else [])"

lemma length_blob [simp]: "length (blob64 v) = 4" "length (blob32 w) = 8"
  by (simp_all add: blob64_def blob32_def)

text \<open>The tails written out.\<close>

lemma tail64_eq:
  "tail64 1 v = [alphabet64 ! unat (v AND 63), alphabet64 ! unat ((drop_bit 3 v AND 63) AND NOT 15)] @ ''==''"
  "tail64 2 v = [alphabet64 ! unat (v AND 63), alphabet64 ! unat (drop_bit 3 v AND 63),
     alphabet64 ! unat ((drop_bit 3 (drop_bit 3 v) AND 63) AND NOT 3)] @ ''=''"
proof -
  have d1: "tail_digits al m k 1 v = ([al ! unat (v AND m)], drop_bit k v)" for al m k and v :: u32
    by simp
  have d2: "tail_digits al m k 2 v = ([al ! unat (v AND m), al ! unat (drop_bit k v AND m)], drop_bit k (drop_bit k v))"
    for al m k and v :: u32
    by (simp add: numeral_2_eq_2)
  have n: "(1 * 8) div 6 = (1 :: nat)" "(2 * 8) div 6 = (2 :: nat)" by simp_all
  have m: "NOT (push_bit (6 - (1 * 8 - 1 * 6)) 1 - 1) = (NOT 15 :: u32)"
    "NOT (push_bit (6 - (2 * 8 - 2 * 6)) 1 - 1) = (NOT 3 :: u32)" by simp_all
  show "tail64 1 v = [alphabet64 ! unat (v AND 63), alphabet64 ! unat ((drop_bit 3 v AND 63) AND NOT 15)] @ ''==''"
    unfolding tail64_def Let_def n d1 prod.case m by (simp add: numeral_2_eq_2)
  show "tail64 2 v = [alphabet64 ! unat (v AND 63), alphabet64 ! unat (drop_bit 3 v AND 63),
     alphabet64 ! unat ((drop_bit 3 (drop_bit 3 v) AND 63) AND NOT 3)] @ ''=''"
    unfolding tail64_def Let_def n d2 prod.case m by simp
qed


text \<open>
  A canonical text of \<open>count\<close> bytes with digits of \<open>k\<close> bits, \<open>g\<close> bytes to \<open>q\<close> characters: alphabet
  characters, the right padding, and unused low bits of the last digit clear.
\<close>

definition canonical :: "nat \<Rightarrow> nat \<Rightarrow> nat \<Rightarrow> string \<Rightarrow> nat \<Rightarrow> string \<Rightarrow> bool" where
  "canonical k g q alphabet count t \<longleftrightarrow>
    (let r = count mod g; d = (8 * r + k - 1) div k in
     length t = q * ((count + g - 1) div g) \<and>
     (if r = 0 then set t \<subseteq> set alphabet
      else \<exists>body i. t = body @ [alphabet ! (i * 2 ^ (k * d - 8 * r))] @ replicate (q - d) CHR ''='' \<and>
        set body \<subseteq> set alphabet \<and> i < 2 ^ (8 * r - k * (d - 1))))"

lemma masked_multiple:
  assumes "j \<le> k"
  shows "\<exists>i < 2 ^ (k - j). unat ((x AND mask k) AND NOT (mask j) :: 'a::len word) = i * 2 ^ j"
proof -
  have "(x AND mask k) AND NOT (mask j) = push_bit j (drop_bit j (x AND mask k))"
    by (rule bit_word_eqI) (auto simp: bit_simps)
  moreover have "unat (push_bit j (drop_bit j (x AND mask k))) = unat (drop_bit j (x AND mask k)) * 2 ^ j"
  proof -
    have "unat (drop_bit j (x AND mask k)) * 2 ^ j \<le> unat (x AND mask k)" by (simp add: unat_drop_bit del: drop_bit_and)
    then have "unat (drop_bit j (x AND mask k)) * 2 ^ j < 2 ^ LENGTH('a)" using unat_bound by (rule le_less_trans)
    then show ?thesis unfolding unsigned_push_bit_eq by (simp add: push_bit_eq_mult take_bit_nat_eq_self)
  qed
  moreover have "unat (drop_bit j (x AND mask k)) < 2 ^ (k - j)"
  proof -
    have "(2 :: nat) ^ k = 2 ^ (k - j) * 2 ^ j" using assms by (simp flip: power_add)
    then show ?thesis using masked_less [of x k] by (simp add: unat_drop_bit less_mult_imp_div_less del: drop_bit_and)
  qed
  ultimately show ?thesis by auto
qed

lemma mask_numerals: "(63 :: 'a::len word) = mask 6" "(31 :: 'a word) = mask 5"
  by (simp_all add: mask_eq_exp_minus_1)

lemma push_bit_mask: "push_bit j 1 - 1 = (mask j :: 'a::len word)" "2 ^ j - 1 = (mask j :: 'a::len word)"
  by (simp_all add: mask_eq_exp_minus_1 push_bit_eq_mult)

lemma ucast_not_mask: "(v AND mask 5) AND ucast (NOT (mask j) :: u32) = (v AND mask 5) AND NOT (mask j) " for v :: u64
  by (rule bit_word_eqI) (auto simp: bit_simps)

lemma tail64_canonical:
  assumes "c \<noteq> 0" "c < 3"
  shows "canonical 6 3 4 alphabet64 c (tail64 c v)"
proof -
  define n where "n = (c * 8) div 6"
  obtain ds w where ds: "tail_digits alphabet64 63 3 n v = (ds, w)" by (cases "tail_digits alphabet64 63 3 n v")
  have len: "length ds = n" using length_tail_digits [of alphabet64 "63" 3 n v] ds by simp
  have "set ds \<subseteq> set alphabet64"
    using set_tail_digits [of 6 alphabet64 3 n v] ds length_alphabet by (simp add: mask_numerals)
  note len = len this
  define j where "j = 6 - (c * 8 - n * 6)"
  define last_digit where "last_digit = unat ((w AND mask 6) AND NOT (mask j))"
  have t: "tail64 c v = (ds @ [alphabet64 ! last_digit]) @ replicate (4 - (n + 1)) CHR ''=''"
    using ds len(1) by (simp add: tail64_def Let_def push_bit_mask mask_numerals last_digit_def j_def flip: n_def)
  have c2: "c = 1 \<or> c = 2" using assms by auto
  have nums: "(8 * c + 6 - 1) div 6 = n + 1" "6 * (n + 1) - 8 * c = j" "8 * c - 6 * n = 6 - j" "j \<le> 6" "n + 1 \<le> 4"
    "(c + 3 - 1) div 3 = 1"
    using c2 by (elim disjE; simp add: n_def j_def)+
  obtain i where i: "i < 2 ^ (6 - j)" "last_digit = i * 2 ^ j"
    using masked_multiple [OF nums(4), of w] unfolding last_digit_def by blast
  have r: "c mod 3 = c" using assms by simp
  have "length (tail64 c v) = 4 * 1" using len(1) nums(5) by (simp add: t)
  moreover have "tail64 c v = ds @ [alphabet64 ! (i * 2 ^ j)] @ replicate (4 - (n + 1)) CHR ''=''"
    using i(2) by (simp add: t)
  moreover have "i < 2 ^ (8 * c - 6 * (n + 1 - 1))" using i(1) nums(3) by simp
  ultimately show ?thesis
    unfolding canonical_def Let_def r nums(1,2,6) if_not_P [OF assms(1)] using len(2) by blast
qed

lemma tail32_canonical:
  assumes "c \<noteq> 0" "c < 5"
  shows "canonical 5 5 8 alphabet32 c (tail32 c v)"
proof -
  define n where "n = (c * 8) div 5"
  obtain ds w where ds: "tail_digits alphabet32 31 5 n v = (ds, w)" by (cases "tail_digits alphabet32 31 5 n v")
  have len: "length ds = n" using length_tail_digits [of alphabet32 "31" 5 n v] ds by simp
  have "set ds \<subseteq> set alphabet32"
    using set_tail_digits [of 5 alphabet32 5 n v] ds length_alphabet by (simp add: mask_numerals)
  note len = len this
  define j where "j = 5 - (c * 8 - n * 5)"
  define last_digit where "last_digit = unat ((w AND mask 5) AND NOT (mask j))"
  have t: "tail32 c v = (ds @ [alphabet32 ! last_digit]) @ replicate (8 - (n + 1)) CHR ''=''"
    using ds len(1) by (simp add: tail32_def Let_def push_bit_mask mask_numerals last_digit_def j_def ucast_not_mask flip: n_def)
  have c4: "c = 1 \<or> c = 2 \<or> c = 3 \<or> c = 4" using assms by auto
  have nums: "(8 * c + 5 - 1) div 5 = n + 1" "5 * (n + 1) - 8 * c = j" "8 * c - 5 * n = 5 - j" "j \<le> 5" "n + 1 \<le> 8"
    "(c + 5 - 1) div 5 = 1"
    using c4 by (elim disjE; simp add: n_def j_def)+
  obtain i where i: "i < 2 ^ (5 - j)" "last_digit = i * 2 ^ j"
    using masked_multiple [OF nums(4), of w] unfolding last_digit_def by blast
  have r: "c mod 5 = c" using assms by simp
  have "length (tail32 c v) = 8 * 1" using len(1) nums(5) by (simp add: t)
  moreover have "tail32 c v = ds @ [alphabet32 ! (i * 2 ^ j)] @ replicate (8 - (n + 1)) CHR ''=''"
    using i(2) by (simp add: t)
  moreover have "i < 2 ^ (8 * c - 5 * (n + 1 - 1))" using i(1) nums(3) by simp
  ultimately show ?thesis
    unfolding canonical_def Let_def r nums(1,2,6) if_not_P [OF assms(1)] using len(2) by blast
qed

lemma set_blob: "set (blob64 v) \<subseteq> set alphabet64" "set (blob32 w) \<subseteq> set alphabet32"
proof -
  have 64: "alphabet64 ! unat (x AND 63) \<in> set alphabet64" for x :: u32
    using masked_less [of x 6] by (intro nth_mem) (simp add: mask_numerals length_alphabet)
  have 32: "alphabet32 ! unat (x AND 31) \<in> set alphabet32" for x :: u64
    using masked_less [of x 5] by (intro nth_mem) (simp add: mask_numerals length_alphabet)
  show "set (blob64 v) \<subseteq> set alphabet64" unfolding blob64_def by (simp only: list.set insert_subset empty_subsetI 64 simp_thms)
  show "set (blob32 w) \<subseteq> set alphabet32" unfolding blob32_def by (simp only: list.set insert_subset empty_subsetI 32 simp_thms)
qed

lemma canonical_blob:
  assumes "canonical k g q alphabet (c - g) t" "c \<ge> g" "0 < g" "length b = q" "set b \<subseteq> set alphabet"
  shows "canonical k g q alphabet c (b @ t)"
proof -
  define r where "r = c mod g"
  have r: "(c - g) mod g = r" unfolding r_def by (rule le_mod_geq [OF assms(2), symmetric])
  have "c + g - 1 = (c - g + g - 1) + g" using assms(2,3) by linarith
  then have "(c + g - 1) div g = ((c - g + g - 1) + g) div g" by (rule arg_cong)
  also have "\<dots> = (c - g + g - 1) div g + 1" by (rule div_add_self2) (use assms(3) in blast)
  finally have d: "(c + g - 1) div g = (c - g + g - 1) div g + 1" .
  define m where "m = (8 * r + k - 1) div k"
  note a = assms(1) [unfolded canonical_def Let_def r, folded m_def]
  note t = conjunct1 [OF a] conjunct2 [OF a]
  have l: "length (b @ t) = q * ((c + g - 1) div g)" 
    unfolding length_append assms(4) t(1) d by (simp only: distrib_left mult_1_right add.commute)
  show ?thesis
  proof (cases "r = 0")
    case True
    then show ?thesis using t(2) l assms(5) by (simp add: canonical_def Let_def flip: r_def)
  next
    case False
    then obtain body i where "t = body @ [alphabet ! (i * 2 ^ (k * m - 8 * r))] @ replicate (q - m) CHR ''=''"
      "set body \<subseteq> set alphabet" "i < 2 ^ (8 * r - k * (m - 1))" using t(2) unfolding if_not_P [OF False] by blast
    then have "b @ t = (b @ body) @ [alphabet ! (i * 2 ^ (k * m - 8 * r))] @ replicate (q - m) CHR ''=''"
      "set (b @ body) \<subseteq> set alphabet" "i < 2 ^ (8 * r - k * (m - 1))" using assms(5) by auto
    then show ?thesis unfolding canonical_def Let_def r_def [symmetric] m_def [symmetric] if_not_P [OF False]
      using l by blast
  qed
qed

lemma text64_canonical: "length vs = (c + 2) div 3 \<Longrightarrow> canonical 6 3 4 alphabet64 c (text64 c vs)"
proof (induction c vs rule: text64.induct)
  case (1 c)
  then show ?case by (simp add: canonical_def)
next
  case (2 c v vs)
  show ?case
  proof (cases "c \<ge> 3")
    case True
    then have "c + 2 = (c - 3 + 2) + 3" by simp
    then have "(c + 2) div 3 = Suc ((c - 3 + 2) div 3)" by simp
    then show ?thesis using True 2 by (simp add: canonical_blob set_blob)
  next
    case False
    then have "c \<noteq> 0" using "2.prems" by auto
    then show ?thesis using False tail64_canonical [of c v] by simp
  qed
qed

lemma text32_canonical: "length vs = (c + 4) div 5 \<Longrightarrow> canonical 5 5 8 alphabet32 c (text32 c vs)"
proof (induction c vs rule: text32.induct)
  case (1 c)
  then show ?case by (simp add: canonical_def)
next
  case (2 c v vs)
  show ?case
  proof (cases "c \<ge> 5")
    case True
    then have "c + 4 = (c - 5 + 4) + 5" by simp
    then have "(c + 4) div 5 = Suc ((c - 5 + 4) div 5)" by simp
    then show ?thesis using True 2 by (simp add: canonical_blob set_blob)
  next
    case False
    then have "c \<noteq> 0" using "2.prems" by auto
    then show ?thesis using False tail32_canonical [of c v] by simp
  qed
qed


lemma base64_loop_run:
  assumes "ready s" "p + ps \<le> length buf"
  shows "\<exists>c' ps' tx vs s'. base64_loop c ps p buf s = Some ((c', ps', p + length tx, mem_write p tx buf), s') \<and>
    ready s' \<and> length tx = ps - ps' \<and> ps' \<le> ps \<and> (c' < 3 \<or> ps' = 0) \<and>
    length vs + (c' + 2) div 3 = (c + 2) div 3 \<and>
    (\<forall>ws. take ps (text64 c (vs @ ws)) = tx @ take ps' (text64 c' ws))"
  using assms
proof (induction c ps p buf s rule: base64_loop.induct)
  case (1 c ps p buf s)
  show ?case
  proof (cases "c \<ge> 3 \<and> ps \<noteq> 0")
    case True
    obtain v s1 where v: "pool_rand32 s = Some (v, s1)" "ready s1" by (rule ready_rand32 [OF "1.prems"(1)])
    define bs where "bs = (if 4 > ps then ps else 4)"
    have bs: "bs \<le> ps" "length (take bs (blob64 v)) = bs" by (auto simp: bs_def)
    have cp: "copy_to p (take bs (blob64 v)) buf = Some (mem_write p (take bs (blob64 v)) buf)" (is "_ = Some ?buf")
      using "1.prems"(2) bs by (intro copy_to_eq) simp
    have "p + bs + (ps - bs) \<le> length ?buf" using "1.prems"(2) bs by simp
    then obtain c' ps' tx vs s' where ih: "base64_loop (c - 3) (ps - bs) (p + bs) ?buf s1 =
        Some ((c', ps', p + bs + length tx, mem_write (p + bs) tx ?buf), s')"
      "ready s'" "length tx = ps - bs - ps'" "ps' \<le> ps - bs" "c' < 3 \<or> ps' = 0"
      "length vs + (c' + 2) div 3 = (c - 3 + 2) div 3"
      "\<forall>ws. take (ps - bs) (text64 (c - 3) (vs @ ws)) = tx @ take ps' (text64 c' ws)"
      using "1.IH" [OF True v(1) refl bs_def cp v(2)] by blast
    have "mem_write (p + bs) tx ?buf = mem_write p (take bs (blob64 v) @ tx) buf"
      using mem_write_append [of p "take bs (blob64 v)" tx buf] "1.prems"(2) bs ih(3) by simp
    then have run: "base64_loop c ps p buf s =
        Some ((c', ps', p + length (take bs (blob64 v) @ tx), mem_write p (take bs (blob64 v) @ tx) buf), s')"
      using True v(1) cp ih(1) bs by (subst base64_loop.simps) (simp add: Let_def add.assoc flip: bs_def)
    have "c + 2 = (c - 3 + 2) + 3" using True by simp
    then have "(c + 2) div 3 = Suc ((c - 3 + 2) div 3)" by simp
    then have cnt: "length (v # vs) + (c' + 2) div 3 = (c + 2) div 3" using ih(6) by simp
    have "take ps (text64 c ((v # vs) @ ws)) = (take bs (blob64 v) @ tx) @ take ps' (text64 c' ws)" for ws
    proof -
      have "take ps (text64 c ((v # vs) @ ws)) = take ps (blob64 v) @ take (ps - 4) (text64 (c - 3) (vs @ ws))"
        using True by simp
      also have "take ps (blob64 v) = take bs (blob64 v)" by (auto simp: bs_def)
      also have "ps - 4 = ps - bs" by (auto simp: bs_def)
      finally show ?thesis using ih(7) by simp
    qed
    with run cnt ih(2-5) bs show ?thesis
      by (intro exI [of _ c'] exI [of _ ps'] exI [of _ "take bs (blob64 v) @ tx"] exI [of _ "v # vs"] exI [of _ s'])
        (simp add: add.assoc)
  next
    case False
    then show ?thesis using "1.prems"(1)
      by (subst base64_loop.simps) (intro exI [of _ c] exI [of _ ps] exI [of _ "[]"] exI [of _ s], auto)
  qed
qed

lemma base32_loop_run:
  assumes "ready s" "p + ps \<le> length buf"
  shows "\<exists>c' ps' tx vs s'. base32_loop c ps p buf s = Some ((c', ps', p + length tx, mem_write p tx buf), s') \<and>
    ready s' \<and> length tx = ps - ps' \<and> ps' \<le> ps \<and> (c' < 5 \<or> ps' = 0) \<and>
    length vs + (c' + 4) div 5 = (c + 4) div 5 \<and>
    (\<forall>ws. take ps (text32 c (vs @ ws)) = tx @ take ps' (text32 c' ws))"
  using assms
proof (induction c ps p buf s rule: base32_loop.induct)
  case (1 c ps p buf s)
  show ?case
  proof (cases "c \<ge> 5 \<and> ps \<noteq> 0")
    case True
    obtain v s1 where v: "pool_rand64 s = Some (v, s1)" "ready s1" by (rule ready_rand64 [OF "1.prems"(1)])
    define bs where "bs = (if 8 > ps then ps else 8)"
    have bs: "bs \<le> ps" "length (take bs (blob32 v)) = bs" by (auto simp: bs_def)
    have cp: "copy_to p (take bs (blob32 v)) buf = Some (mem_write p (take bs (blob32 v)) buf)" (is "_ = Some ?buf")
      using "1.prems"(2) bs by (intro copy_to_eq) simp
    have "p + bs + (ps - bs) \<le> length ?buf" using "1.prems"(2) bs by simp
    then obtain c' ps' tx vs s' where ih: "base32_loop (c - 5) (ps - bs) (p + bs) ?buf s1 =
        Some ((c', ps', p + bs + length tx, mem_write (p + bs) tx ?buf), s')"
      "ready s'" "length tx = ps - bs - ps'" "ps' \<le> ps - bs" "c' < 5 \<or> ps' = 0"
      "length vs + (c' + 4) div 5 = (c - 5 + 4) div 5"
      "\<forall>ws. take (ps - bs) (text32 (c - 5) (vs @ ws)) = tx @ take ps' (text32 c' ws)"
      using "1.IH" [OF True v(1) refl bs_def cp v(2)] by blast
    have "mem_write (p + bs) tx ?buf = mem_write p (take bs (blob32 v) @ tx) buf"
      using mem_write_append [of p "take bs (blob32 v)" tx buf] "1.prems"(2) bs ih(3) by simp
    then have run: "base32_loop c ps p buf s =
        Some ((c', ps', p + length (take bs (blob32 v) @ tx), mem_write p (take bs (blob32 v) @ tx) buf), s')"
      using True v(1) cp ih(1) bs by (subst base32_loop.simps) (simp add: Let_def add.assoc flip: bs_def)
    have "c + 4 = (c - 5 + 4) + 5" using True by simp
    then have "(c + 4) div 5 = Suc ((c - 5 + 4) div 5)" by simp
    then have cnt: "length (v # vs) + (c' + 4) div 5 = (c + 4) div 5" using ih(6) by simp
    have "take ps (text32 c ((v # vs) @ ws)) = (take bs (blob32 v) @ tx) @ take ps' (text32 c' ws)" for ws
    proof -
      have "take ps (text32 c ((v # vs) @ ws)) = take ps (blob32 v) @ take (ps - 8) (text32 (c - 5) (vs @ ws))"
        using True by simp
      also have "take ps (blob32 v) = take bs (blob32 v)" by (auto simp: bs_def)
      also have "ps - 8 = ps - bs" by (auto simp: bs_def)
      finally show ?thesis using ih(7) by simp
    qed
    with run cnt ih(2-5) bs show ?thesis
      by (intro exI [of _ c'] exI [of _ ps'] exI [of _ "take bs (blob32 v) @ tx"] exI [of _ "v # vs"] exI [of _ s'])
        (simp add: add.assoc)
  next
    case False
    then show ?thesis using "1.prems"(1)
      by (subst base32_loop.simps) (intro exI [of _ c] exI [of _ ps] exI [of _ "[]"] exI [of _ s], auto)
  qed
qed


lemma base64_run:
  assumes "ready s" "0 < len" "len \<le> length buf" "4 * ((count + 2) div 3) \<le> INT_MAX"
  shows "\<exists>t s'. futils_random_base64 buf len count s =
      Some ((Inr (4 * ((count + 2) div 3)), mem_write 0 (take (len - 1) t @ [NUL]) buf), s') \<and>
    canonical 6 3 4 alphabet64 count t \<and> ready s'"
proof -
  define total where "total = ((count + 2) div 3) * 4"
  define ps where "ps = (if total > len - 1 then len - 1 else total)"
  have ps: "ps \<le> len - 1" "ps < length buf" "ps \<le> total" using assms(2,3) by (auto simp: ps_def)
  have "(count + 2) div 3 \<le> (INT_MAX + 3) div 4" using assms(4) by (simp add: INT_MAX_def)
  moreover have "count \<le> SIZE_MAX - 2" using assms(4) by (simp add: INT_MAX_def SIZE_MAX_def)
  moreover have "((count + 2) div 3) * 4 \<le> INT_MAX" using assms(4) by simp
  ultimately have ok: "\<not> count > SIZE_MAX - 2" "\<not> (count + 2) div 3 > (INT_MAX + 3) div 4" "\<not> total > INT_MAX"
    by (simp_all add: total_def)
  obtain c' ps' tx vs s1 where 1: "base64_loop count ps 0 buf s = Some ((c', ps', length tx, mem_write 0 tx buf), s1)"
    "ready s1" "length tx = ps - ps'" "ps' \<le> ps" "c' < 3 \<or> ps' = 0"
    "length vs + (c' + 2) div 3 = (count + 2) div 3"
    "\<forall>ws. take ps (text64 count (vs @ ws)) = tx @ take ps' (text64 c' ws)"
    using base64_loop_run [OF assms(1), of 0 ps buf count] ps(2) by auto
  obtain ws tl s2 where 2: "(if c' \<noteq> 0 \<and> ps' \<noteq> 0 then do {
           (v, s) \<leftarrow> pool_rand32 s1;
           let bs = (if 4 > ps' then ps' else 4);
           buf \<leftarrow> copy_to (length tx) (take bs (tail64 c' v)) (mem_write 0 tx buf);
           Some ((length tx + bs, buf), s) }
         else Some ((length tx, mem_write 0 tx buf), s1)) = Some ((length tx + length tl, mem_write 0 (tx @ tl) buf), s2)"
    "ready s2" "tl = take ps' (text64 c' ws)" "length ws = (c' + 2) div 3"
  proof (cases "c' \<noteq> 0 \<and> ps' \<noteq> 0")
    case True
    then have c': "c' < 3" "(c' + 2) div 3 = 1" using 1(5) by auto
    obtain v s2 where v: "pool_rand32 s1 = Some (v, s2)" "ready s2" by (rule ready_rand32 [OF 1(2)])
    have lt: "length (tail64 c' v) = 4"
      using tail64_canonical [of c' v] True c' by (simp add: canonical_def Let_def)
    define bs where "bs = (if 4 > ps' then ps' else 4)"
    have bs: "length (take bs (tail64 c' v)) = bs" "bs \<le> ps'" "take bs (tail64 c' v) = take ps' (text64 c' [v])"
      using lt c' True by (auto simp: bs_def)
    have fits: "length tx + bs \<le> length buf" "length tx \<le> length buf" using 1(3,4) ps(2) bs(2) by auto
    have "copy_to (length tx) (take bs (tail64 c' v)) (mem_write 0 tx buf) =
        Some (mem_write 0 (tx @ take bs (tail64 c' v)) buf)"
      using mem_write_append [of 0 tx "take bs (tail64 c' v)" buf] fits bs(1) by (simp add: copy_to_eq)
    then show thesis using that [of "take bs (tail64 c' v)" s2 "[v]"] True v bs c'
      by (simp add: Let_def flip: bs_def)
  next
    case False
    have "take ps' (text64 c' ws) = []" if "length ws = (c' + 2) div 3" for ws
      using that False by (cases "ps' = 0") auto
    then show thesis using 1(2) by (intro that [of "[]" s1 "replicate ((c' + 2) div 3) 0"]) (simp_all only: if_not_P [OF False], simp_all)
  qed
  define t where "t = text64 count (vs @ ws)"
  have tc: "canonical 6 3 4 alphabet64 count t"
    unfolding t_def by (rule text64_canonical) (use 1(6) 2(4) in simp)
  then have lt: "length t = total" by (simp add: canonical_def Let_def total_def)
  have body: "tx @ tl = take ps t" using 1(7) 2(3) by (simp add: t_def)
  moreover have "take ps t = take (len - 1) t" using lt by (simp add: ps_def)
  ultimately have tt: "tx @ tl = take (len - 1) t" by simp
  have ltt: "length tx + length tl = ps" using body lt ps(3) by (metis length_append length_take min.absorb2)
  have "put (length tx + length tl) NUL (mem_write 0 (tx @ tl) buf) = Some (mem_write 0 ((tx @ tl) @ [NUL]) buf)"
    using mem_write_append [of 0 "tx @ tl" "[NUL]" buf] ltt ps(2) put_eq [of ps "mem_write 0 (tx @ tl) buf" NUL] by simp
  then have "futils_random_base64 buf len count s = Some ((Inr total, mem_write 0 ((tx @ tl) @ [NUL]) buf), s2)"
    using ok assms(2) 1(1) 2(1) unfolding futils_random_base64_def total_def [symmetric] Let_def ps_def [symmetric]
    by (simp add: Let_def)
  then show ?thesis using tc 2(2) tt by (auto simp: total_def mult.commute)
qed

lemma base32_run:
  assumes "ready s" "0 < len" "len \<le> length buf" "8 * ((count + 4) div 5) \<le> INT_MAX"
  shows "\<exists>t s'. futils_random_base32 buf len count s =
      Some ((Inr (8 * ((count + 4) div 5)), mem_write 0 (take (len - 1) t @ [NUL]) buf), s') \<and>
    canonical 5 5 8 alphabet32 count t \<and> ready s'"
proof -
  define total where "total = ((count + 4) div 5) * 8"
  define ps where "ps = (if total > len - 1 then len - 1 else total)"
  have ps: "ps \<le> len - 1" "ps < length buf" "ps \<le> total" using assms(2,3) by (auto simp: ps_def)
  have "(count + 4) div 5 \<le> (INT_MAX + 7) div 8" using assms(4) by (simp add: INT_MAX_def)
  moreover have "count \<le> SIZE_MAX - 4" using assms(4) by (simp add: INT_MAX_def SIZE_MAX_def)
  moreover have "((count + 4) div 5) * 8 \<le> INT_MAX" using assms(4) by simp
  ultimately have ok: "\<not> count > SIZE_MAX - 4" "\<not> (count + 4) div 5 > (INT_MAX + 7) div 8" "\<not> total > INT_MAX"
    by (simp_all add: total_def)
  obtain c' ps' tx vs s1 where 1: "base32_loop count ps 0 buf s = Some ((c', ps', length tx, mem_write 0 tx buf), s1)"
    "ready s1" "length tx = ps - ps'" "ps' \<le> ps" "c' < 5 \<or> ps' = 0"
    "length vs + (c' + 4) div 5 = (count + 4) div 5"
    "\<forall>ws. take ps (text32 count (vs @ ws)) = tx @ take ps' (text32 c' ws)"
    using base32_loop_run [OF assms(1), of 0 ps buf count] ps(2) by auto
  obtain ws tl s2 where 2: "(if c' \<noteq> 0 \<and> ps' \<noteq> 0 then do {
           (v, s) \<leftarrow> pool_rand64 s1;
           let bs = (if 8 > ps' then ps' else 8);
           buf \<leftarrow> copy_to (length tx) (take bs (tail32 c' v)) (mem_write 0 tx buf);
           Some ((length tx + bs, buf), s) }
         else Some ((length tx, mem_write 0 tx buf), s1)) = Some ((length tx + length tl, mem_write 0 (tx @ tl) buf), s2)"
    "ready s2" "tl = take ps' (text32 c' ws)" "length ws = (c' + 4) div 5"
  proof (cases "c' \<noteq> 0 \<and> ps' \<noteq> 0")
    case True
    then have c': "c' < 5" "(c' + 4) div 5 = 1" using 1(5) by auto
    obtain v s2 where v: "pool_rand64 s1 = Some (v, s2)" "ready s2" by (rule ready_rand64 [OF 1(2)])
    have lt: "length (tail32 c' v) = 8"
      using tail32_canonical [of c' v] True c' by (simp add: canonical_def Let_def)
    define bs where "bs = (if 8 > ps' then ps' else 8)"
    have bs: "length (take bs (tail32 c' v)) = bs" "bs \<le> ps'" "take bs (tail32 c' v) = take ps' (text32 c' [v])"
      using lt c' True by (auto simp: bs_def)
    have fits: "length tx + bs \<le> length buf" "length tx \<le> length buf" using 1(3,4) ps(2) bs(2) by auto
    have "copy_to (length tx) (take bs (tail32 c' v)) (mem_write 0 tx buf) =
        Some (mem_write 0 (tx @ take bs (tail32 c' v)) buf)"
      using mem_write_append [of 0 tx "take bs (tail32 c' v)" buf] fits bs(1) by (simp add: copy_to_eq)
    then show thesis using that [of "take bs (tail32 c' v)" s2 "[v]"] True v bs c'
      by (simp add: Let_def flip: bs_def)
  next
    case False
    have "take ps' (text32 c' ws) = []" if "length ws = (c' + 4) div 5" for ws
      using that False by (cases "ps' = 0") auto
    then show thesis using 1(2) by (intro that [of "[]" s1 "replicate ((c' + 4) div 5) 0"]) (simp_all only: if_not_P [OF False], simp_all)
  qed
  define t where "t = text32 count (vs @ ws)"
  have tc: "canonical 5 5 8 alphabet32 count t"
    unfolding t_def by (rule text32_canonical) (use 1(6) 2(4) in simp)
  then have lt: "length t = total" by (simp add: canonical_def Let_def total_def)
  have body: "tx @ tl = take ps t" using 1(7) 2(3) by (simp add: t_def)
  moreover have "take ps t = take (len - 1) t" using lt by (simp add: ps_def)
  ultimately have tt: "tx @ tl = take (len - 1) t" by simp
  have ltt: "length tx + length tl = ps" using body lt ps(3) by (metis length_append length_take min.absorb2)
  have "put (length tx + length tl) NUL (mem_write 0 (tx @ tl) buf) = Some (mem_write 0 ((tx @ tl) @ [NUL]) buf)"
    using mem_write_append [of 0 "tx @ tl" "[NUL]" buf] ltt ps(2) put_eq [of ps "mem_write 0 (tx @ tl) buf" NUL] by simp
  then have "futils_random_base32 buf len count s = Some ((Inr total, mem_write 0 ((tx @ tl) @ [NUL]) buf), s2)"
    using ok assms(2) 1(1) 2(1) unfolding futils_random_base32_def total_def [symmetric] Let_def ps_def [symmetric]
    by (simp add: Let_def)
  then show ?thesis using tc 2(2) tt by (auto simp: total_def mult.commute)
qed


subsection \<open>The last blob of base 64\<close>

text \<open>The code shifts by 3 where the digits have 6 bits: the last blob repeats bits.\<close>

lemma tail64_low_bits: "tail64 2 v = tail64 2 (v AND mask 12)"
proof -
  have "v AND 63 = (v AND mask 12) AND 63" "drop_bit 3 v AND 63 = drop_bit 3 (v AND mask 12) AND 63"
    "drop_bit 3 (drop_bit 3 v) AND 63 = drop_bit 3 (drop_bit 3 (v AND mask 12)) AND 63"
    unfolding mask_numerals by (rule bit_word_eqI; auto simp: bit_simps)+
  then show ?thesis unfolding tail64_eq by (simp only:)
qed

lemma tail64_range: "card (range (tail64 2)) \<le> 2 ^ 12"
proof -
  have "range (tail64 2) \<subseteq> (\<lambda>n. tail64 2 (of_nat n)) ` {..<2 ^ 12}"
  proof
    fix t assume "t \<in> range (tail64 2)"
    then obtain v where "t = tail64 2 v" by blast
    then have "t = tail64 2 (of_nat (unat (v AND mask 12)))" using tail64_low_bits [of v] by simp
    moreover have "unat (v AND mask 12) \<in> {..<2 ^ 12}" using masked_less [of v 12] by simp
    ultimately show "t \<in> (\<lambda>n. tail64 2 (of_nat n)) ` {..<2 ^ 12}" by blast
  qed
  then have "card (range (tail64 2)) \<le> card ((\<lambda>n. tail64 2 (of_nat n)) ` {..<2 ^ 12 :: nat})"
    by (rule card_mono [rotated]) simp
  also have "\<dots> \<le> 2 ^ 12" using card_image_le [of "{..<2 ^ 12 :: nat}"] by simp
  finally show ?thesis .
qed

lemma alphabet64_inj: "i < 64 \<Longrightarrow> j < 64 \<Longrightarrow> alphabet64 ! i = alphabet64 ! j \<longleftrightarrow> i = j"
proof -
  have "distinct alphabet64" by (simp add: alphabet64_def)
  then show "i < 64 \<Longrightarrow> j < 64 \<Longrightarrow> alphabet64 ! i = alphabet64 ! j \<longleftrightarrow> i = j"
    by (simp add: nth_eq_iff_index_eq length_alphabet)
qed

lemma tail64_not_ABA: "tail64 2 v \<noteq> ''ABA=''"
proof
  assume "tail64 2 v = ''ABA=''"
  then have a: "alphabet64 ! unat (v AND mask 6) = CHR ''A''" "alphabet64 ! unat (drop_bit 3 v AND mask 6) = CHR ''B''"
    unfolding tail64_eq mask_numerals by simp_all
  have "CHR ''A'' = alphabet64 ! 0" "CHR ''B'' = alphabet64 ! 1" by (simp_all add: alphabet64_def)
  then have "unat (v AND mask 6) = 0" "unat (drop_bit 3 v AND mask 6) = 1"
    using a alphabet64_inj masked_less [of v 6] masked_less [of "drop_bit 3 v" 6] by auto
  then have "v AND mask 6 = 0" "drop_bit 3 v AND mask 6 = 1" by (simp_all add: word_unat_eq_iff)
  then have "bit (v AND mask 6) 3 = False" "bit (drop_bit 3 v AND mask 6) 0 = True" by simp_all
  then show False by (simp add: bit_simps)
qed

lemma ABA_canonical: "canonical 6 3 4 alphabet64 2 ''ABA=''"
proof -
  have "''ABA='' = ''AB'' @ [alphabet64 ! (0 * 2 ^ (6 * 3 - 8 * 2))] @ replicate (4 - 3) CHR ''=''"
    "set ''AB'' \<subseteq> set alphabet64" "(0 :: nat) < 2 ^ (8 * 2 - 6 * (3 - 1))"
    by (simp_all add: alphabet64_def)
  moreover have "(2 :: nat) mod 3 = 2" "(8 * 2 + 6 - 1) div 6 = (3 :: nat)" "length ''ABA='' = 4 * ((2 + 3 - 1) div 3)" "(2 :: nat) \<noteq> 0"
    by simp_all
  ultimately show ?thesis unfolding canonical_def Let_def by metis
qed

subsection \<open>Sequences of bounded draws\<close>

fun draws :: "nat list \<Rightarrow> nat list \<Rightarrow> rng \<Rightarrow> rng \<Rightarrow> bool" where
  "draws [] [] s s' \<longleftrightarrow> s' = s"
| "draws (m # ms) (r # rs) s s' \<longleftrightarrow> (\<exists>s1. bounded_draw m s r s1 \<and> draws ms rs s1 s')"
| "draws _ _ s s' \<longleftrightarrow> False"

lemma first_accepted_ok: "first_accepted c k m s v s' \<Longrightarrow> pool_ok (pool s) \<Longrightarrow> pool_ok (pool s')"
proof (induction rule: first_accepted.induct)
  case (accept s b s')
  then show ?case using pool_rand_inv [of s c b s'] by simp
next
  case (reject s b s1 v s')
  then show ?case using pool_rand_inv [of s c b s1] by simp
qed

lemma bounded_draw_ok: "bounded_draw m s v s' \<Longrightarrow> pool_ok (pool s) \<Longrightarrow> v \<le> m \<and> pool_ok (pool s')"
  by (auto simp: bounded_draw_def first_accepted_ok first_accepted_le split: if_splits)

lemma size_maximum_iff:
  assumes "pool_ok (pool s)" "m < 2 ^ 64"
  shows "pool_rand_size_maximum (of_nat m) s = Some (r, s') \<longleftrightarrow> bounded_draw m s (unat r) s'"
  using pool_rand64_maximum_iff [OF assms(1), of "of_nat m" r s'] assms(2) unat_of_nat_small [where 'a = 64, of m]
  by (simp add: pool_rand_size_maximum_def)


subsection \<open>Random strings\<close>

lemma draws_length: "draws ms rs s s' \<Longrightarrow> length rs = length ms"
  by (induction ms rs s s' rule: draws.induct) auto

lemma random_string_loop_iff:
  assumes "pool_ok (pool s)" "p + ps \<le> length buf" "alphabet \<noteq> []" "length alphabet \<le> 2 ^ 64"
  shows "random_string_loop alphabet ps p buf s = Some ((p', buf'), s') \<longleftrightarrow>
    (\<exists>ix. draws (replicate ps (length alphabet - 1)) ix s s' \<and> p' = p + ps \<and>
       buf' = mem_write p (map ((!) alphabet) ix) buf)"
  using assms(1,2)
proof (induction ps arbitrary: p buf s)
  case 0
  have "draws [] ix s s' \<longleftrightarrow> ix = [] \<and> s' = s" for ix by (cases ix) auto
  then show ?case by auto
next
  case (Suc ps)
  let ?m = "length alphabet - 1"
  have m: "?m < 2 ^ 64" using assms(3,4) by (cases alphabet) simp_all
  have next_char: "random_string_loop alphabet (Suc ps) p buf s = Some ((p', buf'), s') \<longleftrightarrow>
      (\<exists>i s1. bounded_draw ?m s i s1 \<and>
        random_string_loop alphabet ps (p + 1) (mem_write p [alphabet ! i] buf) s1 = Some ((p', buf'), s'))"
    (is "?l \<longleftrightarrow> ?r")
  proof
    assume l: ?l
    then obtain i s1 where i: "pool_rand_size_maximum (of_nat ?m) s = Some (i, s1)"
      unfolding random_string_loop.simps by (cases "pool_rand_size_maximum (of_nat ?m) s") (simp, force)
    then have b: "bounded_draw ?m s (unat i) s1" using size_maximum_iff [OF Suc.prems(1) m] by blast
    then have "unat i < length alphabet" using bounded_draw_ok Suc.prems(1) assms(3) by (cases alphabet) fastforce+
    then have "random_string_loop alphabet ps (p + 1) (mem_write p [alphabet ! unat i] buf) s1 = Some ((p', buf'), s')"
      using l Suc.prems(2) unfolding random_string_loop.simps i by (simp add: put_eq)
    with b show ?r by blast
  next
    assume ?r
    then obtain i s1 where b: "bounded_draw ?m s i s1"
      "random_string_loop alphabet ps (p + 1) (mem_write p [alphabet ! i] buf) s1 = Some ((p', buf'), s')" by blast
    have im: "i \<le> ?m" using bounded_draw_ok b(1) Suc.prems(1) by blast
    then have u: "unat (of_nat i :: u64) = i" using m by (intro unat_of_nat_small) simp
    then have "pool_rand_size_maximum (of_nat ?m) s = Some (of_nat i, s1)"
      using size_maximum_iff [OF Suc.prems(1) m, of "of_nat i" s1] b(1) by simp
    moreover have "i < length alphabet" using im assms(3) by (cases alphabet) simp_all
    ultimately show ?l using b(2) u Suc.prems(2) by (simp add: put_eq)
  qed
  have ih: "random_string_loop alphabet ps (p + 1) (mem_write p [alphabet ! i] buf) s1 = Some ((p', buf'), s') \<longleftrightarrow>
      (\<exists>ix. draws (replicate ps ?m) ix s1 s' \<and> p' = p + Suc ps \<and> buf' = mem_write p (map ((!) alphabet) (i # ix)) buf)"
    if b: "bounded_draw ?m s i s1" for i s1
  proof -
    have ok: "pool_ok (pool s1)" using bounded_draw_ok b Suc.prems(1) by blast
    have "mem_write (p + 1) (map ((!) alphabet) ix) (mem_write p [alphabet ! i] buf) = mem_write p (map ((!) alphabet) (i # ix)) buf"
      if "draws (replicate ps ?m) ix s1 s'" for ix
      using mem_write_append [of p "[alphabet ! i]" "map ((!) alphabet) ix" buf] draws_length [OF that] Suc.prems(2) by simp
    then show ?thesis using Suc.IH [OF ok, of "p + 1" "mem_write p [alphabet ! i] buf"] Suc.prems(2) by auto
  qed
  show ?case
  proof
    assume "random_string_loop alphabet (Suc ps) p buf s = Some ((p', buf'), s')"
    then obtain i s1 ix where "bounded_draw ?m s i s1" "draws (replicate ps ?m) ix s1 s'" "p' = p + Suc ps"
      "buf' = mem_write p (map ((!) alphabet) (i # ix)) buf"
      using next_char ih by blast
    then show "\<exists>ix. draws (replicate (Suc ps) ?m) ix s s' \<and> p' = p + Suc ps \<and> buf' = mem_write p (map ((!) alphabet) ix) buf"
      by (intro exI [of _ "i # ix"]) auto
  next
    assume "\<exists>ix. draws (replicate (Suc ps) ?m) ix s s' \<and> p' = p + Suc ps \<and> buf' = mem_write p (map ((!) alphabet) ix) buf"
    then obtain ix where d: "draws (replicate (Suc ps) ?m) ix s s'" "p' = p + Suc ps"
      "buf' = mem_write p (map ((!) alphabet) ix) buf" by blast
    then obtain i ix' s1 where "ix = i # ix'" "bounded_draw ?m s i s1" "draws (replicate ps ?m) ix' s1 s'"
      by (cases ix) auto
    then show "random_string_loop alphabet (Suc ps) p buf s = Some ((p', buf'), s')"
      using next_char ih d(2,3) by blast
  qed
qed

subsection \<open>Properties\<close>

text \<open>
  Property C25.  Once the generator is seeded the three text functions always return.  The buffer
  receives the beginning of a canonical text of \<open>count\<close> bytes, as much as fits, and a NUL; nothing
  else is written; the result is the length of the whole text.  Canonical: the right length, only
  characters of the alphabet, the right padding, unused bits of the last digit clear.
\<close>

theorem random_texts_canonical:
  assumes "ready s" "0 < len" "len \<le> length buf"
  shows "(4 * ((count + 2) div 3) \<le> INT_MAX \<longrightarrow>
      (\<exists>t s'. futils_random_base64 buf len count s =
          Some ((Inr (4 * ((count + 2) div 3)), mem_write 0 (take (len - 1) t @ [NUL]) buf), s') \<and>
        canonical 6 3 4 alphabet64 count t \<and> ready s')) \<and>
    (8 * ((count + 4) div 5) \<le> INT_MAX \<longrightarrow>
      (\<exists>t s'. futils_random_base32 buf len count s =
          Some ((Inr (8 * ((count + 4) div 5)), mem_write 0 (take (len - 1) t @ [NUL]) buf), s') \<and>
        canonical 5 5 8 alphabet32 count t \<and> ready s')) \<and>
    (2 * count \<le> INT_MAX \<longrightarrow>
      (\<exists>t s'. futils_random_base16 buf len count s = Some ((Inr (2 * count), mem_write 0 (t @ [NUL]) buf), s') \<and>
        length t = min (2 * count) (len - 1) \<and> set t \<subseteq> set alphabet16 \<and> ready s'))"
  using base64_run [OF assms] base32_run [OF assms] base16_run [OF assms] by blast

definition seeded_sample :: rng where
  "seeded_sample = (let s = rng_start sample_kernel in s\<lparr>pool := (pool s)\<lparr>era := seed_era s\<rparr>\<rparr>)"

lemma ready_seeded_sample: "ready seeded_sample"
  by (simp add: seeded_sample_def ready_def rng_start_def pool_static_def pool_ok_def Let_def)

lemma random_texts_canonical_witness:
  "\<exists>t s'. futils_random_base64 (replicate 9 CHR ''x'') 9 4 seeded_sample =
      Some ((Inr 8, mem_write 0 (take 8 t @ [NUL]) (replicate 9 CHR ''x'')), s') \<and>
    canonical 6 3 4 alphabet64 4 t \<and> ready s'"
proof -
  have n: "(4 :: nat) * ((4 + 2) div 3) = 8" "(9 :: nat) - 1 = 8" "4 * ((4 + 2) div 3) \<le> INT_MAX" "(0 :: nat) < 9"
    "9 \<le> length (replicate 9 CHR ''x'')" by (simp_all add: INT_MAX_def)
  show ?thesis
    using random_texts_canonical [OF ready_seeded_sample n(4,5), of 4, THEN conjunct1, rule_format, OF n(3)]
    unfolding n(1,2) .
qed

text \<open>
  Property C37.  The last blob of \<open>futils_random_base64\<close> shifts by 3 bits per digit instead of 6:
  for two remaining bytes the text depends on 12 of the 16 bits only, so at most 4096 of the 65536
  encodings occur; \<open>ABA=\<close>, the encoding of two bytes, never does.
\<close>

theorem base64_tail_incomplete:
  "tail64 2 v = tail64 2 (v AND mask 12) \<and> card (range (tail64 2)) \<le> 2 ^ 12 \<and>
   canonical 6 3 4 alphabet64 2 ''ABA='' \<and> tail64 2 v \<noteq> ''ABA=''"
  using tail64_low_bits tail64_range ABA_canonical tail64_not_ABA by blast

text \<open>
  \<open>futils_random_string\<close> returns exactly when its bounded draws are accepted: it
  stores the characters of the alphabet at the drawn indices, as many as requested and as fit, and
  a NUL, writes nothing else, and returns the requested count.
\<close>

theorem random_string_exact:
  assumes "pool_ok (pool s)" "0 < len" "len \<le> length buf" "alphabet \<noteq> []" "length alphabet \<le> 2 ^ 64" "count \<le> INT_MAX"
  shows "futils_random_string buf len count alphabet s = Some ((r, buf'), s') \<longleftrightarrow>
    (\<exists>ix. draws (replicate (min count (len - 1)) (length alphabet - 1)) ix s s' \<and> r = Inr count \<and>
       buf' = mem_write 0 (map ((!) alphabet) ix @ [NUL]) buf)"
proof -
  define ps where "ps = min count (len - 1)"
  have ps: "(if count > len - 1 then len - 1 else count) = ps" "0 + ps \<le> length buf" "ps < length buf"
    using assms(2,3) by (auto simp: ps_def)
  have nul: "put ps NUL (mem_write 0 (map ((!) alphabet) ix) buf) = Some (mem_write 0 (map ((!) alphabet) ix @ [NUL]) buf)"
    if "draws (replicate ps (length alphabet - 1)) ix s s1" for ix s1
    using draws_length [OF that] ps(3) mem_write_append [of 0 "map ((!) alphabet) ix" "[NUL]" buf] by (simp add: put_eq)
  have run: "futils_random_string buf len count alphabet s = do {
       ((p, buf), s) \<leftarrow> random_string_loop alphabet ps 0 buf s; buf \<leftarrow> put p NUL buf; Some ((Inr count, buf), s) }"
    using assms(2,4,6) unfolding futils_random_string_def Let_def ps(1) by simp
  note iff = random_string_loop_iff [OF assms(1) ps(2) assms(4,5)]
  show ?thesis unfolding ps_def [symmetric]
  proof
    assume "futils_random_string buf len count alphabet s = Some ((r, buf'), s')"
    then obtain p b s1 where b: "random_string_loop alphabet ps 0 buf s = Some ((p, b), s1)"
      "do { buf \<leftarrow> put p NUL b; Some ((Inr count, buf), s1) } = Some ((r, buf'), s')"
      unfolding run by (cases "random_string_loop alphabet ps 0 buf s") auto
    then obtain ix where "draws (replicate ps (length alphabet - 1)) ix s s1" "p = ps" "b = mem_write 0 (map ((!) alphabet) ix) buf"
      using iff by auto
    then show "\<exists>ix. draws (replicate ps (length alphabet - 1)) ix s s' \<and> r = Inr count \<and> buf' = mem_write 0 (map ((!) alphabet) ix @ [NUL]) buf"
      using b(2) nul by auto
  next
    assume "\<exists>ix. draws (replicate ps (length alphabet - 1)) ix s s' \<and> r = Inr count \<and> buf' = mem_write 0 (map ((!) alphabet) ix @ [NUL]) buf"
    then obtain ix where d: "draws (replicate ps (length alphabet - 1)) ix s s'" "r = Inr count" "buf' = mem_write 0 (map ((!) alphabet) ix @ [NUL]) buf"
      by blast
    then have "random_string_loop alphabet ps 0 buf s = Some ((ps, mem_write 0 (map ((!) alphabet) ix) buf), s')" using iff by auto
    then show "futils_random_string buf len count alphabet s = Some ((r, buf'), s')"
      unfolding run using d nul by simp
  qed
qed

lemma random_string_exact_witness:
  "futils_random_string ''xxxxx'' 4 7 ''a'' seeded_sample = Some ((Inr 7, ''aaa'' @ [NUL] @ ''x''), seeded_sample)"
proof -
  have ok: "pool_ok (pool seeded_sample)" using ready_seeded_sample by (simp add: ready_def)
  have "draws (replicate 3 0) [0, 0, 0] seeded_sample seeded_sample"
    by (simp add: numeral_3_eq_3 bounded_draw_def)
  then show ?thesis
    by (subst random_string_exact [OF ok]) (auto simp: INT_MAX_def mem_write_def intro!: exI [of _ "[0, 0, 0]"])
qed

end
