(* ===== verification/RandShuffle.thy ===== *)
theory RandShuffle
  imports RandText "HOL-Library.Multiset"
begin

text \<open>
  Component \<open>random\<close>, last part (src/src/random.c): the shuffle of an array in memory.  The array is
  the beginning of a byte object; the elements are its slots of \<open>sz\<close> bytes.  The property relates
  the byte copies to Fisher and Yates' algorithm on the list of the elements.
\<close>

subsection \<open>Shuffling\<close>

text \<open>The three copies through the temporary.\<close>

definition swap_elements :: "nat \<Rightarrow> nat \<Rightarrow> nat \<Rightarrow> u8 list \<Rightarrow> u8 list option" where
  "swap_elements sz u v mem =
    (let pu = u * sz; pv = v * sz in
     if pu + sz \<le> length mem \<and> pv + sz \<le> length mem
     then let tmp = mem_read pu sz mem;
              mem = mem_write pu (mem_read pv sz mem) mem;
              mem = mem_write pv tmp mem
          in Some mem
     else None)"

fun shuffle_loop :: "nat list \<Rightarrow> nat \<Rightarrow> nat \<Rightarrow> u8 list \<Rightarrow> rng \<Rightarrow> (u8 list \<times> rng) option" where
  "shuffle_loop [] nmemb sz mem s = Some (mem, s)"
| "shuffle_loop (u # us) nmemb sz mem s = do {
     (r, s) \<leftarrow> pool_rand_size_maximum (of_nat ((nmemb - 1) - u)) s;
     if r = 0 then shuffle_loop us nmemb sz mem s
     else do {
       mem \<leftarrow> swap_elements sz u (u + unat r) mem;
       shuffle_loop us nmemb sz mem s } }"

text \<open>\<open>malloc_ok\<close>: the allocation of a temporary larger than eight bytes succeeds.\<close>

definition futils_random_shuffle :: "bool \<Rightarrow> u8 list option \<Rightarrow> nat \<Rightarrow> nat \<Rightarrow> rng \<Rightarrow> ((unit res \<times> u8 list option) \<times> rng) option" where
  "futils_random_shuffle malloc_ok base nmemb sz s = (case base of
     None \<Rightarrow> Some ((Inl EINVAL, None), s)
   | Some mem \<Rightarrow>
      if nmemb < 2 then Some ((Inr (), Some mem), s)
      else if sz = 0 then Some ((Inr (), Some mem), s)
      else if sz > 8 \<and> \<not> malloc_ok then Some ((Inl ENOMEM, Some mem), s)
      else do {
        (mem, s) \<leftarrow> shuffle_loop [0..<nmemb - 1] nmemb sz mem s;
        Some ((Inr (), Some mem), s) })"

subsection \<open>The shuffle\<close>

definition elems :: "nat \<Rightarrow> nat \<Rightarrow> 'a list \<Rightarrow> 'a list list" where
  "elems sz n mem = map (\<lambda>i. mem_read (i * sz) sz mem) [0..<n]"

text \<open>Fisher and Yates on a list: at each position from \<open>u\<close> on, swap with the element \<open>r\<close> further.\<close>

definition swap :: "nat \<Rightarrow> nat \<Rightarrow> 'a list \<Rightarrow> 'a list" where
  "swap u v xs = xs[u := xs ! v, v := xs ! u]"

fun fisher_yates :: "nat \<Rightarrow> nat list \<Rightarrow> 'a list \<Rightarrow> 'a list" where
  "fisher_yates u [] xs = xs"
| "fisher_yates u (r # rs) xs = fisher_yates (Suc u) rs (swap u (u + r) xs)"

lemma length_swap [simp]: "length (swap u v xs) = length xs"
  by (simp add: swap_def)

lemma swap_same [simp]: "u < length xs \<Longrightarrow> swap u u xs = xs"
  by (simp add: swap_def)

lemma mset_swap_list: "u < length xs \<Longrightarrow> v < length xs \<Longrightarrow> mset (swap u v xs) = mset xs"
  by (simp add: swap_def mset_swap)

lemma slot_fits: "i < n \<Longrightarrow> n * sz \<le> L \<Longrightarrow> i * sz + sz \<le> L" for i :: nat
  using mult_le_mono1 [of "Suc i" n sz] by simp

lemma read_write_slot:
  assumes "i < n" "j < n" "n * sz \<le> length mem" "length xs = sz"
  shows "mem_read (i * sz) sz (mem_write (j * sz) xs mem) = (if i = j then xs else mem_read (i * sz) sz mem)"
proof (rule nth_equalityI)
  have f: "i * sz + sz \<le> length mem" "j * sz + sz \<le> length mem" using slot_fits assms(1-3) by blast+
  show "length (mem_read (i * sz) sz (mem_write (j * sz) xs mem)) = length (if i = j then xs else mem_read (i * sz) sz mem)"
    using f assms(4) by simp
  fix k assume "k < length (mem_read (i * sz) sz (mem_write (j * sz) xs mem))"
  then have k: "k < sz" using f assms(4) by simp
  have "i * sz + k < j * sz \<or> j * sz + sz \<le> i * sz + k" if "i \<noteq> j"
  proof (cases "i < j")
    case True
    then have "Suc i * sz \<le> j * sz" by (intro mult_le_mono1) simp
    then show ?thesis using k by simp
  next
    case False
    then have "Suc j * sz \<le> i * sz" using that by (intro mult_le_mono1) simp
    then show ?thesis by simp
  qed
  then show "mem_read (i * sz) sz (mem_write (j * sz) xs mem) ! k = (if i = j then xs else mem_read (i * sz) sz mem) ! k"
    using f k assms(4) by (auto simp: nth_mem_read nth_mem_write)
qed

lemma elems_write:
  assumes "j < n" "n * sz \<le> length mem" "length xs = sz"
  shows "elems sz n (mem_write (j * sz) xs mem) = (elems sz n mem)[j := xs]"
proof (rule nth_equalityI)
  fix i assume "i < length (elems sz n (mem_write (j * sz) xs mem))"
  then have "i < n" by (simp add: elems_def)
  then show "elems sz n (mem_write (j * sz) xs mem) ! i = (elems sz n mem)[j := xs] ! i"
    using read_write_slot [OF \<open>i < n\<close> assms] assms(1) by (cases "i = j") (simp_all add: elems_def)
qed (simp add: elems_def)

lemma length_elems [simp]: "length (elems sz n mem) = n"
  by (simp add: elems_def)

lemma nth_elems: "i < n \<Longrightarrow> elems sz n mem ! i = mem_read (i * sz) sz mem"
  by (simp add: elems_def)

lemma drop_write: "p + length xs \<le> k \<Longrightarrow> k \<le> length mem \<Longrightarrow> drop k (mem_write p xs mem) = drop k mem"
  by (simp add: mem_write_def)

lemma swap_elements_eq:
  assumes "u < n" "v < n" "n * sz \<le> length mem"
  obtains mem' where "swap_elements sz u v mem = Some mem'" "elems sz n mem' = swap u v (elems sz n mem)"
    "length mem' = length mem" "drop (n * sz) mem' = drop (n * sz) mem"
proof -
  have f: "u * sz + sz \<le> length mem" "v * sz + sz \<le> length mem" "u * sz + sz \<le> n * sz" "v * sz + sz \<le> n * sz"
    using slot_fits assms by blast+
  define m1 where "m1 = mem_write (u * sz) (mem_read (v * sz) sz mem) mem"
  define m2 where "m2 = mem_write (v * sz) (mem_read (u * sz) sz mem) m1"
  have l1: "length m1 = length mem" using f by (simp add: m1_def)
  have "elems sz n m2 = (elems sz n m1)[v := mem_read (u * sz) sz mem]"
    unfolding m2_def using f assms l1 by (intro elems_write) simp_all
  also have "elems sz n m1 = (elems sz n mem)[u := mem_read (v * sz) sz mem]"
    unfolding m1_def using f assms by (intro elems_write) simp_all
  finally have "elems sz n m2 = swap u v (elems sz n mem)" using assms by (simp add: swap_def nth_elems)
  moreover have "swap_elements sz u v mem = Some m2" using f by (simp add: swap_elements_def Let_def m1_def m2_def)
  moreover have "length m2 = length mem" using f l1 by (simp add: m2_def)
  moreover have "drop (n * sz) m2 = drop (n * sz) mem"
  proof -
    have "drop (n * sz) m2 = drop (n * sz) m1" unfolding m2_def using f assms(3) l1 by (intro drop_write) simp_all
    also have "\<dots> = drop (n * sz) mem" unfolding m1_def using f assms(3) by (intro drop_write) simp_all
    finally show ?thesis .
  qed
  ultimately show thesis using that by blast
qed

text \<open>The maxima of the draws from position \<open>u\<close> on.\<close>

definition maxima :: "nat \<Rightarrow> nat \<Rightarrow> nat list" where
  "maxima n u = map (\<lambda>u. n - 1 - u) [u..<n - 1]"

lemma maxima_step: "u < n - 1 \<Longrightarrow> maxima n u = (n - 1 - u) # maxima n (Suc u)"
  by (simp add: maxima_def upt_conv_Cons)

lemma maxima_end: "n - 1 \<le> u \<Longrightarrow> maxima n u = []"
  by (simp add: maxima_def)

lemma shuffle_loop_complete:
  assumes "draws (maxima n u) rs s s'" "pool_ok (pool s)" "n * sz \<le> length mem" "n < 2 ^ 64"
  shows "\<exists>mem'. shuffle_loop [u..<n - 1] n sz mem s = Some (mem', s') \<and>
    elems sz n mem' = fisher_yates u rs (elems sz n mem) \<and> length mem' = length mem \<and>
    drop (n * sz) mem' = drop (n * sz) mem"
  using assms
proof (induction "n - 1 - u" arbitrary: u rs mem s)
  case 0
  then show ?case by (cases rs) (simp_all add: maxima_end)
next
  case (Suc k)
  then have u: "[u..<n - 1] = u # [Suc u..<n - 1]" "u < n - 1" by (simp_all add: upt_conv_Cons)
  with Suc.prems(1) obtain r rs1 s1 where rs: "rs = r # rs1" "bounded_draw (n - 1 - u) s r s1"
    "draws (maxima n (Suc u)) rs1 s1 s'"
    by (cases rs) (auto simp only: maxima_step draws.simps)
  have r: "r \<le> n - 1 - u" "pool_ok (pool s1)" using bounded_draw_ok [OF rs(2) Suc.prems(2)] by simp_all
  have ru: "unat (of_nat r :: u64) = r" using r(1) Suc.prems(4) by (intro unat_of_nat_small) simp
  have dr: "pool_rand_size_maximum (of_nat (n - 1 - u)) s = Some (of_nat r, s1)"
    using size_maximum_iff [OF Suc.prems(2), of "n - 1 - u" "of_nat r" s1] Suc.prems(4) rs(2) ru by simp
  have z: "(of_nat r :: u64) = 0 \<longleftrightarrow> r = 0" using ru by (metis unat_eq_zero)
  have un: "u < n" "u + r < n" using u(2) r(1) by simp_all
  obtain mem1 where m1: "swap_elements sz u (u + r) mem = Some mem1" "elems sz n mem1 = swap u (u + r) (elems sz n mem)"
    "length mem1 = length mem" "drop (n * sz) mem1 = drop (n * sz) mem"
    by (rule swap_elements_eq [OF un(1) un(2) Suc.prems(3)])
  define mem2 where "mem2 = (if r = 0 then mem else mem1)"
  have m2: "elems sz n mem2 = swap u (u + r) (elems sz n mem)" "length mem2 = length mem"
    "drop (n * sz) mem2 = drop (n * sz) mem"
    using m1 u(2) by (simp_all add: mem2_def)
  have "shuffle_loop [u..<n - 1] n sz mem s = shuffle_loop [Suc u..<n - 1] n sz mem2 s1"
    unfolding u(1) shuffle_loop.simps dr using m1(1) ru z by (simp add: mem2_def)
  moreover have "k = n - 1 - Suc u" using Suc.hyps(2) by simp
  note Suc.hyps(1) [OF this rs(3) r(2), of mem2]
  ultimately show ?case using m2 Suc.prems(3,4) rs(1) by simp
qed

lemma shuffle_loop_sound:
  assumes "shuffle_loop [u..<n - 1] n sz mem s = Some (mem', s')" "pool_ok (pool s)" "n * sz \<le> length mem" "n < 2 ^ 64"
  shows "\<exists>rs. draws (maxima n u) rs s s'"
  using assms
proof (induction "n - 1 - u" arbitrary: u mem s)
  case 0
  then show ?case by (intro exI [of _ "[]"]) (simp add: maxima_end)
next
  case (Suc k)
  then have u: "[u..<n - 1] = u # [Suc u..<n - 1]" "u < n - 1" by (simp_all add: upt_conv_Cons)
  obtain r s1 where dr: "pool_rand_size_maximum (of_nat (n - 1 - u)) s = Some (r, s1)"
    using Suc.prems(1) unfolding u(1) shuffle_loop.simps
    by (cases "pool_rand_size_maximum (of_nat (n - 1 - u)) s") (simp_all only: Option.bind.simps, simp, force)
  then have b: "bounded_draw (n - 1 - u) s (unat r) s1"
    using size_maximum_iff [OF Suc.prems(2), of "n - 1 - u" r s1] Suc.prems(4) by simp
  then have r: "unat r \<le> n - 1 - u" "pool_ok (pool s1)" using bounded_draw_ok Suc.prems(2) by blast+
  have un: "u < n" "u + unat r < n" using u(2) r(1) by simp_all
  obtain mem1 where m1: "swap_elements sz u (u + unat r) mem = Some mem1" "length mem1 = length mem"
    by (rule swap_elements_eq [OF un(1) un(2) Suc.prems(3)])
  define mem2 where "mem2 = (if r = 0 then mem else mem1)"
  have "shuffle_loop [Suc u..<n - 1] n sz mem2 s1 = Some (mem', s')"
    using Suc.prems(1) m1(1) unfolding u(1) shuffle_loop.simps dr by (simp add: mem2_def split: if_splits)
  moreover have "n * sz \<le> length mem2" using m1(2) Suc.prems(3) by (simp add: mem2_def)
  moreover have "k = n - 1 - Suc u" using Suc.hyps(2) by simp
  ultimately obtain rs where "draws (maxima n (Suc u)) rs s1 s'"
    using Suc.hyps(1) r(2) Suc.prems(4) by blast
  with b u(2) show ?case by (intro exI [of _ "unat r # rs"]) (auto simp only: maxima_step draws.simps)
qed

text \<open>Each arrangement comes from exactly one sequence of draws.\<close>

definition draw_lists :: "nat \<Rightarrow> nat \<Rightarrow> nat list set" where
  "draw_lists u n = {rs. length rs = n - 1 - u \<and> (\<forall>i < length rs. rs ! i \<le> n - 1 - (u + i))}"

lemma draw_lists_Cons:
  "r # rs \<in> draw_lists u n \<longleftrightarrow> u < n - 1 \<and> r \<le> n - 1 - u \<and> rs \<in> draw_lists (Suc u) n"
  by (auto simp: draw_lists_def nth_Cons' less_Suc_eq_0_disj)

lemma mset_fisher_yates: "rs \<in> draw_lists u (length xs) \<Longrightarrow> mset (fisher_yates u rs xs) = mset xs"
proof (induction rs arbitrary: u xs)
  case (Cons r rs)
  then have u: "u < length xs - 1" by (simp add: draw_lists_Cons)
  from Cons.prems have "r \<le> length xs - 1 - u" "rs \<in> draw_lists (Suc u) (length xs)" by (simp_all add: draw_lists_Cons)
  with Cons.IH [of "Suc u" "swap u (u + r) xs"] u show ?case by (simp add: mset_swap_list)
qed simp

lemma take_fisher_yates: "rs \<in> draw_lists u (length xs) \<Longrightarrow> take u (fisher_yates u rs xs) = take u xs"
proof (induction rs arbitrary: u xs)
  case (Cons r rs)
  then have u: "u < length xs - 1" by (simp add: draw_lists_Cons)
  from Cons.prems have r: "r \<le> length xs - 1 - u" "rs \<in> draw_lists (Suc u) (length xs)" by (simp_all add: draw_lists_Cons)
  have "take u (fisher_yates u (r # rs) xs) = take u (take (Suc u) (fisher_yates (Suc u) rs (swap u (u + r) xs)))"
    by (simp add: min_def)
  also have "\<dots> = take u (swap u (u + r) xs)" using Cons.IH [of "Suc u" "swap u (u + r) xs"] r(2) by (simp add: min_def)
  also have "\<dots> = take u xs" by (simp add: swap_def)
  finally show ?case .
qed simp

lemma fisher_yates_unique:
  assumes "distinct xs" "mset ys = mset xs" "take u ys = take u xs"
  shows "\<exists>!rs. rs \<in> draw_lists u (length xs) \<and> fisher_yates u rs xs = ys"
  using assms
proof (induction "length xs - 1 - u" arbitrary: u xs)
  case 0
  then have len: "length ys = length xs" "length xs \<le> Suc u" by (auto dest: mset_eq_length)
  have "ys = xs"
  proof (cases "length xs \<le> u")
    case True
    then show ?thesis using "0.prems"(3) len(1) by simp
  next
    case False
    then have l: "length xs = Suc u" using len by simp
    then have "xs = take u xs @ [xs ! u]" "ys = take u ys @ [ys ! u]"
      using len(1) take_Suc_conv_app_nth [of u xs] take_Suc_conv_app_nth [of u ys] by simp_all
    then have "mset [ys ! u] = mset [xs ! u]" using "0.prems"(2,3) by (metis add_left_cancel mset_append)
    then show ?thesis using \<open>xs = _\<close> \<open>ys = _\<close> "0.prems"(3) by simp
  qed
  moreover have "draw_lists u (length xs) = {[]}" using len(2) by (auto simp: draw_lists_def)
  ultimately show ?case by (intro ex1I [of _ "[]"]) simp_all
next
  case (Suc k)
  let ?n = "length xs"
  have u: "u < ?n - 1" "u < ?n" using Suc.hyps(2) by simp_all
  have len: "length ys = ?n" using Suc.prems(2) by (rule mset_eq_length)
  have dy: "distinct ys" using Suc.prems(1,2) by (metis mset_eq_imp_distinct_iff)
  have "ys ! u \<in> set xs" using u len Suc.prems(2) by (metis mset_eq_setD nth_mem)
  then obtain j where j: "j < ?n" "xs ! j = ys ! u" by (auto simp: in_set_conv_nth)
  have "u \<le> j"
  proof (rule ccontr)
    assume "\<not> u \<le> j"
    then have "ys ! j = xs ! j" using Suc.prems(3) by (metis not_le nth_take)
    then show False using j dy u len \<open>\<not> u \<le> j\<close> by (metis nth_eq_iff_index_eq order_refl)
  qed
  define r where "r = j - u"
  have r: "r \<le> ?n - 1 - u" "xs ! (u + r) = ys ! u" using j \<open>u \<le> j\<close> by (auto simp: r_def)
  have only: "r' = r" if "r' \<le> ?n - 1 - u" "xs ! (u + r') = ys ! u" for r'
  proof -
    have "u + r' = u + r" using that r u Suc.prems(1) nth_eq_iff_index_eq [of xs "u + r'" "u + r"] by simp
    then show ?thesis by simp
  qed
  let ?xs = "swap u (u + r) xs"
  have su: "swap u (u + r') xs ! u = xs ! (u + r')" if "r' \<le> ?n - 1 - u" for r' using u that by (auto simp: swap_def nth_list_update)
  have ms: "mset ?xs = mset xs" using u r(1) by (intro mset_swap_list) simp_all
  have tk: "take (Suc u) ys = take (Suc u) ?xs"
  proof -
    have "take (Suc u) ys = take u ys @ [ys ! u]" using u len by (simp add: take_Suc_conv_app_nth)
    also have "\<dots> = take u ?xs @ [?xs ! u]" using Suc.prems(3) su [OF r(1)] r(2) by (simp add: swap_def)
    also have "\<dots> = take (Suc u) ?xs" using u by (simp add: take_Suc_conv_app_nth)
    finally show ?thesis .
  qed
  have "k = length ?xs - 1 - Suc u" using Suc.hyps(2) by simp
  moreover have "distinct ?xs" using ms Suc.prems(1) by (metis mset_eq_imp_distinct_iff)
  ultimately have "\<exists>!rs. rs \<in> draw_lists (Suc u) (length ?xs) \<and> fisher_yates (Suc u) rs ?xs = ys"
    using Suc.hyps(1) [of ?xs "Suc u"] ms tk Suc.prems(2) by simp
  then obtain rs where rs: "rs \<in> draw_lists (Suc u) ?n" "fisher_yates (Suc u) rs ?xs = ys"
    and uniq: "\<And>rs'. rs' \<in> draw_lists (Suc u) ?n \<Longrightarrow> fisher_yates (Suc u) rs' ?xs = ys \<Longrightarrow> rs' = rs"
    by (metis length_swap)
  show ?case
  proof (rule ex1I [of _ "r # rs"])
    show "r # rs \<in> draw_lists u ?n \<and> fisher_yates u (r # rs) xs = ys"
      using rs r(1) u(1) by (simp add: draw_lists_Cons)
  next
    fix rs' assume a: "rs' \<in> draw_lists u ?n \<and> fisher_yates u rs' xs = ys"
    then obtain r' rs1 where c: "rs' = r' # rs1" using u(1) by (cases rs') (auto simp: draw_lists_def)
    with a u(1) have d: "r' \<le> ?n - 1 - u" "rs1 \<in> draw_lists (Suc u) ?n" "fisher_yates (Suc u) rs1 (swap u (u + r') xs) = ys"
      by (simp_all add: draw_lists_Cons)
    have "take (Suc u) ys = take (Suc u) (swap u (u + r') xs)"
      using take_fisher_yates [of rs1 "Suc u" "swap u (u + r') xs"] d(2,3) by simp
    then have "ys ! u = swap u (u + r') xs ! u" by (metis lessI nth_take)
    then have "r' = r" using only d(1) su by simp
    then show "rs' = r # rs" using uniq d c by simp
  qed
qed

lemma draws_in_draw_lists:
  "draws (maxima n u) rs s s' \<Longrightarrow> pool_ok (pool s) \<Longrightarrow> rs \<in> draw_lists u n"
proof (induction rs arbitrary: u s)
  case Nil
  then have "\<not> u < n - 1" by (cases "u < n - 1") (simp_all add: maxima_step)
  then show ?case by (simp add: draw_lists_def)
next
  case (Cons r rs)
  then have u: "u < n - 1" by (cases "u < n - 1") (simp_all add: maxima_end)
  then obtain s1 where "bounded_draw (n - 1 - u) s r s1" "draws (maxima n (Suc u)) rs s1 s'"
    using Cons.prems(1) by (auto simp only: maxima_step draws.simps)
  then show ?case using Cons.IH [of "Suc u" s1] bounded_draw_ok Cons.prems(2) u by (simp add: draw_lists_Cons)
qed

subsection \<open>Property\<close>

text \<open>
  Property C22.  \<open>futils_random_shuffle\<close> returns exactly when its bounded draws are accepted.  The
  elements are then rearranged as Fisher and Yates do with these draws: a permutation of the
  elements, with everything after the array untouched; and of distinct elements every permutation
  comes from exactly one sequence of draws.
\<close>

theorem shuffle_permutes:
  assumes "pool_ok (pool s)" "2 \<le> n" "0 < sz" "n * sz \<le> length mem" "n < 2 ^ 64" "sz \<le> 8 \<or> ok"
  shows "(\<forall>mem' s'. futils_random_shuffle ok (Some mem) n sz s = Some ((Inr (), Some mem'), s') \<longrightarrow>
      (\<exists>rs \<in> draw_lists 0 n. draws (maxima n 0) rs s s' \<and> elems sz n mem' = fisher_yates 0 rs (elems sz n mem) \<and>
        mset (elems sz n mem') = mset (elems sz n mem) \<and> drop (n * sz) mem' = drop (n * sz) mem)) \<and>
    (\<forall>rs s'. draws (maxima n 0) rs s s' \<longrightarrow>
      (\<exists>mem'. futils_random_shuffle ok (Some mem) n sz s = Some ((Inr (), Some mem'), s'))) \<and>
    (\<forall>ys. distinct (elems sz n mem) \<and> mset ys = mset (elems sz n mem) \<longrightarrow>
      (\<exists>!rs. rs \<in> draw_lists 0 n \<and> fisher_yates 0 rs (elems sz n mem) = ys))"
proof (intro conjI allI impI)
  have run: "futils_random_shuffle ok (Some mem) n sz s = map_option (\<lambda>(m, s). ((Inr (), Some m), s)) (shuffle_loop [0..<n - 1] n sz mem s)"
    using assms(2,3,6) by (auto simp: futils_random_shuffle_def split: Option.bind_split option.split)
  fix mem' s' assume "futils_random_shuffle ok (Some mem) n sz s = Some ((Inr (), Some mem'), s')"
  then have l: "shuffle_loop [0..<n - 1] n sz mem s = Some (mem', s')" unfolding run by auto
  then obtain rs where d: "draws (maxima n 0) rs s s'" using shuffle_loop_sound assms(1,4,5) by blast
  then have dl: "rs \<in> draw_lists 0 n" using assms(1) by (rule draws_in_draw_lists)
  have e: "elems sz n mem' = fisher_yates 0 rs (elems sz n mem)" "drop (n * sz) mem' = drop (n * sz) mem"
    using shuffle_loop_complete [OF d assms(1,4,5)] l by auto
  moreover have "mset (elems sz n mem') = mset (elems sz n mem)"
    using mset_fisher_yates [of rs 0 "elems sz n mem"] dl e(1) by simp
  ultimately show "\<exists>rs \<in> draw_lists 0 n. draws (maxima n 0) rs s s' \<and> elems sz n mem' = fisher_yates 0 rs (elems sz n mem) \<and>
        mset (elems sz n mem') = mset (elems sz n mem) \<and> drop (n * sz) mem' = drop (n * sz) mem"
    using d dl by blast
next
  fix rs s' assume d: "draws (maxima n 0) rs s s'"
  obtain mem' where "shuffle_loop [0..<n - 1] n sz mem s = Some (mem', s')"
    using shuffle_loop_complete [OF d assms(1,4,5)] by blast
  then show "\<exists>mem'. futils_random_shuffle ok (Some mem) n sz s = Some ((Inr (), Some mem'), s')"
    using assms(2,3,6) by (auto simp: futils_random_shuffle_def)
next
  fix ys assume "distinct (elems sz n mem) \<and> mset ys = mset (elems sz n mem)"
  then show "\<exists>!rs. rs \<in> draw_lists 0 n \<and> fisher_yates 0 rs (elems sz n mem) = ys"
    using fisher_yates_unique [of "elems sz n mem" ys 0] by simp
qed

lemma shuffle_permutes_witness:
  "\<exists>!rs. rs \<in> draw_lists 0 3 \<and> fisher_yates 0 rs (elems 2 3 [1, 2, 3, 4, 5, 6 :: u8]) = [[3, 4], [5, 6], [1, 2]]"
proof -
  have e: "elems 2 3 [1, 2, 3, 4, 5, 6 :: u8] = [[1, 2], [3, 4], [5, 6]]"
    by (simp add: elems_def mem_read_def upt_rec)
  have "distinct (elems 2 3 [1, 2, 3, 4, 5, 6 :: u8]) \<and> mset [[3, 4], [5, 6], [1, 2]] = mset (elems 2 3 [1, 2, 3, 4, 5, 6 :: u8])"
    unfolding e by simp
  moreover have "pool_ok (pool seeded_sample)" using ready_seeded_sample by (simp add: ready_def)
  ultimately show ?thesis
    using shuffle_permutes [of seeded_sample 3 2 "[1, 2, 3, 4, 5, 6]" True, THEN conjunct2, THEN conjunct2] by simp
qed

end
