(* ===== verification/Timetools.thy ===== *)
theory Timetools
  imports Prelude
begin

text \<open>
  Component \<open>timetools\<close> (src/src/timetools.c): order, difference, sum and conversions of
  \<open>struct timespec\<close>, and the translation of monotonic into realtime stamps.

  \<open>time_t\<close>, \<open>long\<close> and \<open>int64_t\<close> are 64-bit signed: they are \<open>int\<close>s, each signed operation goes
  through \<open>s64\<close>, which is \<open>Fault\<close> on overflow.  Unsigned arithmetic is on words and wraps.  Where
  the code mixes a signed with an unsigned operand it converts to unsigned first, and a store into
  a signed variable converts back (\<open>to_s64\<close>).  A pointer the code tests is an \<open>option\<close>; an output
  pointer is a \<open>bool\<close> (given or \<open>NULL\<close>).  Every output is written field by field from values
  read before, so an output may be the same object as an input.
\<close>

definition s64 :: "int \<Rightarrow> int res" where
  "s64 x = (if - (2 ^ 63) \<le> x \<and> x < 2 ^ 63 then Inr x else Inl Fault)"

definition to_u64 :: "int \<Rightarrow> u64" where
  "to_u64 x = of_int x"

definition to_s64 :: "u64 \<Rightarrow> int" where
  "to_s64 w = sint w"

record timespec =
  tv_sec :: int
  tv_nsec :: int

record timeval =
  tvl_sec :: int
  tvl_usec :: int

subsection \<open>Clocks\<close>

text \<open>What successive calls of \<open>clock_gettime\<close> report, and the number of calls so far.\<close>

record clock =
  mono_at :: "nat \<Rightarrow> timespec res"
  real_at :: "nat \<Rightarrow> timespec res"
  calls :: nat

definition time_get_monotonic :: "clock \<Rightarrow> timespec res \<times> clock" where
  "time_get_monotonic k = (mono_at k (calls k), k\<lparr>calls := calls k + 1\<rparr>)"

definition time_get_realtime :: "clock \<Rightarrow> timespec res \<times> clock" where
  "time_get_realtime k = (real_at k (calls k), k\<lparr>calls := calls k + 1\<rparr>)"

text \<open>The Windows clocks, from the performance counter and from the two halves of a file time.\<close>

definition time_get_monotonic_win :: "int \<Rightarrow> int \<Rightarrow> timespec res" where
  "time_get_monotonic_win freq cnt =
    (if freq = 0 then Inl Fault
     else bindR (s64 (1000 * 1000 * 1000 * (cnt smod freq))) (\<lambda>n.
       Inr \<lparr>tv_sec = cnt sdiv freq, tv_nsec = n sdiv freq\<rparr>))"

definition sec_as_100ns :: u64 where
  "sec_as_100ns = 1000 * 1000 * 1000 div 100"

definition windows_unix_delta_as_100ns :: u64 where
  "windows_unix_delta_as_100ns = 134774 * 24 * 60 * 60 * sec_as_100ns"

definition time_get_realtime_win :: "u32 \<Rightarrow> u32 \<Rightarrow> timespec" where
  "time_get_realtime_win high low =
    (let t = push_bit 32 (ucast high) OR ucast low;
         t = (if t < windows_unix_delta_as_100ns then windows_unix_delta_as_100ns else t);
         t = t - windows_unix_delta_as_100ns
     in \<lparr>tv_sec = to_s64 (t div sec_as_100ns), tv_nsec = to_s64 ((t mod sec_as_100ns) * 100)\<rparr>)"

text \<open>The ThreadX clock, from a stamp in microseconds.\<close>

definition time_get_monotonic_threadx :: "bool \<Rightarrow> u64 \<Rightarrow> timespec res" where
  "time_get_monotonic_threadx out ts =
    (if \<not> out then Inl EINVAL
     else Inr \<lparr>tv_sec = to_s64 (ts div 1000000), tv_nsec = to_s64 ((ts mod 1000000) * 1000)\<rparr>)"

definition time_get_realtime_threadx :: "timespec res" where
  "time_get_realtime_threadx = Inl ENOSYS"

definition time_msleep_threadx :: "u32 \<Rightarrow> unit res" where
  "time_msleep_threadx ms = Inr ()"

text \<open>
  The monotonic clock of a Mach system without \<open>clock_gettime\<close>: \<open>nsratio\<close> is the ratio of the time base,
  fetched once (\<open>info\<close> is the answer of \<open>mach_timebase_info\<close>), and \<open>scale (numer, denom) ticks\<close> the
  product of the ticks and the quotient in \<open>double\<close>, cut to 64 bits.
\<close>

definition time_get_monotonic_internal_mach ::
  "(u32 \<times> u32) \<Rightarrow> (u32 \<times> u32 \<Rightarrow> u64 \<Rightarrow> u64) \<Rightarrow> u64 \<Rightarrow> (u32 \<times> u32) \<Rightarrow> timespec res \<times> (u32 \<times> u32)" where
  "time_get_monotonic_internal_mach info scale ticks nsratio =
    (let nsratio = (if snd nsratio = 0 then info else nsratio);
         nsecs = scale nsratio ticks
     in (Inr \<lparr>tv_sec = to_s64 (nsecs div 1000000000), tv_nsec = to_s64 (nsecs mod 1000000000)\<rparr>, nsratio))"

text \<open>The realtime clock of a Mach system without \<open>clock_gettime\<close>, from \<open>gettimeofday\<close>.\<close>

definition time_get_realtime_mach :: "timeval res \<Rightarrow> timespec res" where
  "time_get_realtime_mach now = bindR now (\<lambda>tv.
     bindR (s64 (tvl_usec tv * 1000)) (\<lambda>n. Inr \<lparr>tv_sec = tvl_sec tv, tv_nsec = n\<rparr>))"

definition time_msleep :: "u32 \<Rightarrow> (timespec \<Rightarrow> unit res) \<Rightarrow> unit res" where
  "time_msleep ms nanosleep =
    nanosleep \<lparr>tv_sec = uint (ms div 1000), tv_nsec = uint (ms mod 1000) * 1000000\<rparr>"

subsection \<open>Order and difference\<close>

definition time_timespec_cmp :: "timespec option \<Rightarrow> timespec option \<Rightarrow> int" where
  "time_timespec_cmp t1 t2 = (case (t1, t2) of
     (Some t1, Some t2) \<Rightarrow>
       if tv_sec t1 > tv_sec t2 then 1
       else if tv_sec t1 < tv_sec t2 then -1
       else if tv_nsec t1 > tv_nsec t2 then 1
       else if tv_nsec t1 < tv_nsec t2 then -1
       else 0
   | _ \<Rightarrow> 0)"

definition time_timespec_diff :: "timespec option \<Rightarrow> timespec option \<Rightarrow> bool \<Rightarrow> timespec res" where
  "time_timespec_diff start end out = (case (start, end) of
     (Some start, Some end) \<Rightarrow>
       if \<not> out then Inl EINVAL
       else if tv_sec end < tv_sec start \<or> (tv_sec end = tv_sec start \<and> tv_nsec end < tv_nsec start)
       then Inl EINVAL
       else if tv_nsec end > tv_nsec start
       then bindR (s64 (tv_sec end - tv_sec start)) (\<lambda>s.
            bindR (s64 (tv_nsec end - tv_nsec start)) (\<lambda>n. Inr \<lparr>tv_sec = s, tv_nsec = n\<rparr>))
       else bindR (s64 (tv_sec end - tv_sec start)) (\<lambda>s. bindR (s64 (s - 1)) (\<lambda>s.
            Inr \<lparr>tv_sec = s, tv_nsec = to_s64 (1000000000 + to_u64 (tv_nsec end) - to_u64 (tv_nsec start))\<rparr>))
   | _ \<Rightarrow> Inl EINVAL)"

definition time_timespec_to_ns :: "timespec option \<Rightarrow> bool \<Rightarrow> u64 res" where
  "time_timespec_to_ns value out = (case value of
     Some v \<Rightarrow> if \<not> out then Inl EINVAL else Inr (to_u64 (tv_sec v) * 1000000000 + to_u64 (tv_nsec v))
   | None \<Rightarrow> Inl EINVAL)"

definition time_timespec_to_ms :: "timespec option \<Rightarrow> bool \<Rightarrow> u64 res" where
  "time_timespec_to_ms value out = (case value of
     Some v \<Rightarrow> if \<not> out then Inl EINVAL else Inr (to_u64 (tv_sec v) * 1000 + to_u64 (tv_nsec v) div 1000000)
   | None \<Rightarrow> Inl EINVAL)"

definition time_timespec_to_us :: "timespec option \<Rightarrow> bool \<Rightarrow> u64 res" where
  "time_timespec_to_us value out = (case value of
     Some v \<Rightarrow> if \<not> out then Inl EINVAL else Inr (to_u64 (tv_sec v) * 1000000 + to_u64 (tv_nsec v) div 1000)
   | None \<Rightarrow> Inl EINVAL)"

definition time_ns_to_timespec :: "u64 option \<Rightarrow> bool \<Rightarrow> timespec res" where
  "time_ns_to_timespec value out = (case value of
     Some v \<Rightarrow> if \<not> out then Inl EINVAL
       else Inr \<lparr>tv_sec = to_s64 (v div 1000000000), tv_nsec = to_s64 (v mod 1000000000)\<rparr>
   | None \<Rightarrow> Inl EINVAL)"

definition time_us_to_timespec :: "u64 option \<Rightarrow> bool \<Rightarrow> timespec res" where
  "time_us_to_timespec value out = (case value of
     Some v \<Rightarrow> if \<not> out then Inl EINVAL
       else Inr \<lparr>tv_sec = to_s64 (v div 1000000), tv_nsec = to_s64 ((v mod 1000000) * 1000)\<rparr>
   | None \<Rightarrow> Inl EINVAL)"

definition time_ms_to_timespec :: "u64 option \<Rightarrow> bool \<Rightarrow> timespec res" where
  "time_ms_to_timespec value out = (case value of
     Some v \<Rightarrow> if \<not> out then Inl EINVAL
       else Inr \<lparr>tv_sec = to_s64 (v div 1000), tv_nsec = to_s64 ((v mod 1000) * 1000000)\<rparr>
   | None \<Rightarrow> Inl EINVAL)"

text \<open>
  \<open>time_timespec_diff_us\<close>: the result, and what is stored in the duration and in the sign (\<open>None\<close>:
  left alone).  The sign is stored before the conversion can fail.
\<close>

definition time_timespec_diff_us ::
  "timespec option \<Rightarrow> timespec option \<Rightarrow> bool \<Rightarrow> bool \<Rightarrow> unit res \<times> u64 option \<times> int option" where
  "time_timespec_diff_us t1 t2 dur_out sign_out =
    (let after = (time_timespec_cmp t1 t2 = 1);
         d = (if after then time_timespec_diff t2 t1 True else time_timespec_diff t1 t2 True)
     in case d of
       Inl e \<Rightarrow> (Inl e, None, None)
     | Inr d \<Rightarrow>
         (let sign = (if sign_out then Some (if after then 1 else -1) else None)
          in case time_timespec_to_us (Some d) dur_out of
            Inl e \<Rightarrow> (Inl e, None, sign)
          | Inr us \<Rightarrow> (Inr (), Some us, sign)))"

text \<open>\<open>time_timespec_diff_in_range\<close>: the answer and what is stored in the difference.\<close>

definition time_timespec_diff_in_range ::
  "timespec option \<Rightarrow> timespec option \<Rightarrow> u64 \<Rightarrow> bool \<Rightarrow> (bool \<times> u64 option) res" where
  "time_timespec_diff_in_range t1 t2 range_us out =
    (if t1 = None \<or> t2 = None then Inr (False, None)
     else let ret = time_timespec_cmp t1 t2 in
       if ret = 0 then Inr (True, None)
       else case (if ret = 1 then time_timespec_diff t2 t1 True else time_timespec_diff t1 t2 True) of
         Inl Fault \<Rightarrow> Inl Fault
       | Inl e \<Rightarrow> Inr (False, None)
       | Inr d \<Rightarrow> bindR (time_timespec_to_us (Some d) True) (\<lambda>us.
           Inr (us < range_us, if out then Some us else None)))"

definition time_timespec_diff_now :: "timespec option \<Rightarrow> bool \<Rightarrow> clock \<Rightarrow> timespec res \<times> clock" where
  "time_timespec_diff_now value out k =
    (if \<not> out \<or> value = None then (Inl EINVAL, k)
     else let (ret, k) = time_get_monotonic k in
       (bindR ret (\<lambda>now. time_timespec_diff value (Some now) out), k))"

subsection \<open>Sums\<close>

definition time_timespec_add_ns :: "timespec option \<Rightarrow> int \<Rightarrow> bool \<Rightarrow> timespec res" where
  "time_timespec_add_ns ts delta out = (case ts of
     None \<Rightarrow> Inl EINVAL
   | Some ts \<Rightarrow>
      if \<not> out then Inl EINVAL
      else let sec = delta sdiv 1000000000; ns = delta smod 1000000000 in
        bindR (s64 (tv_sec ts + sec)) (\<lambda>s.
        bindR (s64 (tv_nsec ts + ns)) (\<lambda>n.
          if n \<ge> 1000000000
          then bindR (s64 (s + 1)) (\<lambda>s. Inr \<lparr>tv_sec = s, tv_nsec = n - 1000000000\<rparr>)
          else if n < 0
          then bindR (s64 (s - 1)) (\<lambda>s. Inr \<lparr>tv_sec = s, tv_nsec = n + 1000000000\<rparr>)
          else Inr \<lparr>tv_sec = s, tv_nsec = n\<rparr>)))"

definition time_timespec_add_us :: "timespec option \<Rightarrow> int \<Rightarrow> bool \<Rightarrow> timespec res" where
  "time_timespec_add_us ts delta out = bindR (s64 (delta * 1000)) (\<lambda>d. time_timespec_add_ns ts d out)"

definition time_timeval_to_timespec :: "timeval option \<Rightarrow> bool \<Rightarrow> timespec res" where
  "time_timeval_to_timespec tv out = (case tv of
     None \<Rightarrow> Inl EINVAL
   | Some tv \<Rightarrow> if \<not> out then Inl EINVAL
       else bindR (s64 (tvl_usec tv * 1000)) (\<lambda>n. Inr \<lparr>tv_sec = tvl_sec tv, tv_nsec = n\<rparr>))"

definition time_timeval_to_ms :: "timeval option \<Rightarrow> bool \<Rightarrow> u32 res" where
  "time_timeval_to_ms value out = (case value of
     None \<Rightarrow> Inl EINVAL
   | Some v \<Rightarrow> if \<not> out then Inl EINVAL
       else Inr (ucast (ucast (ucast (to_u64 (tvl_sec v)) :: u32) * 1000 + to_u64 (tvl_usec v) div 1000 :: u64)))"

subsection \<open>From the monotonic to the realtime clock\<close>

definition time_monotonic_to_realtime_us_1 :: "u64 \<Rightarrow> bool \<Rightarrow> clock \<Rightarrow> u64 res \<times> clock" where
  "time_monotonic_to_realtime_us_1 mt_us out k =
    (if \<not> out then (Inl EINVAL, k)
     else let (ret, k) = time_get_monotonic k in case ret of Inl e \<Rightarrow> (Inl e, k) | Inr mt_now1_ts \<Rightarrow>
       (let (ret, k) = time_get_realtime k in case ret of Inl e \<Rightarrow> (Inl e, k) | Inr rt_now_ts \<Rightarrow>
       (let (ret, k) = time_get_monotonic k in case ret of Inl e \<Rightarrow> (Inl e, k) | Inr mt_now2_ts \<Rightarrow>
         (bindR (time_timespec_to_us (Some mt_now1_ts) True) (\<lambda>mt_now1_us.
          bindR (time_timespec_to_us (Some mt_now2_ts) True) (\<lambda>mt_now2_us.
          let mt_now_us = (mt_now1_us + mt_now2_us + 1) div 2; duration_us = mt_now_us - mt_us in
          bindR (time_timespec_to_us (Some rt_now_ts) True) (\<lambda>rt_now_us.
            Inr (rt_now_us - duration_us)))), k))))"

text \<open>\<open>strtoll (s, NULL, 10)\<close>: blanks, a sign, digits up to the first other character; \<open>ERANGE\<close> outside 64 bits.\<close>

definition is_space :: "char \<Rightarrow> bool" where
  "is_space c \<longleftrightarrow> c \<in> {CHR '' '', CHR 0x09, CHR 0x0A, CHR 0x0B, CHR 0x0C, CHR 0x0D}"

definition digit_value :: "char \<Rightarrow> int" where
  "digit_value c = int (of_char c) - 48"

definition is_digit :: "char \<Rightarrow> bool" where
  "is_digit c \<longleftrightarrow> 0 \<le> digit_value c \<and> digit_value c \<le> 9"

definition number_value :: "string \<Rightarrow> int" where
  "number_value ds = foldl (\<lambda>n c. 10 * n + digit_value c) 0 ds"

definition strtoll10 :: "string \<Rightarrow> int res" where
  "strtoll10 str =
    (let s = dropWhile is_space str;
         neg = (s \<noteq> [] \<and> hd s = CHR ''-'');
         s = (if s \<noteq> [] \<and> hd s \<in> {CHR ''-'', CHR ''+''} then tl s else s);
         n = number_value (takeWhile is_digit s);
         n = (if neg then - n else n)
     in if - (2 ^ 63) \<le> n \<and> n < 2 ^ 63 then Inr n else Inl ERANGE)"

definition time_monotonic_to_realtime_us_2 :: "u64 \<Rightarrow> string \<Rightarrow> u64 res" where
  "time_monotonic_to_realtime_us_2 mt_us prop_rt0 = (case strtoll10 prop_rt0 of
     Inl e \<Rightarrow> Inl EINVAL
   | Inr n \<Rightarrow> Inr (mt_us + to_u64 n))"

text \<open>\<open>simulated\<close>: the property \<open>ro.simulator.clock_rt0_us\<close>, if it is set to a non-empty text.\<close>

definition time_monotonic_to_realtime_us :: "string option \<Rightarrow> u64 \<Rightarrow> bool \<Rightarrow> clock \<Rightarrow> u64 res \<times> clock" where
  "time_monotonic_to_realtime_us simulated mt_us out k =
    (if \<not> out then (Inl EINVAL, k)
     else case simulated of
       Some p \<Rightarrow> (time_monotonic_to_realtime_us_2 mt_us p, k)
     | None \<Rightarrow> time_monotonic_to_realtime_us_1 mt_us out k)"

definition time_monotonic_to_realtime_ms :: "string option \<Rightarrow> u64 \<Rightarrow> bool \<Rightarrow> clock \<Rightarrow> u64 res \<times> clock" where
  "time_monotonic_to_realtime_ms simulated mt_ms out k =
    (if \<not> out then (Inl EINVAL, k)
     else let (ret, k) = time_monotonic_to_realtime_us simulated (mt_ms * 1000) True k in
       (bindR ret (\<lambda>rt_us. Inr ((rt_us + 500) div 1000)), k))"

subsection \<open>Time stamps as numbers\<close>

text \<open>The lexicographic order of the records, which is the order of the nanoseconds they stand for.\<close>

instantiation timespec_ext :: (linorder) linorder
begin

definition less_eq_timespec_ext :: "'a timespec_scheme \<Rightarrow> 'a timespec_scheme \<Rightarrow> bool" where
  "s \<le> t \<longleftrightarrow> tv_sec s < tv_sec t \<or> tv_sec s = tv_sec t \<and>
    (tv_nsec s < tv_nsec t \<or> tv_nsec s = tv_nsec t \<and> timespec.more s \<le> timespec.more t)"

definition less_timespec_ext :: "'a timespec_scheme \<Rightarrow> 'a timespec_scheme \<Rightarrow> bool" where
  "s < t \<longleftrightarrow> s \<le> t \<and> \<not> t \<le> (s :: 'a timespec_scheme)"

instance
proof
  fix s t u :: "'a timespec_scheme"
  show "s < t \<longleftrightarrow> s \<le> t \<and> \<not> t \<le> s" by (rule less_timespec_ext_def)
  show "s \<le> s" by (simp add: less_eq_timespec_ext_def)
  show "s \<le> t \<Longrightarrow> t \<le> u \<Longrightarrow> s \<le> u" by (auto simp: less_eq_timespec_ext_def)
  show "s \<le> t \<Longrightarrow> t \<le> s \<Longrightarrow> s = t" by (cases s; cases t) (auto simp: less_eq_timespec_ext_def)
  show "s \<le> t \<or> t \<le> s" by (auto simp: less_eq_timespec_ext_def)
qed

end

lemma timespec_less: "s < t \<longleftrightarrow> tv_sec s < tv_sec t \<or> tv_sec s = tv_sec t \<and> tv_nsec s < tv_nsec t"
  for s t :: timespec
  by (auto simp: less_timespec_ext_def less_eq_timespec_ext_def)

definition ns_of :: "timespec \<Rightarrow> int" where
  "ns_of t = tv_sec t * 1000000000 + tv_nsec t"

text \<open>Normalised stamps, far enough from the ends of \<open>time_t\<close> (146 billion years).\<close>

definition ts_ok :: "timespec \<Rightarrow> bool" where
  "ts_ok t \<longleftrightarrow> 0 \<le> tv_nsec t \<and> tv_nsec t < 1000000000 \<and> - (2 ^ 62) \<le> tv_sec t \<and> tv_sec t < 2 ^ 62"

lemma ns_of_less_iff: "ts_ok s \<Longrightarrow> ts_ok t \<Longrightarrow> ns_of s < ns_of t \<longleftrightarrow> s < t"
  by (auto simp: timespec_less ns_of_def ts_ok_def)

lemma ns_of_inject: "ts_ok s \<Longrightarrow> ts_ok t \<Longrightarrow> ns_of s = ns_of t \<longleftrightarrow> s = t"
  using ns_of_less_iff [of s t] ns_of_less_iff [of t s] by (metis less_irrefl linorder_less_linear)

lemma s64_ok [simp]: "- (2 ^ 63) \<le> x \<Longrightarrow> x < 2 ^ 63 \<Longrightarrow> s64 x = Inr x"
  by (simp add: s64_def)

lemma to_s64_to_u64: "- (2 ^ 63) \<le> x \<Longrightarrow> x < 2 ^ 63 \<Longrightarrow> to_s64 (to_u64 x) = x"
  by (simp add: to_s64_def to_u64_def sint_sbintrunc' signed_take_bit_int_eq_self)

lemma to_s64_uint: "uint w < 2 ^ 63 \<Longrightarrow> to_s64 w = uint w"
  using to_s64_to_u64 [of "uint w"] uint_ge_0 [of w] by (simp add: to_u64_def)

lemma to_u64_arith: "to_u64 a + to_u64 b = to_u64 (a + b)" "to_u64 a - to_u64 b = to_u64 (a - b)"
  "to_u64 a * to_u64 b = to_u64 (a * b)" "numeral n = to_u64 (numeral n)"
  by (simp_all add: to_u64_def)

lemma uint_to_u64: "0 \<le> x \<Longrightarrow> x < 2 ^ 64 \<Longrightarrow> uint (to_u64 x) = x"
  by (simp add: to_u64_def uint_word_of_int)

lemma cmp_sgn: "ts_ok s \<Longrightarrow> ts_ok t \<Longrightarrow> time_timespec_cmp (Some s) (Some t) = sgn (ns_of s - ns_of t)"
  using ns_of_less_iff [of s t] ns_of_less_iff [of t s]
  by (auto simp: time_timespec_cmp_def timespec_less sgn_if)

lemma diff_eq:
  assumes "ts_ok s" "ts_ok e"
  shows "time_timespec_diff (Some s) (Some e) True =
    (if ns_of e < ns_of s then Inl EINVAL
     else if tv_nsec e > tv_nsec s then Inr \<lparr>tv_sec = tv_sec e - tv_sec s, tv_nsec = tv_nsec e - tv_nsec s\<rparr>
     else Inr \<lparr>tv_sec = tv_sec e - tv_sec s - 1, tv_nsec = 1000000000 + tv_nsec e - tv_nsec s\<rparr>)"
proof -
  have "to_s64 (1000000000 + to_u64 (tv_nsec e) - to_u64 (tv_nsec s)) = 1000000000 + tv_nsec e - tv_nsec s"
    using assms unfolding to_u64_arith by (intro to_s64_to_u64) (auto simp: ts_ok_def)
  then show ?thesis
    using assms ns_of_less_iff [OF assms(2,1)]
    by (auto simp: time_timespec_diff_def timespec_less s64_def bindR_def ts_ok_def)
qed

text \<open>A difference is exact, but its nanoseconds reach a whole second when both stamps have the same.\<close>

lemma diff_exact:
  assumes "ts_ok s" "ts_ok e" "ns_of s \<le> ns_of e"
  shows "\<exists>d. time_timespec_diff (Some s) (Some e) True = Inr d \<and> ns_of d = ns_of e - ns_of s \<and>
    0 \<le> tv_nsec d \<and> tv_nsec d \<le> 1000000000 \<and> (tv_nsec d = 1000000000 \<longleftrightarrow> tv_nsec s = tv_nsec e)"
proof (cases "tv_nsec e > tv_nsec s")
  case True
  then show ?thesis using assms diff_eq [OF assms(1,2)]
    by (intro exI [of _ "\<lparr>tv_sec = tv_sec e - tv_sec s, tv_nsec = tv_nsec e - tv_nsec s\<rparr>"]) (auto simp: ns_of_def ts_ok_def)
next
  case False
  then show ?thesis using assms diff_eq [OF assms(1,2)]
    by (intro exI [of _ "\<lparr>tv_sec = tv_sec e - tv_sec s - 1, tv_nsec = 1000000000 + tv_nsec e - tv_nsec s\<rparr>"])
      (auto simp: ns_of_def ts_ok_def)
qed

lemma to_us_eq:
  assumes "0 \<le> tv_nsec d" "tv_nsec d < 2 ^ 63"
  shows "time_timespec_to_us (Some d) True = Inr (to_u64 (ns_of d div 1000))"
proof -
  have "uint (to_u64 (tv_nsec d) div 1000) = tv_nsec d div 1000"
    using assms by (simp add: uint_div uint_to_u64)
  then have "to_u64 (uint (to_u64 (tv_nsec d) div 1000)) = to_u64 (tv_nsec d div 1000)" by (rule arg_cong)
  then have "to_u64 (tv_nsec d) div 1000 = to_u64 (tv_nsec d div 1000)" by (simp add: to_u64_def)
  moreover have "ns_of d div 1000 = tv_sec d * 1000000 + tv_nsec d div 1000"
  proof -
    have "ns_of d = tv_nsec d + (tv_sec d * 1000000) * 1000" by (simp add: ns_of_def)
    then show ?thesis by (metis div_mult_self1 zero_neq_numeral)
  qed
  ultimately show ?thesis by (simp add: time_timespec_to_us_def to_u64_def)
qed

lemma diff_to_us:
  assumes "ts_ok s" "ts_ok e" "ns_of s \<le> ns_of e" "time_timespec_diff (Some s) (Some e) True = Inr d"
  shows "time_timespec_to_us (Some d) True = Inr (to_u64 ((ns_of e - ns_of s) div 1000))"
  using diff_exact [OF assms(1-3)] assms(4) to_us_eq [of d] by auto

subsection \<open>Sums\<close>

lemma trunc_split:
  fixes delta :: int
  assumes "c > 0"
  shows "delta sdiv c * c + delta smod c = delta" "\<bar>delta smod c\<bar> < c" "\<bar>delta sdiv c\<bar> \<le> \<bar>delta\<bar> div c"
proof -
  show "delta sdiv c * c + delta smod c = delta" by (rule sdiv_mult_smod_eq)
  show "\<bar>delta smod c\<bar> < c" using assms by (auto simp: signed_modulo_int_def sgn_if abs_mult)
  show "\<bar>delta sdiv c\<bar> \<le> \<bar>delta\<bar> div c" using assms by (auto simp: signed_divide_int_def sgn_if abs_mult pos_imp_zdiv_nonneg_iff)
qed

lemma ns_of_split:
  "0 \<le> tv_nsec t \<Longrightarrow> tv_nsec t < 1000000000 \<Longrightarrow> tv_sec t = ns_of t div 1000000000 \<and> tv_nsec t = ns_of t mod 1000000000"
  by (simp add: ns_of_def div_add1_eq)

lemma add_ns_exact:
  assumes "ts_ok t" "\<bar>delta\<bar> < 2 ^ 63"
  shows "\<exists>r. time_timespec_add_ns (Some t) delta True = Inr r \<and> ns_of r = ns_of t + delta \<and>
    0 \<le> tv_nsec r \<and> tv_nsec r < 1000000000"
proof -
  define s where "s = delta sdiv 1000000000"
  define n where "n = delta smod 1000000000"
  have sn: "s * 1000000000 + n = delta" "\<bar>n\<bar> < 1000000000" "\<bar>s\<bar> \<le> \<bar>delta\<bar> div 1000000000"
    using trunc_split [of 1000000000 delta] by (simp_all add: s_def n_def)
  have "\<bar>delta\<bar> div 1000000000 \<le> (2 ^ 63) div 1000000000" using assms(2) by (intro zdiv_mono1) simp_all
  then have s: "\<bar>s\<bar> \<le> 9223372036" using sn(3) by simp
  have v: "ns_of t + delta = (tv_sec t + s) * 1000000000 + (tv_nsec t + n)"
    unfolding ns_of_def sn(1) [symmetric] by (simp add: algebra_simps)
  have ok: "s64 (tv_sec t + s) = Inr (tv_sec t + s)" "s64 (tv_nsec t + n) = Inr (tv_nsec t + n)"
    "s64 (tv_sec t + s + 1) = Inr (tv_sec t + s + 1)" "s64 (tv_sec t + s - 1) = Inr (tv_sec t + s - 1)"
    using assms(1) s sn(2) by (auto simp: ts_ok_def s64_def)
  have run: "time_timespec_add_ns (Some t) delta True =
      (if tv_nsec t + n \<ge> 1000000000 then Inr \<lparr>tv_sec = tv_sec t + s + 1, tv_nsec = tv_nsec t + n - 1000000000\<rparr>
       else if tv_nsec t + n < 0 then Inr \<lparr>tv_sec = tv_sec t + s - 1, tv_nsec = tv_nsec t + n + 1000000000\<rparr>
       else Inr \<lparr>tv_sec = tv_sec t + s, tv_nsec = tv_nsec t + n\<rparr>)"
    unfolding time_timespec_add_ns_def Let_def s_def [symmetric] n_def [symmetric] by (simp add: ok)
  consider "tv_nsec t + n \<ge> 1000000000" | "tv_nsec t + n < 0" | "0 \<le> tv_nsec t + n" "tv_nsec t + n < 1000000000" by linarith
  then show ?thesis
  proof cases
    case 1
    then show ?thesis using sn(2) assms(1) by (simp add: run v) (simp add: ns_of_def ts_ok_def)
  next
    case 2
    then show ?thesis using sn(2) assms(1) by (simp add: run v) (simp add: ns_of_def ts_ok_def)
  next
    case 3
    then show ?thesis by (simp add: run v) (simp add: ns_of_def)
  qed
qed

lemma add_ns_undo:
  assumes "ts_ok t" "\<bar>delta\<bar> < 2 ^ 63" "time_timespec_add_ns (Some t) delta True = Inr r" "ts_ok r"
  shows "time_timespec_add_ns (Some r) (- delta) True = Inr t"
proof -
  have r: "ns_of r = ns_of t + delta" using add_ns_exact [OF assms(1,2)] assms(3) by auto
  obtain q where q: "time_timespec_add_ns (Some r) (- delta) True = Inr q" "ns_of q = ns_of r - delta"
    "0 \<le> tv_nsec q" "tv_nsec q < 1000000000"
    using add_ns_exact [OF assms(4), of "- delta"] assms(2) by auto
  have "ns_of q = ns_of t" using r q(2) by simp
  then have "q = t" using ns_of_split [OF q(3,4)] ns_of_split [of t] assms(1) by (intro timespec.equality) (simp_all add: ts_ok_def)
  then show ?thesis using q(1) by simp
qed

subsection \<open>Conversions\<close>

lemma to_s64_div:
  assumes "2 \<le> uint c"
  shows "to_s64 (v div c) = uint v div uint c"
proof -
  have "uint v < 2 ^ 64" using uint_bounded [of v] by simp
  then have "uint v div uint c \<le> uint v div 2" using assms by (intro zdiv_mono2) simp_all
  also have "\<dots> < 2 ^ 63" using \<open>uint v < 2 ^ 64\<close> by simp
  finally show ?thesis using to_s64_uint [of "v div c"] by (simp add: uint_div)
qed

lemma to_s64_mod_mult:
  assumes "0 < uint c" "uint c * uint k \<le> 1000000000"
  shows "to_s64 (v mod c * k) = uint v mod uint c * uint k"
proof -
  have m: "0 \<le> uint v mod uint c" "uint v mod uint c < uint c" using assms(1) by simp_all
  then have "uint v mod uint c * uint k \<le> uint c * uint k" by (intro mult_right_mono) simp_all
  then have b: "uint v mod uint c * uint k \<le> 1000000000" using assms(2) by simp
  then have "uint (v mod c * k) = uint v mod uint c * uint k"
    using m by (simp add: uint_mult_lem [THEN iffD1] uint_mod)
  then show ?thesis using to_s64_uint [of "v mod c * k"] b by simp
qed

lemma ns_to_timespec_eq: "time_ns_to_timespec (Some v) True =
    Inr \<lparr>tv_sec = uint v div 1000000000, tv_nsec = uint v mod 1000000000\<rparr>"
  using to_s64_div [of 1000000000 v] to_s64_mod_mult [of 1000000000 1 v] by (simp add: time_ns_to_timespec_def)

lemma us_to_timespec_eq: "time_us_to_timespec (Some v) True =
    Inr \<lparr>tv_sec = uint v div 1000000, tv_nsec = uint v mod 1000000 * 1000\<rparr>"
  using to_s64_div [of 1000000 v] to_s64_mod_mult [of 1000000 1000 v] by (simp add: time_us_to_timespec_def)

lemma ms_to_timespec_eq: "time_ms_to_timespec (Some v) True =
    Inr \<lparr>tv_sec = uint v div 1000, tv_nsec = uint v mod 1000 * 1000000\<rparr>"
  using to_s64_div [of 1000 v] to_s64_mod_mult [of 1000 1000000 v] by (simp add: time_ms_to_timespec_def)

lemma to_u64_div: "0 \<le> a \<Longrightarrow> a < 2 ^ 63 \<Longrightarrow> to_u64 a div c = to_u64 (a div uint c)"
proof -
  assume "0 \<le> a" "a < 2 ^ 63"
  then have "uint (to_u64 a div c) = a div uint c" by (simp add: uint_div uint_to_u64)
  then have "to_u64 (uint (to_u64 a div c)) = to_u64 (a div uint c)" by (rule arg_cong)
  then show ?thesis by (simp add: to_u64_def)
qed

lemma to_ms_eq:
  assumes "0 \<le> tv_nsec d" "tv_nsec d < 2 ^ 63"
  shows "time_timespec_to_ms (Some d) True = Inr (to_u64 (ns_of d div 1000000))"
proof -
  have "ns_of d = tv_nsec d + (tv_sec d * 1000) * 1000000" by (simp add: ns_of_def)
  then have "ns_of d div 1000000 = tv_sec d * 1000 + tv_nsec d div 1000000" by (metis div_mult_self1 zero_neq_numeral)
  then show ?thesis using to_u64_div [OF assms, of 1000000] by (simp add: time_timespec_to_ms_def to_u64_def)
qed

lemma to_ns_eq: "time_timespec_to_ns (Some d) True = Inr (to_u64 (ns_of d))"
  by (simp add: time_timespec_to_ns_def to_u64_def ns_of_def)

text \<open>Each unit comes back unchanged, for all 64-bit values.\<close>

lemma unit_roundtrips:
  "bindR (time_ns_to_timespec (Some v) True) (\<lambda>t. time_timespec_to_ns (Some t) True) = Inr v"
  "bindR (time_us_to_timespec (Some v) True) (\<lambda>t. time_timespec_to_us (Some t) True) = Inr v"
  "bindR (time_ms_to_timespec (Some v) True) (\<lambda>t. time_timespec_to_ms (Some t) True) = Inr v"
proof -
  have u: "to_u64 (uint v) = v" by (simp add: to_u64_def)
  have gen: "a * 1000000000 + b * 1000 = (a * 1000000 + b) * 1000" "a * 1000000000 + b * 1000000 = (a * 1000 + b) * 1000000"
    for a b :: int by simp_all
  have d: "uint v div c * c + uint v mod c = uint v" for c by simp
  have "ns_of \<lparr>tv_sec = uint v div 1000000, tv_nsec = uint v mod 1000000 * 1000\<rparr> = (uint v div 1000000 * 1000000 + uint v mod 1000000) * 1000"
    by (simp only: ns_of_def timespec.select_convs gen)
  then have us: "ns_of \<lparr>tv_sec = uint v div 1000000, tv_nsec = uint v mod 1000000 * 1000\<rparr> div 1000 = uint v" unfolding d by simp
  have "ns_of \<lparr>tv_sec = uint v div 1000, tv_nsec = uint v mod 1000 * 1000000\<rparr> = (uint v div 1000 * 1000 + uint v mod 1000) * 1000000"
    by (simp only: ns_of_def timespec.select_convs gen)
  then have ms: "ns_of \<lparr>tv_sec = uint v div 1000, tv_nsec = uint v mod 1000 * 1000000\<rparr> div 1000000 = uint v" unfolding d by simp
  have b: "uint v mod 1000000 * 1000 < 2 ^ 63" "uint v mod 1000 * 1000000 < 2 ^ 63"
  proof -
    have "uint v mod 1000000 < 1000000" "uint v mod 1000 < 1000" "(2 :: int) ^ 63 = 9223372036854775808" by simp_all
    then show "uint v mod 1000000 * 1000 < 2 ^ 63" "uint v mod 1000 * 1000000 < 2 ^ 63" by linarith+
  qed
  show "bindR (time_ns_to_timespec (Some v) True) (\<lambda>t. time_timespec_to_ns (Some t) True) = Inr v"
    by (simp add: ns_to_timespec_eq to_ns_eq ns_of_def u)
  show "bindR (time_us_to_timespec (Some v) True) (\<lambda>t. time_timespec_to_us (Some t) True) = Inr v"
    using b(1) us by (simp add: us_to_timespec_eq to_us_eq u)
  show "bindR (time_ms_to_timespec (Some v) True) (\<lambda>t. time_timespec_to_ms (Some t) True) = Inr v"
    using b(2) ms by (simp add: ms_to_timespec_eq to_ms_eq u)
qed


subsection \<open>The realtime stamp of a monotonic stamp\<close>

lemma monotonic_to_realtime_exact:
  assumes "mono_at k (calls k) = Inr m1" "real_at k (calls k + 1) = Inr r" "mono_at k (calls k + 2) = Inr m2"
    and "ts_ok m1" "ts_ok r" "ts_ok m2"
    and "0 \<le> tv_sec m1" "0 \<le> tv_sec r" "0 \<le> tv_sec m2" "tv_sec m1 < 2 ^ 42" "tv_sec m2 < 2 ^ 42"
  shows "time_monotonic_to_realtime_us None mt True k =
    (Inr (mt + to_u64 (ns_of r div 1000 - (ns_of m1 div 1000 + ns_of m2 div 1000 + 1) div 2)), k\<lparr>calls := calls k + 3\<rparr>)"
proof -
  let ?a = "ns_of m1 div 1000" and ?b = "ns_of m2 div 1000"
  have ok: "0 \<le> tv_nsec t \<and> tv_nsec t < 2 ^ 63" if "ts_ok t" for t using that by (simp add: ts_ok_def)
  have us: "time_timespec_to_us (Some t) True = Inr (to_u64 (ns_of t div 1000))" if "ts_ok t" for t
    using to_us_eq ok [OF that] by blast
  have bd: "0 \<le> ns_of t div 1000 \<and> ns_of t div 1000 < 2 ^ 62" if "ts_ok t" "0 \<le> tv_sec t" "tv_sec t < 2 ^ 42" for t
  proof -
    have "0 \<le> ns_of t" "ns_of t < 2 ^ 62 * 1000" using that by (auto simp: ns_of_def ts_ok_def)
    then show ?thesis by (simp add: pos_imp_zdiv_nonneg_iff)
  qed
  have ab: "0 \<le> ?a" "?a < 2 ^ 62" "0 \<le> ?b" "?b < 2 ^ 62" using bd assms by blast+
  have "(to_u64 ?a + to_u64 ?b + 1) div 2 = to_u64 (?a + ?b + 1) div 2" by (simp add: to_u64_def)
  also have "\<dots> = to_u64 ((?a + ?b + 1) div 2)" using to_u64_div [of "?a + ?b + 1" 2] ab by simp
  finally have avg: "(to_u64 ?a + to_u64 ?b + 1) div 2 = to_u64 ((?a + ?b + 1) div 2)" .
  show ?thesis
    unfolding time_monotonic_to_realtime_us_def time_monotonic_to_realtime_us_1_def time_get_monotonic_def time_get_realtime_def Let_def
    using assms(1-6) us avg by (simp add: to_u64_def algebra_simps)
qed

subsection \<open>Properties\<close>

text \<open>
  Property C29.  On normalised stamps \<open>time_timespec_cmp\<close> is the sign of the difference of the
  nanoseconds.  \<open>time_timespec_diff\<close> fails exactly when the end is before the start and is exact
  otherwise, but it is not normalised when both stamps have the same nanoseconds: it then borrows a
  second and reports 1000000000 ns, so that the difference of equal stamps has -1 seconds.
\<close>

theorem timespec_diff_correct:
  assumes "ts_ok s" "ts_ok e"
  shows "time_timespec_cmp (Some s) (Some e) = sgn (ns_of s - ns_of e) \<and>
    (s < e \<longleftrightarrow> ns_of s < ns_of e) \<and>
    (ns_of e < ns_of s \<longrightarrow> time_timespec_diff (Some s) (Some e) True = Inl EINVAL) \<and>
    (ns_of s \<le> ns_of e \<longrightarrow> (\<exists>d. time_timespec_diff (Some s) (Some e) True = Inr d \<and> ns_of d = ns_of e - ns_of s \<and>
      0 \<le> tv_nsec d \<and> tv_nsec d \<le> 1000000000 \<and> (tv_nsec d = 1000000000 \<longleftrightarrow> tv_nsec s = tv_nsec e))) \<and>
    time_timespec_diff (Some s) (Some s) True = Inr \<lparr>tv_sec = -1, tv_nsec = 1000000000\<rparr>"
  using cmp_sgn [OF assms] ns_of_less_iff [OF assms] diff_exact [OF assms] diff_eq [OF assms] diff_eq [OF assms(1,1)]
  by simp

lemma timespec_diff_correct_witness:
  "time_timespec_diff (Some \<lparr>tv_sec = 3, tv_nsec = 5\<rparr>) (Some \<lparr>tv_sec = 3, tv_nsec = 5\<rparr>) True =
    Inr \<lparr>tv_sec = -1, tv_nsec = 1000000000\<rparr>"
  by (rule timespec_diff_correct [of _ "\<lparr>tv_sec = 3, tv_nsec = 5\<rparr>", THEN conjunct2, THEN conjunct2, THEN conjunct2, THEN conjunct2])
    (simp_all add: ts_ok_def)

text \<open>
  \<open>time_timespec_diff_us\<close> stores the distance of two normalised stamps in whole
  microseconds and 1 when the first is later, -1 when it is not.  \<open>time_timespec_diff_in_range\<close>
  accepts equal stamps, whatever the range, and otherwise exactly the distances below the range.
  The missing normalisation of the difference does not show in either.
\<close>

theorem timespec_distance_correct:
  assumes "ts_ok s" "ts_ok t" "\<bar>ns_of s - ns_of t\<bar> < 2 ^ 64 * 1000"
  shows "time_timespec_diff_us (Some s) (Some t) True True =
      (Inr (), Some (to_u64 (\<bar>ns_of s - ns_of t\<bar> div 1000)), Some (if ns_of t < ns_of s then 1 else -1)) \<and>
    uint (to_u64 (\<bar>ns_of s - ns_of t\<bar> div 1000)) = \<bar>ns_of s - ns_of t\<bar> div 1000 \<and>
    time_timespec_diff_in_range (Some s) (Some t) range_us True =
      (if s = t then Inr (True, None)
       else Inr (\<bar>ns_of s - ns_of t\<bar> div 1000 < uint range_us, Some (to_u64 (\<bar>ns_of s - ns_of t\<bar> div 1000))))"
proof -
  let ?d = "\<bar>ns_of s - ns_of t\<bar> div 1000"
  have u: "uint (to_u64 ?d) = ?d" using assms(3) by (intro uint_to_u64) (simp_all add: pos_imp_zdiv_nonneg_iff)
  note cmp = cmp_sgn [OF assms(1,2)] and inj = ns_of_inject [OF assms(1,2)]
  show ?thesis
  proof (cases "ns_of t < ns_of s")
    case True
    then obtain d where d: "time_timespec_diff (Some t) (Some s) True = Inr d" using diff_exact [OF assms(2,1)] by auto
    have "time_timespec_to_us (Some d) True = Inr (to_u64 ?d)"
      using diff_to_us [OF assms(2,1) _ d] True by simp
    then show ?thesis using True d u cmp inj
      by (simp add: time_timespec_diff_us_def time_timespec_diff_in_range_def Let_def sgn_if word_less_def)
  next
    case False
    then obtain d where d: "time_timespec_diff (Some s) (Some t) True = Inr d" using diff_exact [OF assms(1,2)] by auto
    have "time_timespec_to_us (Some d) True = Inr (to_u64 ?d)"
      using diff_to_us [OF assms(1,2) _ d] False by (simp add: abs_if)
    then show ?thesis using False d u cmp inj
      by (cases "s = t") (simp_all add: time_timespec_diff_us_def time_timespec_diff_in_range_def Let_def sgn_if word_less_def)
  qed
qed

lemma timespec_distance_correct_witness:
  "time_timespec_diff_us (Some \<lparr>tv_sec = 5, tv_nsec = 0\<rparr>) (Some \<lparr>tv_sec = 3, tv_nsec = 999999000\<rparr>) True True =
    (Inr (), Some 1000001, Some 1)"
proof -
  have "time_timespec_diff_us (Some \<lparr>tv_sec = 5, tv_nsec = 0\<rparr>) (Some \<lparr>tv_sec = 3, tv_nsec = 999999000\<rparr>) True True =
      (Inr (), Some (to_u64 (\<bar>ns_of \<lparr>tv_sec = 5, tv_nsec = 0\<rparr> - ns_of \<lparr>tv_sec = 3, tv_nsec = 999999000\<rparr>\<bar> div 1000)),
       Some (if ns_of \<lparr>tv_sec = 3, tv_nsec = 999999000\<rparr> < ns_of \<lparr>tv_sec = 5, tv_nsec = 0\<rparr> then 1 else -1))"
    by (rule timespec_distance_correct [THEN conjunct1]) (simp_all add: ts_ok_def ns_of_def)
  then show ?thesis by (simp add: ns_of_def to_u64_def)
qed

text \<open>
  Property C9.  Adding a signed delta is exact and the result is normalised, also across second
  boundaries in both directions; subtracting the delta again gives the first stamp back.  No signed
  operation overflows.  \<open>time_timespec_add_us\<close> adds the thousandfold.
\<close>

theorem timespec_add_correct:
  assumes "ts_ok t" "\<bar>delta\<bar> < 2 ^ 63"
  shows "(\<exists>r. time_timespec_add_ns (Some t) delta True = Inr r \<and> ns_of r = ns_of t + delta \<and>
      0 \<le> tv_nsec r \<and> tv_nsec r < 1000000000 \<and>
      (ts_ok r \<longrightarrow> time_timespec_add_ns (Some r) (- delta) True = Inr t)) \<and>
    (\<bar>us\<bar> \<le> 9223372036854775 \<longrightarrow> time_timespec_add_us (Some t) us True = time_timespec_add_ns (Some t) (us * 1000) True)"
proof
  obtain r where r: "time_timespec_add_ns (Some t) delta True = Inr r" "ns_of r = ns_of t + delta"
    "0 \<le> tv_nsec r" "tv_nsec r < 1000000000"
    using add_ns_exact [OF assms] by blast
  then show "\<exists>r. time_timespec_add_ns (Some t) delta True = Inr r \<and> ns_of r = ns_of t + delta \<and>
      0 \<le> tv_nsec r \<and> tv_nsec r < 1000000000 \<and>
      (ts_ok r \<longrightarrow> time_timespec_add_ns (Some r) (- delta) True = Inr t)"
    using add_ns_undo [OF assms] by blast
  show "\<bar>us\<bar> \<le> 9223372036854775 \<longrightarrow> time_timespec_add_us (Some t) us True = time_timespec_add_ns (Some t) (us * 1000) True"
  proof
    assume "\<bar>us\<bar> \<le> 9223372036854775"
    then have "- 9223372036854775000 \<le> us * 1000" "us * 1000 \<le> 9223372036854775000" "(2 :: int) ^ 63 = 9223372036854775808"
      by (linarith, linarith, simp)
    then have "s64 (us * 1000) = Inr (us * 1000)" by (intro s64_ok) linarith+
    then show "time_timespec_add_us (Some t) us True = time_timespec_add_ns (Some t) (us * 1000) True"
      by (simp add: time_timespec_add_us_def)
  qed
qed

lemma timespec_add_correct_witness:
  "time_timespec_add_us (Some \<lparr>tv_sec = 1, tv_nsec = 0\<rparr>) (-1) True =
     time_timespec_add_ns (Some \<lparr>tv_sec = 1, tv_nsec = 0\<rparr>) (-1000) True"
  using timespec_add_correct [of "\<lparr>tv_sec = 1, tv_nsec = 0\<rparr>" 0 "-1"] by (simp add: ts_ok_def)

text \<open>
  Round trips: every 64-bit number of nanoseconds, microseconds or milliseconds
  comes back unchanged from its \<open>timespec\<close>, and a stamp converts to the whole units it contains.
\<close>

theorem timespec_unit_roundtrips:
  "bindR (time_ns_to_timespec (Some v) True) (\<lambda>t. time_timespec_to_ns (Some t) True) = Inr v \<and>
   bindR (time_us_to_timespec (Some v) True) (\<lambda>t. time_timespec_to_us (Some t) True) = Inr v \<and>
   bindR (time_ms_to_timespec (Some v) True) (\<lambda>t. time_timespec_to_ms (Some t) True) = Inr v \<and>
   (ts_ok d \<longrightarrow> time_timespec_to_ns (Some d) True = Inr (to_u64 (ns_of d)) \<and>
     time_timespec_to_us (Some d) True = Inr (to_u64 (ns_of d div 1000)) \<and>
     time_timespec_to_ms (Some d) True = Inr (to_u64 (ns_of d div 1000000)))"
  using unit_roundtrips [of v] to_ns_eq [of d] to_us_eq [of d] to_ms_eq [of d] by (simp add: ts_ok_def)

lemma timespec_unit_roundtrips_witness:
  "time_timespec_to_ms (Some \<lparr>tv_sec = 2, tv_nsec = 3999999\<rparr>) True = Inr 2003"
proof -
  have "ts_ok \<lparr>tv_sec = 2, tv_nsec = 3999999\<rparr>" by (simp add: ts_ok_def)
  then have "time_timespec_to_ms (Some \<lparr>tv_sec = 2, tv_nsec = 3999999\<rparr>) True =
      Inr (to_u64 (ns_of \<lparr>tv_sec = 2, tv_nsec = 3999999\<rparr> div 1000000))"
    using timespec_unit_roundtrips by blast
  then show ?thesis by (simp add: ns_of_def to_u64_def)
qed

subsection \<open>The type of stamps\<close>

text \<open>\<open>ts_typed\<close>: the values a \<open>struct timespec\<close> is meant to have; \<open>typed_res\<close>: an error or such a value.\<close>

definition ts_typed :: "timespec \<Rightarrow> bool" where
  "ts_typed t \<longleftrightarrow> 0 \<le> tv_nsec t \<and> tv_nsec t < 1000000000 \<and> - (2 ^ 63) \<le> tv_sec t \<and> tv_sec t < 2 ^ 63"

definition typed_res :: "timespec res \<Rightarrow> bool" where
  "typed_res r = (case r of Inl _ \<Rightarrow> True | Inr t \<Rightarrow> ts_typed t)"

lemma typed_res_simps [simp]: "typed_res (Inl e)" "typed_res (Inr t) = ts_typed t"
  by (simp_all add: typed_res_def)

lemma typed_bind_s64:
  "(\<And>x. x = y \<Longrightarrow> - (2 ^ 63) \<le> x \<Longrightarrow> x < 2 ^ 63 \<Longrightarrow> typed_res (f x)) \<Longrightarrow> typed_res (bindR (s64 y) f)"
  by (simp add: s64_def bindR_def)

lemma split_typed:
  assumes "2 \<le> uint c" "uint c * uint k \<le> 1000000000" "0 < uint k"
  shows "ts_typed \<lparr>tv_sec = to_s64 (v div c), tv_nsec = to_s64 (v mod c * k)\<rparr>"
proof -
  have m: "0 \<le> uint v mod uint c" "uint v mod uint c < uint c" using assms(1) by simp_all
  then have "uint v mod uint c * uint k < uint c * uint k" using assms(3) by simp
  then have "uint v mod uint c * uint k < 1000000000" using assms(2) by linarith
  moreover have "- (2 ^ 63) \<le> to_s64 w \<and> to_s64 w < 2 ^ 63" for w
    using sint_range_size [of w] by (simp add: to_s64_def word_size)
  ultimately show ?thesis
    using m assms by (simp add: ts_typed_def to_s64_mod_mult)
qed

lemma units_typed:
  "typed_res (time_ns_to_timespec v out)" "typed_res (time_us_to_timespec v out)" "typed_res (time_ms_to_timespec v out)"
  using split_typed [of 1000000000 1] split_typed [of 1000000 1000] split_typed [of 1000 1000000]
  by (simp_all add: time_ns_to_timespec_def time_us_to_timespec_def time_ms_to_timespec_def split: option.split)

lemma clocks_typed:
  "ts_typed (time_get_realtime_win high low)" "typed_res (time_get_monotonic_threadx out ts)"
  "typed_res (fst (time_get_monotonic_internal_mach info scale ts nsratio))"
proof -
  have s: "sec_as_100ns = 10000000" by (simp add: sec_as_100ns_def)
  show "ts_typed (time_get_realtime_win high low)"
    unfolding time_get_realtime_win_def Let_def s by (intro split_typed) simp_all
  show "typed_res (time_get_monotonic_threadx out ts)"
    using split_typed [of 1000000 1000] by (simp add: time_get_monotonic_threadx_def)
  show "typed_res (fst (time_get_monotonic_internal_mach info scale ts nsratio))"
    using split_typed [of 1000000000 1] by (simp add: time_get_monotonic_internal_mach_def Let_def)
qed

lemma quot_below: "0 < q \<Longrightarrow> p < c * q \<Longrightarrow> p div q < c" for p q c :: int
proof (rule ccontr)
  assume "0 < q" "p < c * q" "\<not> p div q < c"
  then have "c * q \<le> p div q * q" "p div q * q \<le> p" by (simp, simp add: minus_mod_eq_div_mult [symmetric])
  then show False using \<open>p < c * q\<close> by simp
qed

lemma monotonic_win_typed:
  assumes "0 < freq" "0 \<le> cnt" "cnt < 2 ^ 63"
  shows "typed_res (time_get_monotonic_win freq cnt)"
  unfolding time_get_monotonic_win_def
proof (simp add: assms(1) less_imp_neq [symmetric], rule typed_bind_s64)
  fix n :: int assume n: "n = 1000000000 * (cnt smod freq)"
  have m: "cnt smod freq = cnt mod freq" "cnt sdiv freq = cnt div freq" using assms
    by (simp_all add: signed_modulo_int_def signed_divide_int_def sgn_if)
  have r: "0 \<le> cnt mod freq" "cnt mod freq < freq" using assms(1) by simp_all
  then have "0 \<le> n" "n < 1000000000 * freq" by (simp_all add: n m)
  then have "0 \<le> n div freq" "n div freq < 1000000000" "n sdiv freq = n div freq"
    using assms(1) pos_imp_zdiv_nonneg_iff [of freq n] quot_below [of freq n 1000000000]
    by (simp_all add: signed_divide_int_def sgn_if)
  moreover have "0 \<le> cnt div freq" "cnt div freq \<le> cnt"
    using assms by (simp_all add: pos_imp_zdiv_nonneg_iff zdiv_mono2 [of cnt 1 freq, simplified])
  ultimately show "typed_res (Inr \<lparr>tv_sec = cnt sdiv freq, tv_nsec = n sdiv freq\<rparr>)"
    using assms(3) by (simp add: ts_typed_def m)
qed

lemma add_typed:
  assumes "ts_typed t"
  shows "typed_res (time_timespec_add_ns (Some t) delta out)" "typed_res (time_timespec_add_us (Some t) delta out)"
proof -
  have *: "typed_res (time_timespec_add_ns (Some t) delta out)" for delta
  proof -
    define n where "n = delta smod 1000000000"
    have "\<bar>n\<bar> < 1000000000" using trunc_split(2) [of 1000000000 delta] by (simp add: n_def)
    then show ?thesis
      using assms unfolding time_timespec_add_ns_def n_def [symmetric]
      by (auto simp: Let_def ts_typed_def intro!: typed_bind_s64)
  qed
  show "typed_res (time_timespec_add_ns (Some t) delta out)" by (rule *)
  show "typed_res (time_timespec_add_us (Some t) delta out)"
    unfolding time_timespec_add_us_def by (rule typed_bind_s64) (rule *)
qed

lemma timeval_typed:
  assumes "0 \<le> tvl_usec tv" "tvl_usec tv < 1000000" "- (2 ^ 63) \<le> tvl_sec tv" "tvl_sec tv < 2 ^ 63"
  shows "typed_res (time_timeval_to_timespec (Some tv) out)" "typed_res (time_get_realtime_mach (Inr tv))"
  using assms
  by (auto simp: time_timeval_to_timespec_def time_get_realtime_mach_def bindR_def [of "Inr tv"] ts_typed_def intro!: typed_bind_s64)

lemma timeval_typed_iff:
  assumes "- (2 ^ 63) \<le> tvl_sec tv" "tvl_sec tv < 2 ^ 63" "time_timeval_to_timespec (Some tv) True = Inr r"
  shows "ts_typed r \<longleftrightarrow> 0 \<le> tvl_usec tv \<and> tvl_usec tv < 1000000"
proof -
  have "r = \<lparr>tv_sec = tvl_sec tv, tv_nsec = tvl_usec tv * 1000\<rparr>"
    using assms(3) by (auto simp: time_timeval_to_timespec_def bindR_Inr_iff s64_def split: if_splits)
  then show ?thesis using assms(1,2) by (auto simp: ts_typed_def)
qed

lemma msleep_typed:
  "time_msleep ms (\<lambda>t. if ts_typed t then nanosleep t else Inl EINVAL) = time_msleep ms nanosleep"
proof -
  have "uint (ms div 1000) < 2 ^ 32" "0 \<le> uint (ms div 1000)" using uint_bounded [of "ms div 1000"] by simp_all
  moreover have "0 \<le> uint (ms mod 1000)" "uint (ms mod 1000) < 1000" by (simp_all add: uint_mod)
  ultimately have "ts_typed \<lparr>tv_sec = uint (ms div 1000), tv_nsec = uint (ms mod 1000) * 1000000\<rparr>"
    by (simp add: ts_typed_def) (rule order_trans [of _ 0], simp_all)
  then show ?thesis by (simp add: time_msleep_def)
qed

text \<open>
  Property C38.  The type of stamps, 0 to 999999999 nanoseconds and seconds of 64 bits.  The conversions
  from 64-bit numbers store only such stamps for every number; so do the clock variants (the one of Windows
  for a positive frequency and a counter that is not negative); so do the additions to a stamp of the type,
  for every delta.  The conversion of a time value stores one exactly when the value has 0 to 999999
  microseconds, which nothing checks.  \<open>time_msleep\<close> passes \<open>nanosleep\<close> only stamps of the type.
\<close>

theorem timespec_typed:
  "typed_res (time_ns_to_timespec v out) \<and> typed_res (time_us_to_timespec v out) \<and> typed_res (time_ms_to_timespec v out) \<and>
   ts_typed (time_get_realtime_win high low) \<and> typed_res (time_get_monotonic_threadx out ts) \<and>
   typed_res (fst (time_get_monotonic_internal_mach info scale ts nsratio)) \<and>
   (0 < freq \<and> 0 \<le> cnt \<and> cnt < 2 ^ 63 \<longrightarrow> typed_res (time_get_monotonic_win freq cnt)) \<and>
   (ts_typed t \<longrightarrow> typed_res (time_timespec_add_ns (Some t) delta out) \<and> typed_res (time_timespec_add_us (Some t) delta out)) \<and>
   (0 \<le> tvl_usec tv \<and> tvl_usec tv < 1000000 \<and> - (2 ^ 63) \<le> tvl_sec tv \<and> tvl_sec tv < 2 ^ 63 \<longrightarrow>
     typed_res (time_timeval_to_timespec (Some tv) out) \<and> typed_res (time_get_realtime_mach (Inr tv))) \<and>
   (- (2 ^ 63) \<le> tvl_sec tv \<and> tvl_sec tv < 2 ^ 63 \<and> time_timeval_to_timespec (Some tv) True = Inr r \<longrightarrow>
     (ts_typed r \<longleftrightarrow> 0 \<le> tvl_usec tv \<and> tvl_usec tv < 1000000)) \<and>
   time_msleep ms (\<lambda>t. if ts_typed t then nanosleep t else Inl EINVAL) = time_msleep ms nanosleep"
  by (intro conjI impI)
    (simp_all add: units_typed clocks_typed monotonic_win_typed add_typed timeval_typed timeval_typed_iff msleep_typed)

lemma timespec_typed_witness:
  "typed_res (time_timespec_add_ns (Some \<lparr>tv_sec = 1, tv_nsec = 999999999\<rparr>) 5000000000 True)"
proof -
  have "ts_typed \<lparr>tv_sec = 1, tv_nsec = 999999999\<rparr>" by (simp add: ts_typed_def)
  then show ?thesis using timespec_typed by blast
qed

end
