(* ===== verification/Systimetools.thy ===== *)
theory Systimetools
  imports Timetools
begin

text \<open>
  Component \<open>systimetools\<close> (src/src/systimetools.c): parsing and formatting of dates and times, the
  conversion of calendar dates to seconds since 1970, the context that collects date and hour from
  two messages, and the system time.

  A C string is the list of its characters before the NUL; \<open>char_at s i\<close> reads the NUL at its end, and
  reading behind it, or moving a pointer behind it, is \<open>Fault\<close>.  The conditions of the code are evaluated
  from left to right, so a guard on the length protects exactly the reads to its right.
  \<open>int\<close> variables are \<open>int\<close>s: the parsed numbers have at most four characters, so nothing
  computed from them overflows.  A read outside the month table and a signed overflow are \<open>Fault\<close>.
\<close>

definition char_at :: "string \<Rightarrow> nat \<Rightarrow> char res" where
  "char_at s i = (if i < length s then Inr (s ! i) else if i = length s then Inr (CHR 0x00) else Inl Fault)"

text \<open>Several characters in turn, as they are copied to a local array that gets a NUL.\<close>

fun chars_at :: "string \<Rightarrow> nat list \<Rightarrow> string res" where
  "chars_at s [] = Inr []"
| "chars_at s (i # is) = bindR (char_at s i) (\<lambda>c. bindR (chars_at s is) (\<lambda>cs. Inr (c # cs)))"

definition texts_at :: "string \<Rightarrow> nat list \<times> nat list \<times> nat list \<Rightarrow> (string \<times> string \<times> string) res" where
  "texts_at s = (\<lambda>(is, js, ks).
    bindR (chars_at s is) (\<lambda>a. bindR (chars_at s js) (\<lambda>b. bindR (chars_at s ks) (\<lambda>c. Inr (a, b, c)))))"

definition skip_chars :: "nat \<Rightarrow> string \<Rightarrow> string res" where
  "skip_chars k s = (if k \<le> length s then Inr (drop k s) else Inl Fault)"

text \<open>\<open>&&\<close>, \<open>||\<close> and the comparison of a character, with their evaluation order.\<close>

definition and_then :: "bool res \<Rightarrow> bool res \<Rightarrow> bool res" where
  "and_then a b = bindR a (\<lambda>x. if x then b else Inr False)"

definition or_else :: "bool res \<Rightarrow> bool res \<Rightarrow> bool res" where
  "or_else a b = bindR a (\<lambda>x. if x then Inr True else b)"

definition is_at :: "string \<Rightarrow> nat \<Rightarrow> char \<Rightarrow> bool res" where
  "is_at s i c = bindR (char_at s i) (\<lambda>d. Inr (d = c))"

text \<open>\<open>n == k && s[0] == .. && s[1] == ..\<close> for the \<open>k\<close> characters of a text.\<close>

fun chars_are :: "string \<Rightarrow> nat \<Rightarrow> string \<Rightarrow> bool res" where
  "chars_are s i [] = Inr True"
| "chars_are s i (c # cs) = and_then (is_at s i c) (chars_are s (i + 1) cs)"

definition text_is :: "string \<Rightarrow> string \<Rightarrow> bool res" where
  "text_is s t = and_then (Inr (length s = length t)) (chars_are s 0 t)"

text \<open>\<open>if (n > 0 && s[0] == c) { s++; n--; }\<close>\<close>

definition skip_one :: "char \<Rightarrow> string \<Rightarrow> string res" where
  "skip_one c s = bindR (and_then (Inr (length s > 0)) (is_at s 0 c)) (\<lambda>b. if b then skip_chars 1 s else Inr s)"

text \<open>A step that leaves the outputs alone when it fails.\<close>

definition with_out :: "'a res \<Rightarrow> ('a \<Rightarrow> 'o \<Rightarrow> 'b res \<times> 'o) \<Rightarrow> 'o \<Rightarrow> 'b res \<times> 'o" where
  "with_out r f out = (case r of Inl e \<Rightarrow> (Inl e, out) | Inr x \<Rightarrow> f x out)"

definition wday_str :: "string list" where
  "wday_str = [''Sun'', ''Mon'', ''Tue'', ''Wed'', ''Thu'', ''Fri'', ''Sat'']"

definition mon_str :: "string list" where
  "mon_str = [''Jan'', ''Feb'', ''Mar'', ''Apr'', ''May'', ''Jun'', ''Jul'', ''Aug'', ''Sep'', ''Oct'', ''Nov'', ''Dec'']"

subsection \<open>Numbers and names\<close>

text \<open>
  \<open>strtol (s, &end, 10)\<close>: the value, the text from \<open>end\<close> on, and whether the number is out of the
  range of \<open>long\<close>.  \<open>to_i32\<close> is the conversion to \<open>int\<close> or \<open>int32_t\<close>.
\<close>

definition strtol10 :: "string \<Rightarrow> int \<times> string \<times> bool" where
  "strtol10 s =
    (let t = dropWhile is_space s;
         u = (if t \<noteq> [] \<and> hd t \<in> {CHR ''-'', CHR ''+''} then tl t else t);
         ds = takeWhile is_digit u;
         n = (if t \<noteq> [] \<and> hd t = CHR ''-'' then - number_value ds else number_value ds)
     in if ds = [] then (0, s, False)
        else (max (- (2 ^ 63)) (min (2 ^ 63 - 1) n), dropWhile is_digit u, n < - (2 ^ 63) \<or> n \<ge> 2 ^ 63))"

definition to_i32 :: "int \<Rightarrow> int" where
  "to_i32 x = sint (of_int x :: u32)"

text \<open>
  The result and the number stored, which happens in any case.  The array ends at its first NUL.
\<close>

definition c_string :: "string \<Rightarrow> string" where
  "c_string s = takeWhile (\<lambda>c. c \<noteq> CHR 0x00) s"

definition parse_num :: "string \<Rightarrow> unit res \<times> int" where
  "parse_num s = (let (num, end, range) = strtol10 (c_string s) in
     (if end \<noteq> [] then Inl EINVAL else if range then Inl ERANGE else Inr (), to_i32 num))"

fun name_index :: "string list \<Rightarrow> string \<Rightarrow> nat \<Rightarrow> nat option" where
  "name_index [] s i = None"
| "name_index (n # ns) s i = (if take 3 s = n then Some i else name_index ns s (i + 1))"

definition parse_wday :: "string \<Rightarrow> int res" where
  "parse_wday s = (case name_index wday_str s 0 of None \<Rightarrow> Inl ENOENT | Some i \<Rightarrow> Inr (int i))"

definition parse_mon :: "string \<Rightarrow> int res" where
  "parse_mon s = (case name_index mon_str s 0 of None \<Rightarrow> Inl ENOENT | Some i \<Rightarrow> Inr (int i + 1))"

text \<open>Three numbers in turn, up to the first error.\<close>

definition parse_nums :: "string \<times> string \<times> string \<Rightarrow> int \<times> int \<times> int \<Rightarrow> unit res \<times> int \<times> int \<times> int" where
  "parse_nums = (\<lambda>(s1, s2, s3) (n1, n2, n3).
    (let (r, n1) = parse_num s1 in
     case r of Inl e \<Rightarrow> (Inl e, n1, n2, n3) | Inr _ \<Rightarrow>
    (let (r, n2) = parse_num s2 in
     case r of Inl e \<Rightarrow> (Inl e, n1, n2, n3) | Inr _ \<Rightarrow>
    (let (r, n3) = parse_num s3 in (r, n1, n2, n3)))))"

subsection \<open>Dates\<close>

text \<open>\<open>out\<close>: year, month and day before the call.\<close>

definition parse_date :: "string \<Rightarrow> nat \<Rightarrow> int \<times> int \<times> int \<Rightarrow> unit res \<times> int \<times> int \<times> int" where
  "parse_date s n = with_out
    (bindR (and_then (Inr (n = 10)) (and_then (is_at s 4 (CHR ''-'')) (is_at s 7 (CHR ''-'')))) (\<lambda>long.
      if long then texts_at s ([0, 1, 2, 3], [5, 6], [8, 9])
      else if n = 8 then texts_at s ([0, 1, 2, 3], [4, 5], [6, 7])
      else Inl EINVAL)) parse_nums"

text \<open>The day at \<open>offset\<close>, of one or two digits, and the offset behind it and its separator.\<close>

definition rfc_mday :: "string \<Rightarrow> nat \<Rightarrow> (string \<times> nat) res" where
  "rfc_mday s offset =
    bindR (char_at s offset) (\<lambda>c.
    bindR (is_at s (offset + 1) (CHR '' '')) (\<lambda>one.
      if one then Inr ([c], offset + 2)
      else bindR (char_at s (offset + 1)) (\<lambda>d. Inr ([c, d], offset + 3))))"

definition rfc_mon :: "string \<Rightarrow> nat \<Rightarrow> (string \<times> nat) res" where
  "rfc_mon s offset = bindR (chars_at s [offset, offset + 1, offset + 2]) (\<lambda>m. Inr (m, offset + 4))"

text \<open>Day, month and the offset of the year, in the order of the text.\<close>

definition rfc_parts :: "string \<Rightarrow> (string \<times> string \<times> nat) res" where
  "rfc_parts s =
    (let offset = 5 in
     bindR (char_at s offset) (\<lambda>c.
       if is_digit c
       then bindR (rfc_mday s offset) (\<lambda>(d, off). bindR (rfc_mon s off) (\<lambda>(m, off). Inr (d, m, off)))
       else bindR (rfc_mon s offset) (\<lambda>(m, off). bindR (rfc_mday s off) (\<lambda>(d, off). Inr (d, m, off)))))"

text \<open>Day, month and year, and the offset behind them; the name of the day is copied and not used.\<close>

definition rfc_texts :: "string \<Rightarrow> (string \<times> string \<times> string \<times> nat) res" where
  "rfc_texts s =
    bindR (is_at s 3 (CHR '','')) (\<lambda>comma.
      if \<not> comma then Inl EINVAL
      else bindR (chars_at s [0, 1, 2]) (\<lambda>_.
        bindR (rfc_parts s) (\<lambda>(mday_s, mon_s, offset).
        bindR (chars_at s [offset, offset + 1, offset + 2, offset + 3]) (\<lambda>year_s.
          Inr (mday_s, mon_s, year_s, offset + 4)))))"

definition parse_date_rfc1123 :: "string \<Rightarrow> int \<times> int \<times> int \<Rightarrow> nat res \<times> int \<times> int \<times> int" where
  "parse_date_rfc1123 s = with_out (rfc_texts s) (\<lambda>(mday_s, mon_s, year_s, offset) (year, mon, mday).
     (let (r, year) = parse_num year_s
      in case r of Inl e \<Rightarrow> (Inl e, year, mon, mday) | Inr _ \<Rightarrow>
        (case parse_mon mon_s of Inl e \<Rightarrow> (Inl e, year, mon, mday) | Inr mon \<Rightarrow>
        (let (r, mday) = parse_num mday_s in
         case r of Inl e \<Rightarrow> (Inl e, year, mon, mday) | Inr _ \<Rightarrow> (Inr offset, year, mon, mday)))))"

subsection \<open>Times\<close>

text \<open>Sign, hours and minutes of the time zone in the rest of the text.\<close>

definition zone_sign :: "string \<Rightarrow> bool res" where
  "zone_sign s = or_else (is_at s 0 (CHR ''-'')) (is_at s 0 (CHR ''+''))"

definition zone_texts :: "string \<Rightarrow> nat list \<Rightarrow> nat list \<Rightarrow> (int \<times> string \<times> string) res" where
  "zone_texts s is js =
    bindR (is_at s 0 (CHR ''-'')) (\<lambda>neg.
    bindR (chars_at s is) (\<lambda>h. bindR (chars_at s js) (\<lambda>m. Inr (if neg then -1 else 1, h, m))))"

definition parse_zone :: "string \<Rightarrow> (int \<times> string \<times> string) res" where
  "parse_zone s =
    (let n = length s in
     bindR (and_then (Inr (n = 6)) (and_then (zone_sign s) (is_at s 3 (CHR '':'')))) (\<lambda>long.
     if long then zone_texts s [1, 2] [4, 5] else
     bindR (and_then (Inr (n = 5)) (zone_sign s)) (\<lambda>short.
     if short then zone_texts s [1, 2] [3, 4] else
     bindR (or_else (text_is s ''Z'') (or_else (text_is s ''GMT'') (or_else (text_is s ''UT'') (text_is s ''UTC'')))) (\<lambda>utc.
     if utc then Inr (1, ''00'', ''00'') else Inl EINVAL))))"

definition parse_offset :: "string \<Rightarrow> int res" where
  "parse_offset s =
    bindR (skip_one (CHR '' '') s) (\<lambda>s.
     bindR (parse_zone s) (\<lambda>(sign, hour_s, min_s).
       let (r, hour) = parse_num hour_s in
       bindR r (\<lambda>_. let (r, minutes) = parse_num min_s in
       bindR r (\<lambda>_. Inr ((hour * 60 + minutes) * 60 * sign)))))"

text \<open>The texts of hour, minute and second, and the text behind them.\<close>

definition time_parts :: "string \<Rightarrow> ((string \<times> string \<times> string) \<times> string) res" where
  "time_parts s =
    bindR (skip_one (CHR ''T'') s) (\<lambda>s.
     bindR (and_then (Inr (length s \<ge> 8)) (and_then (is_at s 2 (CHR '':'')) (is_at s 5 (CHR '':'')))) (\<lambda>long.
     if long
     then bindR (texts_at s ([0, 1], [3, 4], [6, 7])) (\<lambda>t. bindR (skip_chars 8 s) (\<lambda>s. Inr (t, s)))
     else if length s \<ge> 6
     then bindR (texts_at s ([0, 1], [2, 3], [4, 5])) (\<lambda>t. bindR (skip_chars 6 s) (\<lambda>s. Inr (t, s)))
     else Inl EINVAL))"

text \<open>\<open>out\<close> and \<open>gmtoff\<close>: hour, minute and second, and the offset, before the call.\<close>

definition parse_time :: "string \<Rightarrow> int \<times> int \<times> int \<Rightarrow> int \<Rightarrow> unit res \<times> (int \<times> int \<times> int) \<times> int" where
  "parse_time s out gmtoff =
    (case time_parts s of Inl e \<Rightarrow> (Inl e, out, gmtoff) | Inr (hms, s) \<Rightarrow>
      (let (r, out) = parse_nums hms out in
       case r of Inl e \<Rightarrow> (Inl e, out, gmtoff) | Inr _ \<Rightarrow>
         (case parse_offset s of Inl e \<Rightarrow> (Inl e, out, gmtoff) | Inr off \<Rightarrow> (Inr (), out, off))))"

text \<open>The date at the beginning of the text and its number of characters.\<close>

definition date_end :: "string \<Rightarrow> nat \<Rightarrow> bool res" where
  "date_end s k = or_else (is_at s k (CHR ''T'')) (or_else (is_at s k (CHR '' '')) (is_at s k (CHR 0x00)))"

definition parse_leading_date :: "string \<Rightarrow> int \<times> int \<times> int \<Rightarrow> nat res \<times> int \<times> int \<times> int" where
  "parse_leading_date s =
    (let n = length s in
     if n \<ge> 16 \<and> parse_wday s \<noteq> Inl ENOENT then parse_date_rfc1123 s
     else with_out (and_then (Inr (n \<ge> 10)) (date_end s 10)) (\<lambda>long date.
       if long then (case parse_date s 10 date of (r, date) \<Rightarrow> (bindR r (\<lambda>_. Inr 10), date))
       else with_out (and_then (Inr (n \<ge> 8)) (date_end s 8)) (\<lambda>short date.
         if short then (case parse_date s 8 date of (r, date) \<Rightarrow> (bindR r (\<lambda>_. Inr 8), date))
         else (Inl EINVAL, date)) date))"

definition parse_date_time ::
  "string \<Rightarrow> int \<times> int \<times> int \<Rightarrow> int \<times> int \<times> int \<Rightarrow> int \<Rightarrow> unit res \<times> (int \<times> int \<times> int) \<times> (int \<times> int \<times> int) \<times> int" where
  "parse_date_time s date hms gmtoff =
    (let (r, date) = parse_leading_date s date
     in case r of Inl e \<Rightarrow> (Inl e, date, hms, gmtoff) | Inr k \<Rightarrow>
       (case bindR (skip_chars k s) (skip_one (CHR '' '')) of Inl e \<Rightarrow> (Inl e, date, hms, gmtoff) | Inr s \<Rightarrow>
         (let (r, hms, gmtoff) = parse_time s hms gmtoff in (r, date, hms, gmtoff))))"

subsection \<open>Seconds since 1970\<close>

record tm =
  tm_year :: int
  tm_mon :: int
  tm_mday :: int
  tm_hour :: int
  tm_min :: int
  tm_sec :: int
  tm_wday :: int
  tm_gmtoff :: int

definition cumulative_nb_day_per_month :: "u64 list" where
  "cumulative_nb_day_per_month = [0, 30, 61, 91, 122, 152, 183, 214, 244, 275, 305, 336, 367]"

definition tm_mkepoch_local :: "tm option \<Rightarrow> int \<Rightarrow> u64 res" where
  "tm_mkepoch_local tm gmtoff = (case tm of None \<Rightarrow> Inr 0 | Some tm \<Rightarrow>
    if tm_year tm + 1900 \<ge> 2 ^ 31 \<or> tm_mon tm + 1 \<ge> 2 ^ 31 then Inl Fault
    else
    (let year = (of_int (tm_year tm + 1900) :: u32);
         month = (of_int (tm_mon tm + 1) :: u32);
         day = (of_int (tm_mday tm) :: u32);
         hour = (of_int (tm_hour tm) :: u32);
         minute = (of_int (tm_min tm) :: u32);
         sec = (of_int (tm_sec tm) :: u32);
         month = month - 2;
         (month, year) = (if sint month \<le> 0 then (month + 12, year - 1) else (month, year));
         time = (ucast (year div 4 - year div 100 + year div 400) :: u64);
         time = time + ucast (year * 365)
     in if unat month \<ge> length cumulative_nb_day_per_month then Inl Fault
        else let time = time + cumulative_nb_day_per_month ! unat month;
                 time = time + ucast day;
                 time = time - 719499;
                 time = time * 24 + ucast hour;
                 time = time * 60 + ucast minute;
                 time = time * 60 + ucast sec
          in Inr (time - of_int gmtoff)))"

subsection \<open>The context\<close>

definition TIME_FIELD_DATE :: int where "TIME_FIELD_DATE = 1"
definition TIME_FIELD_HOUR :: int where "TIME_FIELD_HOUR = 2"
definition TIME_FIELD_ALL :: int where "TIME_FIELD_ALL = 3"

record time_ctx =
  tfields :: int
  ctx_tm :: tm
  gmtoff :: int

definition tm_zero :: tm where
  "tm_zero = \<lparr>tm_year = 0, tm_mon = 0, tm_mday = 0, tm_hour = 0, tm_min = 0, tm_sec = 0, tm_wday = 0, tm_gmtoff = 0\<rparr>"

definition get_date :: "tm \<Rightarrow> int \<times> int \<times> int" where
  "get_date tm = (tm_year tm, tm_mon tm, tm_mday tm)"

definition put_date :: "int \<times> int \<times> int \<Rightarrow> tm \<Rightarrow> tm" where
  "put_date = (\<lambda>(y, m, d) tm. tm\<lparr>tm_year := y, tm_mon := m, tm_mday := d\<rparr>)"

definition get_hms :: "tm \<Rightarrow> int \<times> int \<times> int" where
  "get_hms tm = (tm_hour tm, tm_min tm, tm_sec tm)"

definition put_hms :: "int \<times> int \<times> int \<Rightarrow> tm \<Rightarrow> tm" where
  "put_hms = (\<lambda>(h, m, s) tm. tm\<lparr>tm_hour := h, tm_min := m, tm_sec := s\<rparr>)"

definition rebase :: "tm \<Rightarrow> tm" where
  "rebase tm = tm\<lparr>tm_year := tm_year tm - 1900, tm_mon := tm_mon tm - 1\<rparr>"

definition time_ctx_init :: "time_ctx option \<Rightarrow> unit res \<times> time_ctx option" where
  "time_ctx_init ctx = (case ctx of None \<Rightarrow> (Inl EINVAL, None)
   | Some _ \<Rightarrow> (Inr (), Some \<lparr>tfields = 0, ctx_tm = tm_zero, gmtoff = 0\<rparr>))"

definition time_ctx_set_date :: "time_ctx option \<Rightarrow> string option \<Rightarrow> unit res \<times> time_ctx option" where
  "time_ctx_set_date ctx str_date = (case (ctx, str_date) of
     (Some c, Some s) \<Rightarrow>
       if tfields c AND TIME_FIELD_DATE \<noteq> 0 then (Inl EEXIST, ctx)
       else (let (r, date) = parse_date s (length s) (get_date (ctx_tm c));
                 c = c\<lparr>ctx_tm := put_date date (ctx_tm c)\<rparr>
         in case r of Inl e \<Rightarrow> (Inl e, Some c) | Inr _ \<Rightarrow>
           (let c = c\<lparr>ctx_tm := rebase (ctx_tm c), tfields := tfields c OR TIME_FIELD_DATE\<rparr>
            in (if tfields c = TIME_FIELD_ALL then Inr () else Inl EINPROGRESS, Some c)))
   | _ \<Rightarrow> (Inl EINVAL, ctx))"

definition time_ctx_set_hour :: "time_ctx option \<Rightarrow> string option \<Rightarrow> unit res \<times> time_ctx option" where
  "time_ctx_set_hour ctx str_hour = (case (ctx, str_hour) of
     (Some c, Some s) \<Rightarrow>
       if tfields c AND TIME_FIELD_HOUR \<noteq> 0 then (Inl EEXIST, ctx)
       else (let (r, hms, off) = parse_time s (get_hms (ctx_tm c)) (gmtoff c);
                 c = c\<lparr>ctx_tm := put_hms hms (ctx_tm c), gmtoff := off\<rparr>
         in case r of Inl e \<Rightarrow> (Inl e, Some c) | Inr _ \<Rightarrow>
           (let c = c\<lparr>tfields := tfields c OR TIME_FIELD_HOUR\<rparr>
            in (if tfields c = TIME_FIELD_ALL then Inr () else Inl EINPROGRESS, Some c)))
   | _ \<Rightarrow> (Inl EINVAL, ctx))"

definition time_ctx_set_time :: "time_ctx option \<Rightarrow> string option \<Rightarrow> unit res \<times> time_ctx option" where
  "time_ctx_set_time ctx str_time = (case (ctx, str_time) of
     (Some c, Some s) \<Rightarrow>
       if tfields c AND TIME_FIELD_ALL \<noteq> 0 then (Inl EEXIST, ctx)
       else (let (r, date, hms, off) = parse_date_time s (get_date (ctx_tm c)) (get_hms (ctx_tm c)) (gmtoff c);
                 c = c\<lparr>ctx_tm := put_hms hms (put_date date (ctx_tm c)), gmtoff := off\<rparr>
         in case r of Inl e \<Rightarrow> (Inl e, Some c)
            | Inr _ \<Rightarrow> (Inr (), Some (c\<lparr>ctx_tm := rebase (ctx_tm c), tfields := TIME_FIELD_ALL\<rparr>)))
   | _ \<Rightarrow> (Inl EINVAL, ctx))"

definition time_ctx_mkepoch_local :: "time_ctx option \<Rightarrow> u64 res" where
  "time_ctx_mkepoch_local ctx = (case ctx of None \<Rightarrow> Inr 0 | Some c \<Rightarrow> tm_mkepoch_local (Some (ctx_tm c)) (gmtoff c))"

definition time_ctx_get_local :: "time_ctx option \<Rightarrow> bool \<Rightarrow> bool \<Rightarrow> (u64 \<times> int) res" where
  "time_ctx_get_local ctx epoch_out offset_out = (case ctx of
     None \<Rightarrow> Inl EINVAL
   | Some c \<Rightarrow>
      if \<not> epoch_out \<or> \<not> offset_out then Inl EINVAL
      else if tfields c \<noteq> TIME_FIELD_ALL then Inl EINPROGRESS
      else bindR (time_ctx_mkepoch_local ctx) (\<lambda>epoch. Inr (epoch, gmtoff c)))"

subsection \<open>The system time\<close>

text \<open>
  The calls made to set the time, each answered by the system, and where the zone is read: in a
  property (a build with libputils), on Windows, or from \<open>localtime_r\<close>.
\<close>

datatype time_call = Settimeofday timeval | Sys_prop_set string

fun dec :: "nat \<Rightarrow> string" where
  "dec n = (if n < 10 then [char_of (48 + n)] else dec (n div 10) @ [char_of (48 + n mod 10)])"

definition time_local_set :: "unit res \<Rightarrow> u64 \<Rightarrow> int \<Rightarrow> unit res \<times> time_call list" where
  "time_local_set set_answer epoch_sec utc_offset_sec =
    (set_answer, [Settimeofday \<lparr>tvl_sec = to_s64 epoch_sec, tvl_usec = 0\<rparr>])"

definition time_local_set_putils :: "unit res \<Rightarrow> unit res \<Rightarrow> nat \<Rightarrow> u64 \<Rightarrow> int \<Rightarrow> unit res \<times> time_call list" where
  "time_local_set_putils set_answer prop_answer value_max epoch_sec utc_offset_sec =
    (let value = take (value_max - 1) ((if utc_offset_sec < 0 then ''-'' else []) @ dec (nat \<bar>utc_offset_sec\<bar>))
     in (bindR set_answer (\<lambda>_. prop_answer),
         [Settimeofday \<lparr>tvl_sec = to_s64 epoch_sec, tvl_usec = 0\<rparr>, Sys_prop_set value]))"

definition time_local_set_win :: "u64 \<Rightarrow> int \<Rightarrow> unit res \<times> time_call list" where
  "time_local_set_win epoch_sec utc_offset_sec = (Inl ENOSYS, [])"

datatype zone_source = Zone_prop string | Zone_windows int | Zone_localtime tm

definition zone_offset :: "zone_source \<Rightarrow> int" where
  "zone_offset z = (case z of
     Zone_prop p \<Rightarrow> to_i32 (fst (strtol10 p))
   | Zone_windows bias \<Rightarrow> to_i32 (bias * 60)
   | Zone_localtime tm \<Rightarrow> to_i32 (tm_gmtoff tm))"

definition time_local_ms_get ::
  "timeval res \<Rightarrow> zone_source \<Rightarrow> bool \<Rightarrow> bool \<Rightarrow> bool \<Rightarrow> (u64 option \<times> u16 option \<times> int option) res" where
  "time_local_ms_get now zone epoch_out ms_out offset_out =
    (if \<not> epoch_out \<and> \<not> offset_out then Inl EINVAL
     else bindR now (\<lambda>tv.
       Inr (if epoch_out then Some (to_u64 (tvl_sec tv)) else None,
            if ms_out then Some (of_int (tvl_usec tv sdiv 1000)) else None,
            if offset_out then Some (zone_offset zone) else None)))"

definition time_local_get :: "timeval res \<Rightarrow> zone_source \<Rightarrow> bool \<Rightarrow> bool \<Rightarrow> (u64 option \<times> u16 option \<times> int option) res" where
  "time_local_get now zone epoch_out offset_out = time_local_ms_get now zone epoch_out False offset_out"

subsection \<open>The calendar of the C library\<close>

text \<open>
  \<open>gmtime_r\<close>: the date of a number of seconds since 1970, in the proleptic Gregorian calendar.
  719162 days lie between 0001-01-01 and 1970-01-01, and 146097 days are 400 years.
\<close>

definition leap_year :: "int \<Rightarrow> bool" where
  "leap_year y \<longleftrightarrow> y mod 4 = 0 \<and> y mod 100 \<noteq> 0 \<or> y mod 400 = 0"

definition year_days :: "int \<Rightarrow> int" where
  "year_days y = (if leap_year y then 366 else 365)"

definition month_days :: "int \<Rightarrow> int list" where
  "month_days y = [31, if leap_year y then 29 else 28, 31, 30, 31, 30, 31, 31, 30, 31, 30, 31]"

function find_year :: "int \<Rightarrow> int \<Rightarrow> int \<times> int" where
  "find_year r y = (if r < year_days y then (r, y) else find_year (r - year_days y) (y + 1))"
  by auto
termination by (relation "measure (\<lambda>(r, y). nat r)") (auto simp: year_days_def split: if_splits)

declare find_year.simps [simp del]

fun find_month :: "int list \<Rightarrow> int \<Rightarrow> int \<Rightarrow> int \<times> int" where
  "find_month [] r m = (m, r)"
| "find_month (d # ds) r m = (if r < d then (m, r) else find_month ds (r - d) (m + 1))"

definition gmtime :: "int \<Rightarrow> tm res" where
  "gmtime t =
    (let n = t div 86400 + 719162;
         (r, y) = find_year (n mod 146097) (400 * (n div 146097) + 1);
         (m, d) = find_month (month_days y) r 0;
         s = t mod 86400
     in if y - 1900 < - (2 ^ 31) \<or> y - 1900 \<ge> 2 ^ 31 then Inl (Errno 75)
        else Inr \<lparr>tm_year = y - 1900, tm_mon = m, tm_mday = d + 1,
                  tm_hour = s div 3600, tm_min = s div 60 mod 60, tm_sec = s mod 60,
                  tm_wday = (t div 86400 + 4) mod 7, tm_gmtoff = 0\<rparr>)"

definition time_local_to_tm :: "u64 \<Rightarrow> int \<Rightarrow> bool \<Rightarrow> tm res" where
  "time_local_to_tm epoch_sec utc_offset_sec out =
    (if \<not> out then Inl EINVAL
     else let t = to_s64 (epoch_sec + to_u64 utc_offset_sec)
          in bindR (gmtime t) (\<lambda>tm. Inr (tm\<lparr>tm_gmtoff := utc_offset_sec\<rparr>)))"

definition time_local_from_tm :: "tm option \<Rightarrow> bool \<Rightarrow> bool \<Rightarrow> (u64 option \<times> int option) res" where
  "time_local_from_tm tm epoch_out offset_out = (case tm of None \<Rightarrow> Inl EINVAL | Some t \<Rightarrow>
     if \<not> epoch_out \<and> \<not> offset_out then Inl EINVAL
     else bindR (if epoch_out then bindR (tm_mkepoch_local tm (to_i32 (tm_gmtoff t))) (\<lambda>e. Inr (Some e)) else Inr None)
       (\<lambda>e. Inr (e, if offset_out then Some (to_i32 (tm_gmtoff t)) else None)))"

text \<open>The Windows build, where \<open>struct tm\<close> has no offset field.\<close>

definition time_local_to_tm_win :: "u64 \<Rightarrow> int \<Rightarrow> bool \<Rightarrow> tm res" where
  "time_local_to_tm_win epoch_sec utc_offset_sec out =
    (if \<not> out then Inl EINVAL else gmtime (to_s64 (epoch_sec + to_u64 utc_offset_sec)))"

definition time_local_from_tm_win :: "tm option \<Rightarrow> bool \<Rightarrow> bool \<Rightarrow> (u64 option \<times> int option) res" where
  "time_local_from_tm_win tm epoch_out offset_out =
    (if tm = None \<or> \<not> epoch_out \<and> \<not> offset_out then Inl EINVAL
     else bindR (if epoch_out then bindR (tm_mkepoch_local tm 0) (\<lambda>e. Inr (Some e)) else Inr None)
       (\<lambda>e. Inr (e, if offset_out then Some 0 else None)))"

subsection \<open>Text\<close>

definition TIME_FMT_ISO8601_SHORT :: int where "TIME_FMT_ISO8601_SHORT = 0"
definition TIME_FMT_ISO8601_LONG :: int where "TIME_FMT_ISO8601_LONG = 1"
definition TIME_FMT_RFC1123 :: int where "TIME_FMT_RFC1123 = 2"

text \<open>\<open>%0<w>u\<close> of an \<open>int\<close>, and \<open>%u\<close> for \<open>w = 1\<close>.\<close>

definition fmt_u :: "nat \<Rightarrow> int \<Rightarrow> string" where
  "fmt_u w x = (let s = dec (unat (of_int x :: u32)) in replicate (w - length s) (CHR ''0'') @ s)"

definition time_local_format :: "u64 \<Rightarrow> int \<Rightarrow> int \<Rightarrow> bool \<Rightarrow> nat \<Rightarrow> string res" where
  "time_local_format epoch_sec utc_offset_sec fmt out n =
    (if \<not> out \<or> n = 0 then Inl EINVAL
     else bindR (gmtime (to_s64 (epoch_sec + to_u64 utc_offset_sec))) (\<lambda>tm.
       let sgn = (if utc_offset_sec < 0 then -1 else 1);
           sgn_s = (if sgn < 0 then ''-'' else ''+'');
           hour = (sgn * utc_offset_sec) sdiv (60 * 60);
           minute = ((sgn * utc_offset_sec) sdiv 60) smod 60;
           year = fmt_u 4 (tm_year tm + 1900)
       in if sgn * utc_offset_sec \<ge> 2 ^ 31 then Inl Fault
          else if fmt \<notin> {TIME_FMT_ISO8601_SHORT, TIME_FMT_ISO8601_LONG, TIME_FMT_RFC1123} then Inl EINVAL
          else if tm_year tm + 1900 \<ge> 2 ^ 31 then Inl Fault
          else Inr (take (n - 1)
            (if fmt = TIME_FMT_ISO8601_SHORT
             then year @ fmt_u 2 (tm_mon tm + 1) @ fmt_u 2 (tm_mday tm) @ ''T'' @
               fmt_u 2 (tm_hour tm) @ fmt_u 2 (tm_min tm) @ fmt_u 2 (tm_sec tm) @ sgn_s @ fmt_u 2 hour @ fmt_u 2 minute
             else if fmt = TIME_FMT_ISO8601_LONG
             then year @ ''-'' @ fmt_u 2 (tm_mon tm + 1) @ ''-'' @ fmt_u 2 (tm_mday tm) @ ''T'' @
               fmt_u 2 (tm_hour tm) @ '':'' @ fmt_u 2 (tm_min tm) @ '':'' @ fmt_u 2 (tm_sec tm) @ sgn_s @ fmt_u 2 hour @ '':'' @ fmt_u 2 minute
             else wday_str ! nat (tm_wday tm) @ '', '' @ fmt_u 1 (tm_mday tm) @ '' '' @ mon_str ! nat (tm_mon tm) @ '' '' @
               fmt_u 1 (tm_year tm + 1900) @ '' '' @
               fmt_u 2 (tm_hour tm) @ '':'' @ fmt_u 2 (tm_min tm) @ '':'' @ fmt_u 2 (tm_sec tm) @
               (if utc_offset_sec = 0 then '' GMT'' else '' '' @ sgn_s @ fmt_u 2 hour @ fmt_u 2 minute)))))"

text \<open>\<open>tm\<close> and \<open>gmtoff\<close>: the contents of the two local variables before they are written.\<close>

definition time_local_parse :: "tm \<Rightarrow> int \<Rightarrow> string option \<Rightarrow> bool \<Rightarrow> bool \<Rightarrow> (u64 \<times> int) res" where
  "time_local_parse tm off str epoch_out offset_out = (case str of
     None \<Rightarrow> Inl EINVAL
   | Some s \<Rightarrow>
      if \<not> epoch_out \<or> \<not> offset_out then Inl EINVAL
      else let (r, date, hms, off) = parse_date_time s (get_date tm) (get_hms tm) off;
               tm = rebase (put_hms hms (put_date date tm))
           in bindR r (\<lambda>_. bindR (tm_mkepoch_local (Some tm) off) (\<lambda>epoch. Inr (epoch, off))))"

declare dec.simps [simp del]

end
