(* ===== verification/SystimeCalendar.thy ===== *)
theory SystimeCalendar
  imports Systimetools
begin

text \<open>
  The calendar of \<open>systimetools\<close>: \<open>gmtime\<close> and \<open>tm_mkepoch_local\<close> (src/src/systimetools.c) against a day
  count by leap years and lengths of months, and that they are inverse to each other.
\<close>

section \<open>Calendar\<close>

text \<open>Days before the first of January of a year, from 0001-01-01 on, and before a month.\<close>

definition days_before_year :: "int \<Rightarrow> int" where
  "days_before_year y = (let k = y - 1 in 365 * k + k div 4 - k div 100 + k div 400)"

definition days_before_month :: "int \<Rightarrow> int \<Rightarrow> int" where
  "days_before_month y m = sum_list (take (nat m) (month_days y))"

text \<open>A date of the calendar (months from 0), and its number of days since 1970-01-01.\<close>

definition valid_date :: "int \<Rightarrow> int \<Rightarrow> int \<Rightarrow> bool" where
  "valid_date y m d \<longleftrightarrow> 0 \<le> m \<and> m < 12 \<and> 1 \<le> d \<and> d \<le> month_days y ! nat m"

definition day_number :: "int \<Rightarrow> int \<Rightarrow> int \<Rightarrow> int" where
  "day_number y m d = days_before_year y + days_before_month y m + d - 1 - 719162"

lemma leap_step: "y div k - (y - 1) div k = (if y mod k = 0 then 1 else 0)" if "k > 1" for y k :: int
proof -
  define q r where "q = y div k" and "r = y mod k"
  have y: "y = k * q + r" "0 \<le> r" "r < k" using that by (simp_all add: q_def r_def)
  have "(y - 1) div k = (if r = 0 then q - 1 else q)"
    by (rule int_div_pos_eq [where r = "if r = 0 then k - 1 else r - 1"]) (use y that in \<open>auto simp: algebra_simps\<close>)
  then show ?thesis by (simp add: q_def r_def)
qed

lemma leap_count:
  "A - A' = (if a then 1 else 0) \<Longrightarrow> B - B' = (if b then 1 else 0) \<Longrightarrow> C - C' = (if c then 1 else 0) \<Longrightarrow>
   (b \<longrightarrow> a) \<Longrightarrow> (c \<longrightarrow> b) \<Longrightarrow>
   365 * y + A - B + C = 365 * (y - 1) + A' - B' + C' + (if a \<and> \<not> b \<or> c then 366 else 365)"
  for A A' B B' C C' y :: int
  by (cases a; cases b; cases c; simp)

lemma days_before_year_Suc: "days_before_year (y + 1) = days_before_year y + year_days y"
proof -
  have m: "y mod 100 = 0 \<longrightarrow> y mod 4 = 0" "y mod 400 = 0 \<longrightarrow> y mod 100 = 0"
    using dvd_trans [of 4 100 y] dvd_trans [of 100 400 y] by (simp_all flip: dvd_eq_mod_eq_0)
  have l: "y div 4 - (y - 1) div 4 = (if y mod 4 = 0 then 1 else 0)"
    "y div 100 - (y - 1) div 100 = (if y mod 100 = 0 then 1 else 0)"
    "y div 400 - (y - 1) div 400 = (if y mod 400 = 0 then 1 else 0)"
    by (rule leap_step, simp)+
  show ?thesis
    unfolding days_before_year_def year_days_def leap_year_def Let_def add_diff_cancel_right'
    by (rule leap_count [OF l m])
qed

lemma find_year_correct:
  "0 \<le> r \<Longrightarrow> find_year r y = (r', y') \<Longrightarrow>
   days_before_year y' + r' = days_before_year y + r \<and> 0 \<le> r' \<and> r' < year_days y'"
proof (induction r y rule: find_year.induct)
  case (1 r y)
  show ?case
  proof (cases "r < year_days y")
    case True
    with 1 show ?thesis by (simp add: find_year.simps [of r y])
  next
    case False
    then have "find_year (r - year_days y) (y + 1) = (r', y')" using 1(3) by (subst (asm) find_year.simps) simp
    with 1(1) False show ?thesis by (simp add: days_before_year_Suc)
  qed
qed

lemma find_month_correct:
  "0 \<le> r \<Longrightarrow> r < sum_list ds \<Longrightarrow> find_month ds r m = (m', r') \<Longrightarrow>
   m \<le> m' \<and> nat (m' - m) < length ds \<and> sum_list (take (nat (m' - m)) ds) + r' = r \<and> 0 \<le> r' \<and> r' < ds ! nat (m' - m)"
proof (induction ds r m rule: find_month.induct)
  case (2 d ds r m)
  show ?case
  proof (cases "r < d")
    case False
    with 2 have "m + 1 \<le> m' \<and> nat (m' - (m + 1)) < length ds \<and> sum_list (take (nat (m' - (m + 1))) ds) + r' = r - d \<and> 0 \<le> r' \<and> r' < ds ! nat (m' - (m + 1))"
      by simp
    moreover then have "nat (m' - m) = Suc (nat (m' - (m + 1)))" by linarith
    ultimately show ?thesis by simp
  qed (use 2 in auto)
qed simp

lemma sum_month_days: "sum_list (month_days y) = year_days y"
  by (simp add: month_days_def year_days_def)

lemma leap_year_400: "leap_year (400 * q + y) = leap_year y"
proof -
  have "400 * q + y = y + 4 * (100 * q)" "400 * q + y = y + 100 * (4 * q)" "400 * q + y = y + 400 * q" by simp_all
  then show ?thesis unfolding leap_year_def by (metis mod_mult_self2)
qed

lemma div_eq_int_mult: "a = b * c \<Longrightarrow> c > 0 \<Longrightarrow> a div c = b" for a b c :: int
  by simp

lemma days_before_400: "days_before_year (400 * q + 1) = 146097 * q"
proof -
  have "(400 * q) div 4 = 100 * q" by (rule div_eq_int_mult) simp_all
  moreover have "(400 * q) div 100 = 4 * q" by (rule div_eq_int_mult) simp_all
  ultimately show ?thesis by (simp add: days_before_year_def)
qed

text \<open>What \<open>gmtime\<close> returns is the date and time of day of its argument.\<close>

definition valid_tm :: "tm \<Rightarrow> bool" where
  "valid_tm tm \<longleftrightarrow> valid_date (tm_year tm + 1900) (tm_mon tm) (tm_mday tm) \<and> 0 \<le> tm_hour tm \<and> tm_hour tm < 24 \<and>
     0 \<le> tm_min tm \<and> tm_min tm < 60 \<and> 0 \<le> tm_sec tm \<and> tm_sec tm < 60"

definition tm_day :: "tm \<Rightarrow> int" where
  "tm_day tm = day_number (tm_year tm + 1900) (tm_mon tm) (tm_mday tm)"

definition tm_seconds :: "tm \<Rightarrow> int" where
  "tm_seconds tm = ((tm_day tm * 24 + tm_hour tm) * 60 + tm_min tm) * 60 + tm_sec tm"

lemma day_bounds: "365 * (y - 1) \<le> days_before_year y" "days_before_year y \<le> 366 * (y - 1)" if "y \<ge> 1"
proof -
  define k where "k = y - 1"
  have "k div 100 \<le> k div 4" "0 \<le> k div 400" "k div 4 - k div 100 + k div 400 \<le> k" using that unfolding k_def by linarith+
  then show "365 * (y - 1) \<le> days_before_year y" "days_before_year y \<le> 366 * (y - 1)"
    unfolding days_before_year_def Let_def k_def [symmetric] by linarith+
qed

lemma time_of_day:
  fixes s :: int
  assumes "0 \<le> s" "s < 86400"
  shows "0 \<le> s div 3600 \<and> s div 3600 < 24 \<and> 0 \<le> s div 60 mod 60 \<and> s div 60 mod 60 < 60 \<and> 0 \<le> s mod 60 \<and> s mod 60 < 60 \<and>
    (s div 3600 * 60 + s div 60 mod 60) * 60 + s mod 60 = s"
proof -
  define q where "q = s div 60"
  have q: "s = q * 60 + s mod 60" "0 \<le> q" "q < 1440" using assms by (simp_all add: q_def)
  have d: "s div 3600 = q div 60" unfolding q_def using zdiv_zmult2_eq [of 60 s 60] by simp
  have "q = q div 60 * 60 + q mod 60" by simp
  then have "(q div 60 * 60 + q mod 60) * 60 + s mod 60 = s" using q(1) by simp
  then show ?thesis unfolding d q_def [symmetric] using q(2,3) by (intro conjI) (simp_all, linarith?)
qed

lemma gmtime_correct:
  assumes "gmtime t = Inr tm"
  shows "valid_tm tm" "tm_seconds tm = t" "tm_wday tm = (t div 86400 + 4) mod 7" "tm_gmtoff tm = 0"
    "- (2 ^ 31) \<le> tm_year tm" "tm_year tm < 2 ^ 31"
proof -
  define dd where "dd = t div 86400"
  define s where "s = t mod 86400"
  define n where "n = dd + 719162"
  obtain r y where fy: "find_year (n mod 146097) (400 * (n div 146097) + 1) = (r, y)" by (rule prod.exhaust)
  obtain m d where fm: "find_month (month_days y) r 0 = (m, d)" by (rule prod.exhaust)
  have tm: "tm = \<lparr>tm_year = y - 1900, tm_mon = m, tm_mday = d + 1, tm_hour = s div 3600, tm_min = s div 60 mod 60,
      tm_sec = s mod 60, tm_wday = (dd + 4) mod 7, tm_gmtoff = 0\<rparr>" "- (2 ^ 31) \<le> y - 1900" "y - 1900 < 2 ^ 31"
    using assms
    unfolding gmtime_def dd_def [symmetric] n_def [symmetric] Let_def fy fm s_def [symmetric] prod.case
    by (simp_all split: if_splits)
  have y: "days_before_year y + r = n" "0 \<le> r" "r < year_days y"
    using find_year_correct [OF pos_mod_sign fy] by (simp_all add: days_before_400)
  have m: "0 \<le> m" "nat m < length (month_days y)" "sum_list (take (nat m) (month_days y)) + d = r" "0 \<le> d" "d < month_days y ! nat m"
    using find_month_correct [OF y(2) _ fm] y(3) by (simp_all add: sum_month_days)
  have s: "0 \<le> s" "s < 86400" "dd * 86400 + s = t" by (simp_all add: s_def dd_def)
  have hms: "0 \<le> s div 3600" "s div 3600 < 24" "0 \<le> s div 60 mod 60" "s div 60 mod 60 < 60" "0 \<le> s mod 60" "s mod 60 < 60"
    "(s div 3600 * 60 + s div 60 mod 60) * 60 + s mod 60 = s"
    using time_of_day [OF s(1,2)] by blast+
  define hh mm ss where "hh = s div 3600" and "mm = s div 60 mod 60" and "ss = s mod 60"
  note hms' = hms [folded hh_def mm_def ss_def]
  note tm' = tm(1) [folded hh_def mm_def ss_def]
  show "valid_tm tm" using m hms'(1-6) by (simp add: valid_tm_def valid_date_def tm' month_days_def)
  have "tm_day tm = dd"
    using y(1) m(3) by (simp add: tm_day_def day_number_def tm' days_before_month_def n_def)
  then have "tm_seconds tm = dd * 86400 + ((hh * 60 + mm) * 60 + ss)"
    by (simp add: tm_seconds_def tm' algebra_simps)
  then show "tm_seconds tm = t" unfolding hms'(7) s(3) .
  show "tm_wday tm = (t div 86400 + 4) mod 7" "tm_gmtoff tm = 0" "- (2 ^ 31) \<le> tm_year tm" "tm_year tm < 2 ^ 31"
    using tm(2,3) by (simp_all only: tm' tm.simps dd_def)
qed

lemma days_before_month_bounds:
  assumes "0 \<le> m" "m < 12"
  shows "0 \<le> days_before_month y m" "days_before_month y m + month_days y ! nat m = days_before_month y (m + 1)"
    "days_before_month y (m + 1) \<le> year_days y"
proof -
  have "m \<in> {0, 1, 2, 3, 4, 5, 6, 7, 8, 9, 10, 11}" using assms by simp presburger
  then show "0 \<le> days_before_month y m" "days_before_month y m + month_days y ! nat m = days_before_month y (m + 1)"
    "days_before_month y (m + 1) \<le> year_days y"
    by (auto simp: days_before_month_def month_days_def year_days_def)
qed

section \<open>Seconds since 1970\<close>

lemma uint_of_int32: "0 \<le> x \<Longrightarrow> x < 2 ^ 32 \<Longrightarrow> uint (of_int x :: u32) = x"
  by (simp add: uint_word_of_int)

lemma ucast_of_int32: "0 \<le> x \<Longrightarrow> x < 2 ^ 32 \<Longrightarrow> (ucast (of_int x :: u32) :: u64) = of_int x"
  by (metis uint_of_int32 of_int_uint)

lemma div_of_int32:
  assumes "0 \<le> x" "x < 2 ^ 32" "0 \<le> k" "k < 2 ^ 32"
  shows "(of_int x :: u32) div of_int k = of_int (x div k)"
  using assms by (simp only: word_div_def uint_of_int32)

lemma leap_days_word:
  assumes "0 \<le> Y" "Y < 2 ^ 32"
  shows "(ucast (of_int Y div 4 - of_int Y div 100 + of_int Y div 400 :: u32) :: u64) = of_int (Y div 4 - Y div 100 + Y div 400)"
proof -
  have "0 \<le> Y div 4 - Y div 100 + Y div 400 \<and> Y div 4 - Y div 100 + Y div 400 < 2 ^ 32"
  proof -
    have "Y div 100 \<le> Y div 4" "0 \<le> Y div 400" "Y div 400 \<le> Y div 100" "Y div 4 \<le> Y" using assms(1) by linarith+
    then show ?thesis using assms by linarith
  qed
  moreover have "(of_int Y div 4 - of_int Y div 100 + of_int Y div 400 :: u32) = of_int (Y div 4 - Y div 100 + Y div 400)"
    using div_of_int32 [OF assms, of 4] div_of_int32 [OF assms, of 100] div_of_int32 [OF assms, of 400] by simp
  ultimately show ?thesis using ucast_of_int32 by metis
qed

text \<open>The shifted month and year, and the days before them.\<close>

lemma month_shift:
  assumes "0 \<le> m" "m < 12"
  defines "w \<equiv> (of_int (m + 1) - 2 :: u32)"
  defines "M \<equiv> (if m < 2 then m + 11 else m - 1)"
  shows "sint w \<le> 0 \<longleftrightarrow> m < 2" "(if m < 2 then w + 12 else w) = of_int M" "unat (of_int M :: u32) = nat M"
    "cumulative_nb_day_per_month ! nat M = of_int (days_before_month 1 m + 336 - (if m < 2 then 0 else 365))" "nat M < 13"
proof -
  have "m \<in> {0, 1, 2, 3, 4, 5, 6, 7, 8, 9, 10, 11}" using assms(1,2) by simp presburger
  then show "sint w \<le> 0 \<longleftrightarrow> m < 2" "(if m < 2 then w + 12 else w) = of_int M" "unat (of_int M :: u32) = nat M"
    "cumulative_nb_day_per_month ! nat M = of_int (days_before_month 1 m + 336 - (if m < 2 then 0 else 365))" "nat M < 13"
    unfolding w_def M_def
    by (auto simp: cumulative_nb_day_per_month_def days_before_month_def month_days_def leap_year_def)
qed

lemma days_before_month_leap:
  assumes "0 \<le> m" "m < 12"
  shows "days_before_month y m = days_before_month 1 m + (if m \<ge> 2 \<and> leap_year y then 1 else 0)"
proof -
  have "m \<in> {0, 1, 2, 3, 4, 5, 6, 7, 8, 9, 10, 11}" using assms by simp presburger
  moreover have "\<not> leap_year 1" by (simp add: leap_year_def)
  ultimately show ?thesis by (auto simp: days_before_month_def month_days_def)
qed

definition shifted_days :: "int \<Rightarrow> int" where
  "shifted_days Y = Y div 4 - Y div 100 + Y div 400 + Y * 365"

lemma shifted_days_before_year: "shifted_days (y - 1) = days_before_year y"
  by (simp add: shifted_days_def days_before_year_def Let_def algebra_simps)

lemma shifted_days_correct:
  assumes "0 \<le> m" "m < 12"
  shows "shifted_days (if m < 2 then y - 1 else y) + (days_before_month 1 m + 336 - (if m < 2 then 0 else 365)) + d - 719499 = day_number y m d"
proof (cases "m < 2")
  case True
  then show ?thesis
    using days_before_month_leap [OF assms, of y] by (simp add: day_number_def shifted_days_before_year)
next
  case False
  have "shifted_days y = days_before_year y + year_days y"
    using shifted_days_before_year [of "y + 1"] days_before_year_Suc [of y] by (simp only: add_diff_cancel_right')
  then show ?thesis
    using False days_before_month_leap [OF assms, of y] by (simp add: day_number_def year_days_def)
qed

lemma tm_mkepoch_valid:
  assumes v: "valid_tm tm" and y: "1 \<le> tm_year tm + 1900" "tm_year tm + 1900 \<le> 11767033"
  shows "tm_mkepoch_local (Some tm) off = Inr (of_int (tm_seconds tm - off))"
proof -
  define y m d where "y = tm_year tm + 1900" and "m = tm_mon tm" and "d = tm_mday tm"
  define Y where "Y = (if m < 2 then y - 1 else y)"
  define M where "M = (if m < 2 then m + 11 else m - 1)"
  have m: "0 \<le> m" "m < 12" and "1 \<le> d" "d \<le> month_days y ! nat m" using v by (simp_all add: valid_tm_def valid_date_def y_def m_def d_def)
  have "m \<in> {0, 1, 2, 3, 4, 5, 6, 7, 8, 9, 10, 11}" using m by simp presburger
  then have "month_days y ! nat m \<le> 31" by (auto simp: month_days_def)
  then have d: "0 \<le> d" "d < 2 ^ 32" using \<open>1 \<le> d\<close> \<open>d \<le> _\<close> by simp_all
  have Y: "0 \<le> Y" "Y < 2 ^ 32" "0 \<le> Y * 365" "Y * 365 < 2 ^ 32" using y by (simp_all add: Y_def y_def)
  have h: "0 \<le> tm_hour tm" "tm_hour tm < 2 ^ 32" "0 \<le> tm_min tm" "tm_min tm < 2 ^ 32" "0 \<le> tm_sec tm" "tm_sec tm < 2 ^ 32"
    using v by (simp_all add: valid_tm_def)
  note ms = month_shift [OF m, folded M_def]
  have guard: "\<not> (y \<ge> 2 ^ 31 \<or> m + 1 \<ge> 2 ^ 31)" using y m by (simp add: y_def)
  have my: "(if sint (of_int (m + 1) - 2 :: u32) \<le> 0 then ((of_int (m + 1) - 2 :: u32) + 12, of_int y - 1 :: u32) else (of_int (m + 1) - 2 :: u32, of_int y)) = (of_int M, of_int Y)"
    using ms(1,2) by (auto simp: Y_def)
  have "(of_int Y * 365 :: u32) = of_int (Y * 365)" by simp
  then have t: "(ucast (of_int Y div 4 - of_int Y div 100 + of_int Y div 400 :: u32) :: u64) + ucast (of_int Y * 365 :: u32) = of_int (shifted_days Y)"
    unfolding leap_days_word [OF Y(1,2)] using ucast_of_int32 [OF Y(3,4)] by (simp add: shifted_days_def)
  have "tm_mkepoch_local (Some tm) off = Inr
    ((((of_int (shifted_days Y) + of_int (days_before_month 1 m + 336 - (if m < 2 then 0 else 365)) + of_int d - 719499) * 24 + of_int (tm_hour tm)) * 60
      + of_int (tm_min tm)) * 60 + of_int (tm_sec tm) - of_int off)"
    unfolding tm_mkepoch_local_def option.case Let_def y_def [symmetric] m_def [symmetric] d_def [symmetric] if_not_P [OF guard] my prod.case t
      ms(3) ms(4) ucast_of_int32 [OF d] ucast_of_int32 [OF h(1,2)] ucast_of_int32 [OF h(3,4)] ucast_of_int32 [OF h(5,6)]
    using ms(5) by (simp add: cumulative_nb_day_per_month_def)
  also have "of_int (shifted_days Y) + of_int (days_before_month 1 m + 336 - (if m < 2 then 0 else 365)) + of_int d - 719499 = (of_int (day_number y m d) :: u64)"
    unfolding shifted_days_correct [OF m, of y d, folded Y_def, symmetric] by simp
  finally show ?thesis by (simp add: tm_seconds_def tm_day_def y_def m_def d_def)
qed

section \<open>Dates and seconds correspond\<close>

lemma year_days_pos: "0 < year_days y" by (simp add: year_days_def)

lemma days_before_year_mono: "y \<le> y' \<Longrightarrow> days_before_year y \<le> days_before_year y'"
proof (induction y' rule: int_ge_induct)
  case (step i)
  then show ?case using days_before_year_Suc [of i] year_days_pos [of i] by linarith
qed simp

lemma days_before_year_less: "y < y' \<Longrightarrow> days_before_year y + year_days y \<le> days_before_year y'"
  using days_before_year_mono [of "y + 1" y'] by (simp add: days_before_year_Suc)

lemma days_before_year_unique:
  assumes "days_before_year y + r = days_before_year y' + r'" "0 \<le> r" "r < year_days y" "0 \<le> r'" "r' < year_days y'"
  shows "y = y' \<and> r = r'"
  using assms days_before_year_less [of y y'] days_before_year_less [of y' y] by (cases y y' rule: linorder_cases) auto

lemma days_before_month_mono:
  assumes "0 \<le> m" "m < m'" "m' < 12"
  shows "days_before_month y m + month_days y ! nat m \<le> days_before_month y m'"
proof -
  define i j where "i = nat (m + 1)" and "j = nat m'"
  have "i \<le> j" using assms by (simp add: i_def j_def)
  then have "take j (month_days y) = take i (month_days y) @ take (j - i) (drop i (month_days y))"
    by (simp flip: take_add)
  moreover have "0 \<le> sum_list (take (j - i) (drop i (month_days y)))"
    by (rule sum_list_nonneg) (auto simp: month_days_def dest!: in_set_takeD in_set_dropD)
  ultimately have "days_before_month y (m + 1) \<le> days_before_month y m'"
    by (simp add: days_before_month_def i_def j_def)
  then show ?thesis using days_before_month_bounds(2) [of m y] assms by simp
qed

text \<open>The day within the year.\<close>

lemma valid_date_day_of_year:
  assumes "valid_date y m d"
  shows "0 \<le> days_before_month y m + d - 1" "days_before_month y m + d - 1 < year_days y"
  using assms days_before_month_bounds [of m y] by (simp_all add: valid_date_def)

lemma year_range:
  assumes "days_before_year y + r = n" "0 \<le> r" "r < year_days y" "0 \<le> n" "n \<le> 3473000000"
  shows "1 \<le> y" "y \<le> 11767033"
proof -
  show 1: "1 \<le> y"
  proof (rule ccontr)
    assume "\<not> 1 \<le> y"
    then show False using days_before_year_less [of y 1] assms by (simp add: days_before_year_def)
  qed
  have "365 * (y - 1) \<le> 3473000000" using day_bounds(1) [OF 1] assms(1,2,5) by linarith
  then show "y \<le> 11767033" by simp
qed

lemma date_unique:
  assumes "valid_date y m d" "valid_date y' m' d'" "day_number y m d = day_number y' m' d'"
  shows "y = y' \<and> m = m' \<and> d = d'"
proof -
  have y: "y = y'" and r: "days_before_month y m + d - 1 = days_before_month y' m' + d' - 1"
    using days_before_year_unique [OF _ valid_date_day_of_year [OF assms(1)] valid_date_day_of_year [OF assms(2)]] assms(3)
    by (simp_all add: day_number_def)
  have "m = m'"
    using r assms(1,2) days_before_month_mono [of m m' y] days_before_month_mono [of m' m y]
    by (cases m m' rule: linorder_cases) (simp_all add: y valid_date_def)
  then show ?thesis using y r by simp
qed

lemma time_of_day_unique:
  fixes D h m s D' h' m' s' :: int
  assumes "((D * 24 + h) * 60 + m) * 60 + s = ((D' * 24 + h') * 60 + m') * 60 + s'"
    "0 \<le> h" "h < 24" "0 \<le> m" "m < 60" "0 \<le> s" "s < 60" "0 \<le> h'" "h' < 24" "0 \<le> m'" "m' < 60" "0 \<le> s'" "s' < 60"
  shows "D = D' \<and> h = h' \<and> m = m' \<and> s = s'"
proof -
  have u: "a = a' \<and> b = b'" if "a * k + b = a' * k + b'" "0 \<le> b" "b < k" "0 \<le> b'" "b' < k" for a a' b b' k :: int
  proof -
    have "(b + a * k) div k = a" "(b' + a' * k) div k = a'" using that by simp_all
    then have "a = a'" using that(1) by (metis add.commute)
    then show ?thesis using that(1) by simp
  qed
  have "(D * 24 + h) * 60 + m = (D' * 24 + h') * 60 + m'" "s = s'" using u [OF assms(1) assms(6,7,12,13)] by simp_all
  moreover from this(1) have "D * 24 + h = D' * 24 + h'" "m = m'" using u assms(4,5,10,11) by blast+
  moreover from this(1) have "D = D'" "h = h'" using u assms(2,3,8,9) by blast+
  ultimately show ?thesis by simp
qed

lemma tm_seconds_unique:
  assumes "valid_tm tm" "valid_tm tm'" "tm_seconds tm = tm_seconds tm'"
  shows "tm' = tm\<lparr>tm_wday := tm_wday tm', tm_gmtoff := tm_gmtoff tm'\<rparr>"
proof -
  have "tm_day tm = tm_day tm'" "tm_hour tm = tm_hour tm' \<and> tm_min tm = tm_min tm' \<and> tm_sec tm = tm_sec tm'"
    using time_of_day_unique [OF assms(3) [unfolded tm_seconds_def]] assms(1,2) by (simp_all add: valid_tm_def)
  moreover from this(1) have "tm_year tm + 1900 = tm_year tm' + 1900 \<and> tm_mon tm = tm_mon tm' \<and> tm_mday tm = tm_mday tm'"
    using assms(1,2) by (intro date_unique) (simp_all add: valid_tm_def tm_day_def)
  ultimately show ?thesis by (cases tm; cases tm') simp
qed

lemma gmtime_defined:
  assumes "- 62135596800 \<le> t" "t \<le> 300000000000000"
  shows "\<exists>tm. gmtime t = Inr tm \<and> 1 \<le> tm_year tm + 1900 \<and> tm_year tm + 1900 \<le> 11767033"
proof -
  define n where "n = t div 86400 + 719162"
  have n: "0 \<le> n" "n \<le> 3473000000"
  proof -
    have "- 62135596800 div 86400 \<le> t div 86400" "t div 86400 \<le> 300000000000000 div 86400"
      using assms by (simp_all only: zdiv_mono1)
    then show "0 \<le> n" "n \<le> 3473000000" unfolding n_def by simp_all
  qed
  obtain r y where fy: "find_year (n mod 146097) (400 * (n div 146097) + 1) = (r, y)" by (rule prod.exhaust)
  obtain m d where fm: "find_month (month_days y) r 0 = (m, d)" by (rule prod.exhaust)
  have "days_before_year y + r = n" "0 \<le> r" "r < year_days y"
    using find_year_correct [OF pos_mod_sign fy] by (simp_all add: days_before_400)
  note y = year_range [OF this n]
  then have "\<not> (y - 1900 < - (2 ^ 31) \<or> y - 1900 \<ge> 2 ^ 31)" by simp
  then show ?thesis
    using y unfolding gmtime_def n_def [symmetric] Let_def fy fm prod.case by simp
qed

lemma to_s64_of_int: "- (2 ^ 63) \<le> x \<Longrightarrow> x < 2 ^ 63 \<Longrightarrow> to_s64 (of_int x) = x"
  by (simp add: to_s64_def sint_sbintrunc' signed_take_bit_int_eq_self)

lemma of_int_to_s64: "of_int (to_s64 w) = w"
  by (simp add: to_s64_def)

lemma to_i32_id: "- (2 ^ 31) \<le> x \<Longrightarrow> x < 2 ^ 31 \<Longrightarrow> to_i32 x = x"
  by (simp add: to_i32_def sint_sbintrunc' signed_take_bit_int_eq_self)

lemma tm_fields_ignored [simp]:
  "tm_mkepoch_local (Some (tm\<lparr>tm_wday := w, tm_gmtoff := g\<rparr>)) off = tm_mkepoch_local (Some tm) off"
  "tm_mkepoch_local (Some (tm\<lparr>tm_gmtoff := g\<rparr>)) off = tm_mkepoch_local (Some tm) off"
  "tm_mkepoch_local (Some (tm\<lparr>tm_wday := w\<rparr>)) off = tm_mkepoch_local (Some tm) off"
  "valid_tm (tm\<lparr>tm_gmtoff := g\<rparr>) = valid_tm tm"
  "tm_seconds (tm\<lparr>tm_gmtoff := g\<rparr>) = tm_seconds tm"
  by (simp_all add: tm_mkepoch_local_def valid_tm_def tm_seconds_def tm_day_def)

lemma tm_mkepoch_gmtime:
  assumes "t = to_s64 (e + to_u64 off)" "gmtime t = Inr tm" "1 \<le> tm_year tm + 1900" "tm_year tm + 1900 \<le> 11767033"
  shows "tm_mkepoch_local (Some tm) off = Inr e"
proof -
  have "of_int t = e + of_int off" unfolding assms(1) of_int_to_s64 by (simp add: to_u64_def)
  then show ?thesis using tm_mkepoch_valid [OF gmtime_correct(1) [OF assms(2)] assms(3,4)] gmtime_correct(2) [OF assms(2)] by simp
qed

text \<open>Seconds to a calendar date and back.\<close>

theorem local_tm_roundtrip:
  assumes "- (2 ^ 31) \<le> off" "off < 2 ^ 31"
    and "t = to_s64 (e + to_u64 off)" "- 62135596800 \<le> t" "t \<le> 300000000000000"
  shows "\<exists>tm. time_local_to_tm e off True = Inr tm \<and> valid_tm tm \<and> tm_seconds tm = t \<and> tm_wday tm = (tm_day tm + 4) mod 7 \<and>
    time_local_from_tm (Some tm) True True = Inr (Some e, Some off)"
proof -
  obtain tm where tm: "gmtime t = Inr tm" and y: "1 \<le> tm_year tm + 1900" "tm_year tm + 1900 \<le> 11767033"
    using gmtime_defined [OF assms(4,5)] by blast
  note g = gmtime_correct [OF tm]
  have "tm_seconds tm = tm_day tm * 86400 + ((tm_hour tm * 60 + tm_min tm) * 60 + tm_sec tm)" by (simp add: tm_seconds_def)
  moreover have "0 \<le> (tm_hour tm * 60 + tm_min tm) * 60 + tm_sec tm" "(tm_hour tm * 60 + tm_min tm) * 60 + tm_sec tm < 86400"
    using g(1) by (simp_all add: valid_tm_def)
  ultimately have "t div 86400 = tm_day tm" using g(2) by (metis int_div_pos_eq mult.commute)
  then show ?thesis
    using tm g tm_mkepoch_gmtime [OF assms(3) tm y] assms(3)
    by (simp add: time_local_to_tm_def time_local_from_tm_def to_i32_id [OF assms(1,2)] tm_day_def)
qed

theorem local_tm_roundtrip_witness:
  "\<exists>tm. time_local_to_tm 1534167595 (-7260) True = Inr tm \<and> tm_seconds tm = 1534160335 \<and>
    time_local_from_tm (Some tm) True True = Inr (Some 1534167595, Some (-7260))"
  using local_tm_roundtrip [of "-7260" 1534160335 1534167595] by (simp add: to_u64_def to_s64_def)  blast

text \<open>
  On Windows the way back has lost the offset: the date comes back as if its local time were UTC.
\<close>

theorem local_tm_win:
  assumes "t = to_s64 (e + to_u64 off)" "- 62135596800 \<le> t" "t \<le> 300000000000000"
  shows "\<exists>tm. time_local_to_tm_win e off True = Inr tm \<and> valid_tm tm \<and> tm_seconds tm = t \<and>
    time_local_from_tm_win (Some tm) True True = Inr (Some (e + to_u64 off), Some 0)"
proof -
  obtain tm where tm: "gmtime t = Inr tm" "1 \<le> tm_year tm + 1900" "tm_year tm + 1900 \<le> 11767033"
    using gmtime_defined [OF assms(2,3)] by blast
  have "t = to_s64 (e + to_u64 off + to_u64 0)" using assms(1) by (simp add: to_u64_def)
  note again = tm_mkepoch_gmtime [OF this tm]
  show ?thesis
    using tm(1) again gmtime_correct [OF tm(1)] assms(1)
    by (simp add: time_local_to_tm_win_def time_local_from_tm_win_def)
qed

text \<open>
  Property C12.  The closed formula of \<open>tm_mkepoch_local\<close>, with its table of months counted from March, is
  the calendar: for every valid date of the years 1 to 9000000 and every offset it returns the seconds
  that the count of days by leap years and lengths of months gives, and converting them to a local
  date gives the date back, with its day of the week.
\<close>

theorem mkepoch_correct:
  assumes "valid_tm tm" "1 \<le> tm_year tm + 1900" "tm_year tm + 1900 \<le> 9000000" "- (2 ^ 31) \<le> off" "off < 2 ^ 31"
  shows "\<exists>e. tm_mkepoch_local (Some tm) off = Inr e \<and> to_s64 e = tm_seconds tm - off \<and>
    time_local_to_tm e off True = Inr (tm\<lparr>tm_wday := (tm_day tm + 4) mod 7, tm_gmtoff := off\<rparr>)"
proof -
  have m: "tm_mkepoch_local (Some tm) off = Inr (of_int (tm_seconds tm - off))"
    using assms(3) by (intro tm_mkepoch_valid [OF assms(1,2)]) simp
  define y where "y = tm_year tm + 1900"
  have v: "valid_date y (tm_mon tm) (tm_mday tm)" using assms(1) by (simp add: valid_tm_def y_def)
  note d = valid_date_day_of_year [OF v]
  have yb: "1 \<le> y" "y \<le> 9000000" using assms(2,3) by (simp_all add: y_def)
  have D: "tm_day tm = days_before_year y + (days_before_month y (tm_mon tm) + tm_mday tm - 1) - 719162"
    by (simp add: tm_day_def day_number_def y_def)
  have "year_days y \<le> 366" by (simp add: year_days_def)
  moreover have "366 * (y - 1) \<le> 3293999634" "0 \<le> 365 * (y - 1)" using yb by simp_all
  ultimately have "- 719162 \<le> tm_day tm" "tm_day tm \<le> 3294000000"
    using day_bounds [OF yb(1)] d D by linarith+
  moreover have sec: "tm_seconds tm = tm_day tm * 86400 + ((tm_hour tm * 60 + tm_min tm) * 60 + tm_sec tm)" by (simp add: tm_seconds_def)
  moreover have h: "0 \<le> (tm_hour tm * 60 + tm_min tm) * 60 + tm_sec tm" "(tm_hour tm * 60 + tm_min tm) * 60 + tm_sec tm < 86400"
    using assms(1) by (simp_all add: valid_tm_def)
  ultimately have s: "- 62135596800 \<le> tm_seconds tm" "tm_seconds tm \<le> 300000000000000" by linarith+
  have div: "tm_seconds tm div 86400 = tm_day tm" using sec h by (metis int_div_pos_eq mult.commute)
  have t: "to_s64 (of_int (tm_seconds tm - off) + to_u64 off) = tm_seconds tm"
    unfolding to_u64_def of_int_add [symmetric] using s by (subst to_s64_of_int) simp_all
  obtain tm' where tm': "gmtime (tm_seconds tm) = Inr tm'" using gmtime_defined [OF s] by blast
  have "tm' = tm\<lparr>tm_wday := tm_wday tm', tm_gmtoff := tm_gmtoff tm'\<rparr>"
    using tm_seconds_unique [OF assms(1) gmtime_correct(1) [OF tm']] gmtime_correct(2) [OF tm'] by simp
  then have "tm' = tm\<lparr>tm_wday := (tm_day tm + 4) mod 7, tm_gmtoff := 0\<rparr>"
    using gmtime_correct(3,4) [OF tm'] div by simp
  then have "time_local_to_tm (of_int (tm_seconds tm - off)) off True = Inr (tm\<lparr>tm_wday := (tm_day tm + 4) mod 7, tm_gmtoff := off\<rparr>)"
    unfolding time_local_to_tm_def Let_def t tm' by simp
  moreover have "to_s64 (of_int (tm_seconds tm - off)) = tm_seconds tm - off"
    using s assms(4,5) by (intro to_s64_of_int) simp_all
  ultimately show ?thesis using m by blast
qed

definition leap_day :: tm where
  "leap_day = \<lparr>tm_year = 124, tm_mon = 1, tm_mday = 29, tm_hour = 23, tm_min = 59, tm_sec = 58, tm_wday = 0, tm_gmtoff = 0\<rparr>"

theorem mkepoch_correct_witness:
  "\<exists>e. tm_mkepoch_local (Some leap_day) 3600 = Inr e \<and> to_s64 e = 1709247598 \<and>
    time_local_to_tm e 3600 True = Inr (leap_day\<lparr>tm_wday := 4, tm_gmtoff := 3600\<rparr>)"
  using mkepoch_correct [of leap_day 3600]
  by (simp add: leap_day_def valid_tm_def valid_date_def month_days_def leap_year_def tm_seconds_def tm_day_def
      day_number_def days_before_year_def days_before_month_def)

end
