(* ===== verification/SystimeCtx.thy ===== *)
theory SystimeCtx
  imports Systimetools
begin

text \<open>
  The context of \<open>systimetools\<close> (\<open>time_ctx_*\<close> of src/src/systimetools.c) refines a pair of optional parts, a date
  and an hour.
\<close>

section \<open>The context as a pair of optional parts\<close>

text \<open>
  What the context promises: it keeps the first date and the first hour it is given, in either
  order or together, and refuses a second one.  A text that does not parse changes nothing.
\<close>

type_synonym ymd = "int \<times> int \<times> int"
type_synonym hour = "(int \<times> int \<times> int) \<times> int"

datatype ctx_op = Set_date string | Set_hour string | Set_time string

definition ctx_step :: "ctx_op \<Rightarrow> time_ctx option \<Rightarrow> unit res \<times> time_ctx option" where
  "ctx_step op c = (case op of
     Set_date s \<Rightarrow> time_ctx_set_date c (Some s)
   | Set_hour s \<Rightarrow> time_ctx_set_hour c (Some s)
   | Set_time s \<Rightarrow> time_ctx_set_time c (Some s))"

definition spec_date :: "string \<Rightarrow> ymd res" where
  "spec_date s = (case parse_date s (length s) (0, 0, 0) of (r, date) \<Rightarrow> bindR r (\<lambda>_. Inr date))"

definition spec_hour :: "string \<Rightarrow> hour res" where
  "spec_hour s = (case parse_time s (0, 0, 0) 0 of (r, h) \<Rightarrow> bindR r (\<lambda>_. Inr h))"

definition spec_time :: "string \<Rightarrow> (ymd \<times> hour) res" where
  "spec_time s = (case parse_date_time s (0, 0, 0) (0, 0, 0) 0 of (r, date, h) \<Rightarrow> bindR r (\<lambda>_. Inr (date, h)))"

fun given :: "'a option \<Rightarrow> bool" where
  "given None = False"
| "given (Some x) = True"

definition spec_step :: "ctx_op \<Rightarrow> ymd option \<times> hour option \<Rightarrow> unit res \<times> ymd option \<times> hour option" where
  "spec_step op = (\<lambda>(d, h). case op of
     Set_date s \<Rightarrow>
       if given d then (Inl EEXIST, d, h)
       else (case spec_date s of Inl e \<Rightarrow> (Inl e, d, h) | Inr x \<Rightarrow> (if \<not> given h then Inl EINPROGRESS else Inr (), Some x, h))
   | Set_hour s \<Rightarrow>
       if given h then (Inl EEXIST, d, h)
       else (case spec_hour s of Inl e \<Rightarrow> (Inl e, d, h) | Inr x \<Rightarrow> (if \<not> given d then Inl EINPROGRESS else Inr (), d, Some x))
   | Set_time s \<Rightarrow>
       if given d \<or> given h then (Inl EEXIST, d, h)
       else (case spec_time s of Inl e \<Rightarrow> (Inl e, d, h) | Inr (x, y) \<Rightarrow> (Inr (), Some x, Some y)))"

text \<open>The seconds of a local date and time.\<close>

definition spec_epoch :: "ymd \<Rightarrow> hour \<Rightarrow> u64 res" where
  "spec_epoch d h = tm_mkepoch_local (Some (rebase (put_hms (fst h) (put_date d tm_zero)))) (snd h)"

text \<open>The parsers write their outputs or fail, whatever the outputs held before.\<close>

definition out_only :: "('a \<Rightarrow> 'b res \<times> 'a) \<Rightarrow> bool" where
  "out_only f \<longleftrightarrow> (\<exists>e g. f = (\<lambda>out. (Inl e, g out))) \<or> (\<exists>u x. f = (\<lambda>_. (Inr u, x)))"

lemma out_only_error [simp, intro]: "out_only (\<lambda>out. (Inl e, g out))"
  by (auto simp: out_only_def)

lemma out_only_ok [simp, intro]: "out_only (\<lambda>_. (Inr u, x))"
  by (auto simp: out_only_def)

lemma out_onlyE:
  assumes "out_only f"
  obtains e g where "f = (\<lambda>out. (Inl e, g out))" | u x where "f = (\<lambda>_. (Inr u, x))"
  using assms by (auto simp: out_only_def)

lemma out_only_if: "out_only f \<Longrightarrow> out_only g \<Longrightarrow> out_only (\<lambda>out. if b then f out else g out)"
  by (cases b) simp_all

text \<open>Three outputs written in turn, up to the first error.\<close>

lemma parse_nums_out: "out_only (parse_nums ss)"
proof -
  obtain a b c where ss: "ss = (a, b, c)" by (rule prod_cases3)
  obtain r1 x1 where 1: "parse_num a = (r1, x1)" by (rule prod.exhaust)
  obtain r2 x2 where 2: "parse_num b = (r2, x2)" by (rule prod.exhaust)
  obtain r3 x3 where 3: "parse_num c = (r3, x3)" by (rule prod.exhaust)
  have "parse_nums ss = (\<lambda>(n1, n2, n3). case r1 of Inl e \<Rightarrow> (Inl e, x1, n2, n3) | Inr _ \<Rightarrow>
      (case r2 of Inl e \<Rightarrow> (Inl e, x1, x2, n3) | Inr _ \<Rightarrow> (r3, x1, x2, x3)))"
    unfolding fun_eq_iff parse_nums_def ss prod.case 1 2 3 Let_def by simp
  then show ?thesis
    by (cases r1; cases r2; cases r3) (simp_all add: case_prod_unfold)
qed

lemma out_only_with: "(\<And>x. r = Inr x \<Longrightarrow> out_only (f x)) \<Longrightarrow> out_only (with_out r f)"
  by (cases r) (simp_all add: with_out_def [abs_def])

lemma parse_date_out: "out_only (parse_date s n)"
  unfolding parse_date_def by (intro out_only_with parse_nums_out)

lemma parse_rfc1123_out: "out_only (parse_date_rfc1123 s)"
  unfolding parse_date_rfc1123_def
proof (rule out_only_with)
  fix x assume "rfc_texts s = Inr x"
  obtain d m y k where x: "x = (d, m, y, k)" by (metis prod_cases4)
  obtain r1 x1 where 1: "parse_num y = (r1, x1)" by (rule prod.exhaust)
  obtain r3 x3 where 3: "parse_num d = (r3, x3)" by (rule prod.exhaust)
  show "out_only ((\<lambda>(mday_s, mon_s, year_s, offset) (year, mon, mday).
     (let (r, year) = parse_num year_s
      in case r of Inl e \<Rightarrow> (Inl e, year, mon, mday) | Inr _ \<Rightarrow>
        (case parse_mon mon_s of Inl e \<Rightarrow> (Inl e, year, mon, mday) | Inr mon \<Rightarrow>
        (let (r, mday) = parse_num mday_s in
         case r of Inl e \<Rightarrow> (Inl e, year, mon, mday) | Inr _ \<Rightarrow> (Inr offset, year, mon, mday))))) x)"
    unfolding x prod.case 1 3 Let_def
    by (cases r1; cases "parse_mon m"; cases r3) (simp_all add: case_prod_unfold)
qed

lemma out_only_bind:
  assumes "out_only f"
  shows "out_only (\<lambda>out. case f out of (r, x) \<Rightarrow> (bindR r (\<lambda>u. Inr (h u)), x))"
  by (rule out_onlyE [OF assms]) simp_all

lemma parse_leading_date_out: "out_only (parse_leading_date s)"
proof (cases "16 \<le> length s \<and> parse_wday s \<noteq> Inl ENOENT")
  case True
  then show ?thesis using parse_rfc1123_out by (simp add: parse_leading_date_def Let_def)
next
  case False
  show ?thesis unfolding parse_leading_date_def Let_def if_not_P [OF False]
    by (intro out_only_with out_only_if out_only_bind parse_date_out out_only_error)
qed

text \<open>Two groups of outputs, written one after the other.\<close>

lemma out_only_seq:
  assumes "out_only f" "out_only g"
  shows "out_only (\<lambda>(x, y). case f x of (r, x) \<Rightarrow> (case r of Inl e \<Rightarrow> (Inl e, x, y) | Inr _ \<Rightarrow> (case g y of (r, y) \<Rightarrow> (r, x, y))))"
  by (rule out_onlyE [OF assms(1)]; rule out_onlyE [OF assms(2)]) (simp_all add: case_prod_unfold)

lemma parse_time_out: "out_only (\<lambda>(hms, off). parse_time s hms off)"
proof (cases "time_parts s")
  case (Inl e)
  then show ?thesis by (simp add: parse_time_def case_prod_unfold)
next
  case (Inr x)
  then obtain hs z where t: "time_parts s = Inr (hs, z)" by (cases x) auto
  have "out_only (\<lambda>off. case parse_offset z of Inl e \<Rightarrow> (Inl e, off) | Inr o2 \<Rightarrow> (Inr (), o2))"
    by (cases "parse_offset z") simp_all
  from out_only_seq [OF parse_nums_out [of hs] this] show ?thesis
    unfolding parse_time_def t by (simp add: case_prod_unfold Let_def sum.case_distrib cong: sum.case_cong)
qed

lemma parse_date_time_out: "out_only (\<lambda>(date, hms, off). parse_date_time s date hms off)"
proof (rule out_onlyE [OF parse_leading_date_out [of s]])
  fix e g assume "parse_leading_date s = (\<lambda>out. (Inl e, g out))"
  then show ?thesis by (simp add: parse_date_time_def case_prod_unfold)
next
  fix k x assume l: "parse_leading_date s = (\<lambda>_. (Inr k, x))"
  show ?thesis
  proof (cases "bindR (skip_chars k s) (skip_one (CHR '' ''))")
    case (Inl e)
    then show ?thesis by (simp add: parse_date_time_def l case_prod_unfold)
  next
    case (Inr t)
    define pt where "pt = (\<lambda>(hms, off). parse_time t hms off)"
    have "(\<lambda>(date, hms, off). parse_date_time s date hms off) = (\<lambda>out. case pt (snd out) of (r, y) \<Rightarrow> (r, x, y))"
      unfolding parse_date_time_def l pt_def Let_def prod.case sum.case Inr by (simp add: fun_eq_iff case_prod_unfold)
    moreover have "out_only (\<lambda>out. case pt (snd out) of (r, y) \<Rightarrow> (r, x, y))"
    proof (rule out_onlyE [OF parse_time_out [of t, folded pt_def]])
      fix e g assume "pt = (\<lambda>out. (Inl e, g out))"
      then show ?thesis by simp
    next
      fix u y assume "pt = (\<lambda>_. (Inr u, y))"
      then show ?thesis by simp
    qed
    ultimately show ?thesis by (simp only:)
  qed
qed

text \<open>Hence a parse is an error, or a value that does not depend on what was there.\<close>

lemma out_only_spec:
  assumes "out_only f"
  shows "bindR (fst (f x)) (\<lambda>_. Inr (snd (f x))) = Inl e \<Longrightarrow> fst (f out) = Inl e"
    and "bindR (fst (f x)) (\<lambda>_. Inr (snd (f x))) = Inr v \<Longrightarrow> snd (f out) = v \<and> (\<exists>u. fst (f out) = Inr u)"
  by (rule out_onlyE [OF assms]; simp)+

lemma spec_date_parsed:
  "spec_date s = Inl e \<Longrightarrow> fst (parse_date s (length s) out) = Inl e"
  "spec_date s = Inr d \<Longrightarrow> parse_date s (length s) out = (Inr (), d)"
  using out_only_spec [OF parse_date_out [of s "length s"], of "(0, 0, 0)" _ out]
  by (simp_all add: spec_date_def case_prod_unfold prod_eq_iff)

lemma spec_hour_parsed:
  "spec_hour s = Inl e \<Longrightarrow> fst (parse_time s out off) = Inl e"
  "spec_hour s = Inr h \<Longrightarrow> parse_time s out off = (Inr (), h)"
  using out_only_spec [OF parse_time_out [of s], of "((0, 0, 0), 0)" _ "(out, off)"]
  by (simp_all add: spec_hour_def case_prod_unfold prod_eq_iff)

lemma spec_time_failed: "spec_time s = Inl e \<Longrightarrow> fst (parse_date_time s date hms off) = Inl e"
  using out_only_spec(1) [OF parse_date_time_out [of s], of "((0, 0, 0), (0, 0, 0), 0)" e "(date, hms, off)"]
  by (simp add: spec_time_def case_prod_unfold)

lemma spec_time_parsed:
  assumes "spec_time s = Inr v"
  shows "parse_date_time s date hms off = (Inr (), v)"
proof -
  have "snd (parse_date_time s date hms off) = v" "\<exists>u. fst (parse_date_time s date hms off) = Inr u"
    using out_only_spec(2) [OF parse_date_time_out [of s], of "((0, 0, 0), (0, 0, 0), 0)" v "(date, hms, off)"] assms
    unfolding spec_time_def case_prod_unfold fst_conv snd_conv prod.collapse by blast+
  then show ?thesis by (cases "parse_date_time s date hms off") simp
qed

text \<open>The context and the pair.\<close>

definition ctx_rel :: "time_ctx \<Rightarrow> ymd option \<times> hour option \<Rightarrow> bool" where
  "ctx_rel c = (\<lambda>(d, h).
     tfields c = (if d = None then 0 else TIME_FIELD_DATE) + (if h = None then 0 else TIME_FIELD_HOUR) \<and>
     (case d of None \<Rightarrow> True | Some (y, mo, md) \<Rightarrow> get_date (ctx_tm c) = (y - 1900, mo - 1, md)) \<and>
     (case h of None \<Rightarrow> True | Some (hms, off) \<Rightarrow> get_hms (ctx_tm c) = hms \<and> gmtoff c = off))"

definition spec_get :: "ymd option \<times> hour option \<Rightarrow> (u64 \<times> int) res" where
  "spec_get = (\<lambda>(d, h). case (d, h) of
     (Some d, Some h) \<Rightarrow> bindR (spec_epoch d h) (\<lambda>e. Inr (e, snd h))
   | _ \<Rightarrow> Inl EINPROGRESS)"

lemmas time_fields = TIME_FIELD_DATE_def TIME_FIELD_HOUR_def TIME_FIELD_ALL_def

text \<open>Each operation in the three cases: refused, not parsed, parsed.\<close>

lemma set_date_step:
  assumes "ctx_rel c (d, h)"
  shows "\<exists>c'. time_ctx_set_date (Some c) (Some s) = (fst (spec_step (Set_date s) (d, h)), Some c') \<and>
    ctx_rel c' (snd (spec_step (Set_date s) (d, h)))"
proof (cases d)
  case (Some x)
  then have "tfields c AND TIME_FIELD_DATE \<noteq> 0" using assms by (cases h) (simp_all add: ctx_rel_def time_fields)
  then show ?thesis using assms Some by (simp add: time_ctx_set_date_def spec_step_def)
next
  case None
  then have f: "\<not> tfields c AND TIME_FIELD_DATE \<noteq> 0" "tfields c OR TIME_FIELD_DATE = tfields c + 1"
    using assms by (cases h; simp add: ctx_rel_def time_fields)+
  obtain r x where p: "parse_date s (length s) (get_date (ctx_tm c)) = (r, x)" by (rule prod.exhaust)
  obtain y mo md where x: "x = (y, mo, md)" by (rule prod_cases3)
  show ?thesis
  proof (cases "spec_date s")
    case (Inl e)
    have "r = Inl e" using spec_date_parsed(1) [OF Inl] p by (metis fst_conv)
    moreover have "ctx_rel (c\<lparr>ctx_tm := put_date x (ctx_tm c)\<rparr>) (None, h)"
      using assms None by (cases h) (auto simp: x ctx_rel_def get_hms_def put_date_def)
    ultimately show ?thesis using p f None Inl by (simp add: time_ctx_set_date_def spec_step_def)
  next
    case (Inr dt)
    have r: "r = Inr ()" "x = dt" using spec_date_parsed(2) [OF Inr] p by simp_all
    define c' where "c' = c\<lparr>ctx_tm := rebase (put_date x (ctx_tm c)), tfields := tfields c OR TIME_FIELD_DATE\<rparr>"
    have "ctx_rel c' (Some dt, h)"
      using assms None f(2) by (cases h) (auto simp: c'_def x r(2) [symmetric] ctx_rel_def get_hms_def get_date_def put_date_def rebase_def time_fields)
    moreover have "tfields c' = TIME_FIELD_ALL \<longleftrightarrow> given h"
      using assms None f(2) by (cases h) (auto simp: c'_def ctx_rel_def time_fields)
    moreover have "time_ctx_set_date (Some c) (Some s) = (if tfields c' = TIME_FIELD_ALL then Inr () else Inl EINPROGRESS, Some c')"
      using f(1) p r by (simp add: time_ctx_set_date_def c'_def)
    ultimately show ?thesis using None Inr by (simp add: spec_step_def)
  qed
qed

lemma set_hour_step:
  assumes "ctx_rel c (d, h)"
  shows "\<exists>c'. time_ctx_set_hour (Some c) (Some s) = (fst (spec_step (Set_hour s) (d, h)), Some c') \<and>
    ctx_rel c' (snd (spec_step (Set_hour s) (d, h)))"
proof (cases h)
  case (Some x)
  then have "tfields c AND TIME_FIELD_HOUR \<noteq> 0" using assms by (cases d) (simp_all add: ctx_rel_def time_fields)
  then show ?thesis using assms Some by (simp add: time_ctx_set_hour_def spec_step_def)
next
  case None
  then have f: "\<not> tfields c AND TIME_FIELD_HOUR \<noteq> 0" "tfields c OR TIME_FIELD_HOUR = tfields c + 2"
    using assms by (cases d; simp add: ctx_rel_def time_fields)+
  obtain r x off where p: "parse_time s (get_hms (ctx_tm c)) (gmtoff c) = (r, x, off)" by (rule prod_cases3)
  obtain hh mm ss where x: "x = (hh, mm, ss)" by (rule prod_cases3)
  define c1 where "c1 = c\<lparr>ctx_tm := put_hms x (ctx_tm c), gmtoff := off\<rparr>"
  show ?thesis
  proof (cases "spec_hour s")
    case (Inl e)
    have "r = Inl e" using spec_hour_parsed(1) [OF Inl] p by (metis fst_conv)
    moreover have "ctx_rel c1 (d, None)"
      using assms None by (cases d) (auto simp: c1_def x ctx_rel_def get_date_def put_hms_def)
    ultimately show ?thesis using p f None Inl by (simp add: time_ctx_set_hour_def spec_step_def c1_def)
  next
    case (Inr t)
    have r: "r = Inr ()" "t = (x, off)" using spec_hour_parsed(2) [OF Inr] p by simp_all
    define c' where "c' = c1\<lparr>tfields := tfields c1 OR TIME_FIELD_HOUR\<rparr>"
    have "ctx_rel c' (d, Some t)"
      using assms None f(2) by (cases d) (auto simp: c'_def c1_def x r(2) ctx_rel_def get_hms_def get_date_def put_hms_def time_fields)
    moreover have "tfields c' = TIME_FIELD_ALL \<longleftrightarrow> given d"
      using assms None f(2) by (cases d) (auto simp: c'_def c1_def ctx_rel_def time_fields)
    moreover have "time_ctx_set_hour (Some c) (Some s) = (if tfields c' = TIME_FIELD_ALL then Inr () else Inl EINPROGRESS, Some c')"
      using f(1) p r by (simp add: time_ctx_set_hour_def c'_def c1_def)
    ultimately show ?thesis using None Inr by (simp add: spec_step_def)
  qed
qed

lemma set_time_step:
  assumes "ctx_rel c (d, h)"
  shows "\<exists>c'. time_ctx_set_time (Some c) (Some s) = (fst (spec_step (Set_time s) (d, h)), Some c') \<and>
    ctx_rel c' (snd (spec_step (Set_time s) (d, h)))"
proof (cases "given d \<or> given h")
  case True
  then have "tfields c AND TIME_FIELD_ALL \<noteq> 0" using assms by (cases d; cases h) (simp_all add: ctx_rel_def time_fields)
  then show ?thesis using assms True by (simp add: time_ctx_set_time_def spec_step_def)
next
  case False
  then have n: "d = None" "h = None" by (cases d; cases h; simp)+
  have f: "\<not> tfields c AND TIME_FIELD_ALL \<noteq> 0" using assms n by (simp add: ctx_rel_def)
  obtain r date x off where p: "parse_date_time s (get_date (ctx_tm c)) (get_hms (ctx_tm c)) (gmtoff c) = (r, date, x, off)" by (rule prod_cases4)
  obtain y mo md where date: "date = (y, mo, md)" by (rule prod_cases3)
  obtain hh mm ss where x: "x = (hh, mm, ss)" by (rule prod_cases3)
  define c1 where "c1 = c\<lparr>ctx_tm := put_hms x (put_date date (ctx_tm c)), gmtoff := off\<rparr>"
  show ?thesis
  proof (cases "spec_time s")
    case (Inl e)
    have "r = Inl e" using spec_time_failed [OF Inl] p by (metis fst_conv)
    moreover have "ctx_rel c1 (None, None)" using assms n by (simp add: c1_def ctx_rel_def)
    ultimately show ?thesis using p f n Inl by (simp add: time_ctx_set_time_def spec_step_def c1_def)
  next
    case (Inr t)
    have r: "r = Inr ()" "t = (date, x, off)" using spec_time_parsed [OF Inr] p by simp_all
    define c' where "c' = c1\<lparr>ctx_tm := rebase (ctx_tm c1), tfields := TIME_FIELD_ALL\<rparr>"
    have "ctx_rel c' (Some date, Some (x, off))"
      by (simp add: c'_def c1_def x date ctx_rel_def get_hms_def get_date_def put_hms_def put_date_def rebase_def time_fields)
    moreover have "time_ctx_set_time (Some c) (Some s) = (Inr (), Some c')"
      using f p r by (simp add: time_ctx_set_time_def c'_def c1_def)
    ultimately show ?thesis using n Inr r(2) by (simp add: spec_step_def)
  qed
qed

lemma ctx_rel_step:
  assumes "ctx_rel c a"
  shows "\<exists>c'. ctx_step op (Some c) = (fst (spec_step op a), Some c') \<and> ctx_rel c' (snd (spec_step op a))"
  using assms by (cases a; cases op) (simp_all add: ctx_step_def set_date_step set_hour_step set_time_step)

text \<open>Sequences of operations: the results, and the context in the end.\<close>

primrec run_ctx :: "ctx_op list \<Rightarrow> time_ctx option \<Rightarrow> unit res list \<times> time_ctx option" where
  "run_ctx [] c = ([], c)"
| "run_ctx (p # ps) c = (case ctx_step p c of (r, c) \<Rightarrow> (case run_ctx ps c of (rs, c) \<Rightarrow> (r # rs, c)))"

primrec run_spec :: "ctx_op list \<Rightarrow> ymd option \<times> hour option \<Rightarrow> unit res list \<times> ymd option \<times> hour option" where
  "run_spec [] a = ([], a)"
| "run_spec (p # ps) a = (case spec_step p a of (r, a) \<Rightarrow> (case run_spec ps a of (rs, a) \<Rightarrow> (r # rs, a)))"

lemma run_ctx_rel:
  "ctx_rel c a \<Longrightarrow> \<exists>c'. run_ctx ps (Some c) = (fst (run_spec ps a), Some c') \<and> ctx_rel c' (snd (run_spec ps a))"
proof (induction ps arbitrary: c a)
  case (Cons p ps)
  obtain c1 where 1: "ctx_step p (Some c) = (fst (spec_step p a), Some c1)" "ctx_rel c1 (snd (spec_step p a))"
    using ctx_rel_step [OF Cons.prems] by blast
  show ?case using Cons.IH [OF 1(2)] by (auto simp: 1(1) case_prod_unfold)
qed simp

lemma ctx_rel_get:
  assumes "ctx_rel c a"
  shows "time_ctx_get_local (Some c) True True = spec_get a"
proof -
  obtain d h where a: "a = (d, h)" by (cases a)
  show ?thesis
  proof (cases "d \<noteq> None \<and> h \<noteq> None")
    case True
    then obtain y mo md hh mm ss off where dh: "d = Some (y, mo, md)" "h = Some ((hh, mm, ss), off)"
      by (metis option.exhaust prod.exhaust)
    have "tm_mkepoch_local (Some (ctx_tm c)) off = tm_mkepoch_local (Some (rebase (put_hms (hh, mm, ss) (put_date (y, mo, md) tm_zero)))) off"
      using assms by (simp add: a dh ctx_rel_def get_date_def get_hms_def tm_mkepoch_local_def rebase_def put_hms_def put_date_def)
    then show ?thesis using assms
      by (simp add: a dh ctx_rel_def time_ctx_get_local_def time_ctx_mkepoch_local_def time_fields spec_get_def spec_epoch_def)
  next
    case False
    then have "tfields c \<noteq> TIME_FIELD_ALL" using assms by (auto simp: a ctx_rel_def time_fields)
    then show ?thesis using False by (auto simp: a time_ctx_get_local_def spec_get_def split: option.splits)
  qed
qed

lemma run_ctx_init:
  "\<exists>c. run_ctx ps (snd (time_ctx_init (Some c0))) = (fst (run_spec ps (None, None)), Some c) \<and>
    time_ctx_get_local (Some c) True True = spec_get (snd (run_spec ps (None, None)))"
proof -
  have "ctx_rel \<lparr>tfields = 0, ctx_tm = tm_zero, gmtoff = 0\<rparr> (None, None)" by (simp add: ctx_rel_def)
  from run_ctx_rel [OF this, of ps] obtain c where
    "run_ctx ps (Some \<lparr>tfields = 0, ctx_tm = tm_zero, gmtoff = 0\<rparr>) = (fst (run_spec ps (None, None)), Some c)"
    "ctx_rel c (snd (run_spec ps (None, None)))" by blast
  then show ?thesis using ctx_rel_get [of c "snd (run_spec ps (None, None))"] by (simp add: time_ctx_init_def)
qed

text \<open>
  Property C13.  After \<open>time_ctx_init\<close>, every sequence of dates, hours and complete times, well formed or
  not and in any order, is answered as by a pair of an optional date and an optional hour: the first
  of each is kept, a second is refused with \<open>EEXIST\<close>, a text that does not parse changes nothing, the
  answer is \<open>EINPROGRESS\<close> until both parts are there.  \<open>time_ctx_get_local\<close> returns the time of the pair.
\<close>

theorem time_ctx_refines:
  "\<exists>c. run_ctx ps (snd (time_ctx_init (Some c0))) = (fst (run_spec ps (None, None)), Some c) \<and>
    time_ctx_get_local (Some c) True True = spec_get (snd (run_spec ps (None, None)))"
  by (rule run_ctx_init)

text \<open>In particular a date and an hour may come in either order.\<close>

theorem time_ctx_commutes:
  assumes "spec_date d = Inr x" "spec_hour h = Inr y"
  shows "\<exists>c c'. run_ctx [Set_date d, Set_hour h] (snd (time_ctx_init (Some c0))) = ([Inl EINPROGRESS, Inr ()], Some c) \<and>
    run_ctx [Set_hour h, Set_date d] (snd (time_ctx_init (Some c0))) = ([Inl EINPROGRESS, Inr ()], Some c') \<and>
    time_ctx_get_local (Some c) True True = bindR (spec_epoch x y) (\<lambda>e. Inr (e, snd y)) \<and>
    time_ctx_get_local (Some c') True True = time_ctx_get_local (Some c) True True"
proof -
  have "run_spec [Set_date d, Set_hour h] (None, None) = ([Inl EINPROGRESS, Inr ()], Some x, Some y)"
    "run_spec [Set_hour h, Set_date d] (None, None) = ([Inl EINPROGRESS, Inr ()], Some x, Some y)"
    using assms by (simp_all add: spec_step_def)
  then show ?thesis
    using run_ctx_init [of "[Set_date d, Set_hour h]" c0] run_ctx_init [of "[Set_hour h, Set_date d]" c0] by (simp add: spec_get_def) metis
qed

end
