(* ===== verification/SystimeText.thy ===== *)
theory SystimeText
  imports SystimeCalendar SystimeCtx
begin

text \<open>
  The texts of \<open>systimetools\<close>: what \<open>time_local_format\<close> prints, \<open>time_local_parse\<close> reads back, for each of
  the three formats; and exactly when parsing reads outside the month table.
\<close>

section \<open>Numbers in decimal\<close>

definition dg :: "nat \<Rightarrow> char" where
  "dg k = char_of (48 + k)"

lemma dg_digit: "k < 10 \<Longrightarrow> is_digit (dg k)" "k < 10 \<Longrightarrow> digit_value (dg k) = int k"
  by (simp_all add: dg_def is_digit_def digit_value_def)

lemma is_digit_not:
  "\<not> is_digit (CHR '' '')" "\<not> is_digit (CHR ''T'')" "\<not> is_digit (CHR '','')" "\<not> is_digit (CHR ''-'')" "\<not> is_digit (CHR ''+'')"
  "\<not> is_digit (CHR '':'')" "\<not> is_digit (CHR ''S'')" "\<not> is_digit (CHR ''M'')" "\<not> is_digit (CHR ''W'')" "\<not> is_digit (CHR ''F'')"
  "\<not> is_digit (CHR ''G'')" "\<not> is_digit (CHR ''U'')" "\<not> is_digit (CHR ''Z'')" "\<not> is_digit (CHR 0x00)"
  by (simp_all add: is_digit_def digit_value_def)

lemma is_digit_neq: "is_digit a \<Longrightarrow> \<not> is_digit c \<Longrightarrow> a \<noteq> c"
  by blast

lemma digit_not_space: "is_digit a \<Longrightarrow> \<not> is_space a"
  by (auto simp: is_space_def is_digit_def digit_value_def)

lemma c_string_digits: "list_all is_digit ds \<Longrightarrow> c_string ds = ds"
  using is_digit_not(14) by (auto simp: c_string_def list_all_iff takeWhile_eq_all_conv)

text \<open>A text of digits only is read as the number it spells.\<close>

lemma parse_num_digits:
  assumes "ds \<noteq> []" "list_all is_digit ds" "0 \<le> number_value ds" "number_value ds < 2 ^ 31"
  shows "parse_num ds = (Inr (), number_value ds)"
proof -
  obtain a as where ds: "ds = a # as" using assms(1) by (cases ds) auto
  have "is_digit a" using assms(2) by (simp add: ds)
  then have a: "\<not> is_space a" "a \<noteq> CHR ''-''" "a \<noteq> CHR ''+''"
    using digit_not_space is_digit_not by auto
  have "takeWhile is_digit ds = ds" "dropWhile is_digit ds = []"
    using assms(2) by (simp_all add: list_all_iff takeWhile_eq_all_conv dropWhile_eq_Nil_conv)
  then have "strtol10 ds = (number_value ds, [], False)"
    using a assms(3,4) unfolding strtol10_def by (simp add: ds)
  then show ?thesis using assms(3,4) by (simp add: parse_num_def to_i32_id c_string_digits [OF assms(2)])
qed

text \<open>The digits of the numbers that are printed, and that they are read back.\<close>

lemma dec1: "n < 10 \<Longrightarrow> dec n = [dg n]"
  by (simp add: dec.simps [of n] dg_def)

lemma dec2: "10 \<le> n \<Longrightarrow> n < 100 \<Longrightarrow> dec n = [dg (n div 10), dg (n mod 10)]"
  by (simp add: dec.simps [of n] dec1) (simp add: dg_def)

lemma div_div_10: "n div 100 = n div 10 div 10" "n div 1000 = n div 10 div 10 div 10" for n :: nat
  by (simp_all flip: div_mult2_eq)

lemma dec4:
  assumes "1000 \<le> n" "n < 10000"
  shows "dec n = [dg (n div 1000), dg (n div 100 mod 10), dg (n div 10 mod 10), dg (n mod 10)]"
proof -
  have q: "\<not> n < 10" "\<not> n div 10 < 10" "10 \<le> n div 10 div 10" "n div 10 div 10 < 100" using assms by linarith+
  have "dec n = dec (n div 10) @ [dg (n mod 10)]" using q(1) by (subst dec.simps) (simp add: dg_def)
  moreover have "dec (n div 10) = dec (n div 10 div 10) @ [dg (n div 10 mod 10)]"
    using q(2) by (subst dec.simps) (simp add: dg_def)
  moreover have "dec (n div 10 div 10) = [dg (n div 10 div 10 div 10), dg (n div 10 div 10 mod 10)]" using q(3,4) by (rule dec2)
  ultimately show ?thesis by (simp add: div_div_10)
qed

lemma char_zero: "CHR ''0'' = dg 0"
  by (rule sym) (simp add: dg_def char_of_eq_iff)

lemma digits_4: "1000 * (n div 1000) + 100 * (n div 100 mod 10) + 10 * (n div 10 mod 10) + n mod 10 = n" for n :: nat
proof -
  define q where "q = n div 10"
  define p where "p = q div 10"
  have "n = 10 * q + n mod 10" "q = 10 * p + q mod 10" "p = 10 * (p div 10) + p mod 10" unfolding q_def p_def by presburger+
  then show ?thesis unfolding div_div_10 q_def [symmetric] p_def [symmetric] by linarith
qed

lemma number_value_simps: "number_value [a] = digit_value a" "number_value [a, b] = 10 * digit_value a + digit_value b"
  "number_value [a, b, c, d] = 1000 * digit_value a + 100 * digit_value b + 10 * digit_value c + digit_value d"
  by (simp_all add: number_value_def)

lemma fmt_2:
  assumes "0 \<le> x" "x < 100"
  obtains a b where "fmt_u 2 x = [a, b]" "is_digit a" "is_digit b" "parse_num [a, b] = (Inr (), x)"
proof
  define n where "n = nat x"
  have x: "x = int n" and n: "n < 100" using assms by (simp_all add: n_def)
  have u: "unat (of_int x :: u32) = n" using n unfolding x by (simp add: unat_of_nat_small)
  have d: "is_digit (dg (n div 10))" "is_digit (dg (n mod 10))" using n by (simp_all add: dg_digit)
  show "fmt_u 2 x = [dg (n div 10), dg (n mod 10)]"
    using n by (cases "n < 10") (simp_all add: fmt_u_def u dec1 dec2 char_zero)
  show "is_digit (dg (n div 10))" "is_digit (dg (n mod 10))" by (rule d)+
  have k: "n div 10 < 10" "n mod 10 < 10" using n by simp_all
  have "number_value [dg (n div 10), dg (n mod 10)] = int (10 * (n div 10) + n mod 10)"
    by (simp only: number_value_simps dg_digit(2) [OF k(1)] dg_digit(2) [OF k(2)] of_nat_add of_nat_mult of_nat_numeral)
  then have v: "number_value [dg (n div 10), dg (n mod 10)] = x" unfolding x by simp
  show "parse_num [dg (n div 10), dg (n mod 10)] = (Inr (), x)"
    using parse_num_digits [of "[dg (n div 10), dg (n mod 10)]"] d n unfolding v unfolding x by simp
qed

lemma fmt_4:
  assumes "1000 \<le> x" "x < 10000" "w = 1 \<or> w = 4"
  obtains a b c d where "fmt_u w x = [a, b, c, d]" "is_digit a" "is_digit b" "is_digit c" "is_digit d" "parse_num [a, b, c, d] = (Inr (), x)"
proof
  define n where "n = nat x"
  have x: "x = int n" and n: "1000 \<le> n" "n < 10000" using assms by (simp_all add: n_def)
  have u: "unat (of_int x :: u32) = n" using n unfolding x by (simp add: unat_of_nat_small)
  let ?ds = "[dg (n div 1000), dg (n div 100 mod 10), dg (n div 10 mod 10), dg (n mod 10)]"
  have d: "is_digit (dg (n div 1000))" "is_digit (dg (n div 100 mod 10))" "is_digit (dg (n div 10 mod 10))" "is_digit (dg (n mod 10))"
    using n by (simp_all add: dg_digit)
  show "fmt_u w x = ?ds" using assms(3) by (auto simp: fmt_u_def u dec4 [OF n])
  show "is_digit (dg (n div 1000))" "is_digit (dg (n div 100 mod 10))" "is_digit (dg (n div 10 mod 10))" "is_digit (dg (n mod 10))" by (rule d)+
  have k: "n div 1000 < 10" "n div 100 mod 10 < 10" "n div 10 mod 10 < 10" "n mod 10 < 10" using n by simp_all
  have "number_value ?ds = int (1000 * (n div 1000) + 100 * (n div 100 mod 10) + 10 * (n div 10 mod 10) + n mod 10)"
    by (simp only: number_value_simps dg_digit(2) [OF k(1)] dg_digit(2) [OF k(2)] dg_digit(2) [OF k(3)] dg_digit(2) [OF k(4)]
        of_nat_add of_nat_mult of_nat_numeral)
  then have v: "number_value ?ds = x" unfolding digits_4 x .
  show "parse_num ?ds = (Inr (), x)"
    using parse_num_digits [of ?ds] d n unfolding v unfolding x by simp
qed

lemma fmt_day:
  assumes "1 \<le> x" "x < 100"
  obtains a where "fmt_u 1 x = [a]" "is_digit a" "parse_num [a] = (Inr (), x)"
  | a b where "fmt_u 1 x = [a, b]" "is_digit a" "is_digit b" "parse_num [a, b] = (Inr (), x)"
proof (cases "x < 10")
  case True
  define n where "n = nat x"
  have x: "x = int n" and n: "n < 10" using assms True by (simp_all add: n_def)
  have u: "unat (of_int x :: u32) = n" using n unfolding x by (simp add: unat_of_nat_small)
  have "parse_num [dg n] = (Inr (), x)"
    using parse_num_digits [of "[dg n]"] dg_digit [OF n] n by (simp add: number_value_simps x)
  then show thesis using that(1) [of "dg n"] dg_digit(1) [OF n] by (simp add: fmt_u_def u dec1 n)
next
  case False
  obtain a b where "fmt_u 2 x = [a, b]" "is_digit a" "is_digit b" "parse_num [a, b] = (Inr (), x)" using fmt_2 [of x] assms by auto
  moreover have "fmt_u 1 x = fmt_u 2 x"
  proof -
    have "unat (of_int x :: u32) = nat x" using assms uint_of_int32 [of x] by (simp add: unat_eq_nat_uint)
    then show ?thesis using False assms by (simp add: fmt_u_def dec2)
  qed
  ultimately show thesis using that(2) by auto
qed

section \<open>Reading the parts back\<close>

text \<open>Reads within the text, and the conditions over them.\<close>

lemma char_at_Nil [simp]: "char_at [] 0 = Inr (CHR 0x00)"
  by (simp add: char_at_def)

lemma char_at_Cons [simp]: "char_at (c # s) 0 = Inr c" "char_at (c # s) (Suc i) = char_at s i" "char_at (c # s) (numeral k) = char_at s (pred_numeral k)"
  by (simp_all add: char_at_def numeral_eq_Suc)

lemma char_at_first [simp]: "s \<noteq> [] \<Longrightarrow> char_at s 0 = Inr (s ! 0)"
  by (simp add: char_at_def)

lemma char_at_within: "i < length s \<Longrightarrow> char_at s i = Inr (s ! i)"
  by (simp add: char_at_def)

lemma is_at_within: "i < length s \<Longrightarrow> is_at s i c = Inr (s ! i = c)"
  by (simp add: is_at_def char_at_within)

lemma conditions [simp]:
  "and_then (Inr False) b = Inr False" "and_then (Inr True) b = b" "and_then (Inl e) b = Inl e"
  "or_else (Inr True) b = Inr True" "or_else (Inr False) b = b" "or_else (Inl e) b = Inl e"
  by (simp_all add: and_then_def or_else_def)

lemma chars_at_within: "\<forall>i\<in>set is. i < length s \<Longrightarrow> chars_at s is = Inr (map ((!) s) is)"
  by (induction "is") (simp_all add: char_at_within)

lemma skip_within: "k \<le> length s \<Longrightarrow> skip_chars k s = Inr (drop k s)"
  by (simp add: skip_chars_def)

lemma skip_one_eq: "skip_one c s = Inr (if s \<noteq> [] \<and> hd s = c then tl s else s)"
  by (cases s) (simp_all add: skip_one_def is_at_def skip_chars_def)

lemma chars_are_within: "i + length t \<le> length s \<Longrightarrow> chars_are s i t = Inr (take (length t) (drop i s) = t)"
proof (induction t arbitrary: i)
  case (Cons c t)
  then have i: "i < length s" by simp
  then have "take (length (c # t)) (drop i s) = s ! i # take (length t) (drop (i + 1) s)" by (simp flip: Cons_nth_drop_Suc)
  then show ?case using Cons i by (cases "s ! i = c") (simp_all add: is_at_within)
qed simp

lemma text_is_eq: "text_is s t = Inr (s = t)"
  by (cases "length s = length t") (auto simp: text_is_def chars_are_within)

text \<open>A text whose zone is read as the offset \<open>off\<close>.\<close>

definition zone_reads :: "string \<Rightarrow> int \<Rightarrow> bool" where
  "zone_reads z off \<longleftrightarrow> parse_offset z = Inr off"

lemma parse_nums_ok:
  "parse_num a = (Inr (), x) \<Longrightarrow> parse_num b = (Inr (), y) \<Longrightarrow> parse_num c = (Inr (), z) \<Longrightarrow>
   parse_nums (a, b, c) out = (Inr (), x, y, z)"
  by (cases out) (simp add: parse_nums_def)

lemma parse_time_long:
  assumes "parse_num [h1, h2] = (Inr (), h)" "parse_num [m1, m2] = (Inr (), m)" "parse_num [s1, s2] = (Inr (), s)"
    "h1 \<noteq> CHR ''T''" "zone_reads z off" "p = [] \<or> p = ''T''"
  shows "parse_time (p @ h1 # h2 # CHR '':'' # m1 # m2 # CHR '':'' # s1 # s2 # z) out off0 = (Inr (), (h, m, s), off)"
proof -
  let ?t = "h1 # h2 # CHR '':'' # m1 # m2 # CHR '':'' # s1 # s2 # z"
  have "skip_one (CHR ''T'') (p @ ?t) = Inr ?t" using assms(4,6) by (auto simp: skip_one_eq)
  then have "time_parts (p @ ?t) = Inr (([h1, h2], [m1, m2], [s1, s2]), z)"
    by (simp add: time_parts_def is_at_def texts_at_def skip_chars_def)
  then show ?thesis
    using assms(5) by (simp add: parse_time_def zone_reads_def parse_nums_ok [OF assms(1-3)])
qed

lemma parse_time_short:
  assumes "parse_num [h1, h2] = (Inr (), h)" "parse_num [m1, m2] = (Inr (), m)" "parse_num [s1, s2] = (Inr (), s)"
    "h1 \<noteq> CHR ''T''" "m1 \<noteq> CHR '':''" "zone_reads z off" "p = [] \<or> p = ''T''"
  shows "parse_time (p @ h1 # h2 # m1 # m2 # s1 # s2 # z) out off0 = (Inr (), (h, m, s), off)"
proof -
  let ?t = "h1 # h2 # m1 # m2 # s1 # s2 # z"
  have "skip_one (CHR ''T'') (p @ ?t) = Inr ?t" using assms(4,7) by (auto simp: skip_one_eq)
  then have "time_parts (p @ ?t) = Inr (([h1, h2], [m1, m2], [s1, s2]), z)"
    using assms(5) by (cases "2 \<le> length z") (simp_all add: time_parts_def is_at_def texts_at_def skip_chars_def)
  then show ?thesis
    using assms(6) by (simp add: parse_time_def zone_reads_def parse_nums_ok [OF assms(1-3)])
qed

text \<open>The printed zone of an offset in whole minutes.\<close>

definition zone_hour :: "int \<Rightarrow> int" where
  "zone_hour off = ((if off < 0 then -1 else 1) * off) sdiv (60 * 60)"

definition zone_minute :: "int \<Rightarrow> int" where
  "zone_minute off = (((if off < 0 then -1 else 1) * off) sdiv 60) smod 60"

lemma zone_parts:
  assumes "\<bar>off\<bar> < 360000" "60 dvd off"
  shows "0 \<le> zone_hour off" "zone_hour off < 100" "0 \<le> zone_minute off" "zone_minute off < 60"
    "(zone_hour off * 60 + zone_minute off) * 60 * (if off < 0 then -1 else 1) = off"
proof -
  obtain k where k: "off = 60 * k" using assms(2) by (rule dvdE)
  define j where "j = \<bar>k\<bar>"
  have j: "0 \<le> j" "j < 6000" "(if off < 0 then -1 else 1) * off = 60 * j" "(if off < 0 then -1 else 1) * (60 * j) = off"
    using assms(1) by (auto simp: k j_def)
  have h: "zone_hour off = j div 60" unfolding zone_hour_def j(3) using j(1) by (simp add: signed_divide_int_def sgn_if)
  have m: "zone_minute off = j mod 60" unfolding zone_minute_def j(3) using j(1)
    by (simp add: signed_divide_int_def signed_modulo_int_def sgn_if abs_mult)
  show "0 \<le> zone_hour off" "zone_hour off < 100" "0 \<le> zone_minute off" "zone_minute off < 60"
    unfolding h m using j(1,2) by simp_all
  have "j div 60 * 60 + j mod 60 = j" by simp
  then show "(zone_hour off * 60 + zone_minute off) * 60 * (if off < 0 then -1 else 1) = off"
    unfolding h m using j(4) by (simp add: mult.commute)
qed

lemma zone_readsI:
  assumes "parse_zone (if z \<noteq> [] \<and> hd z = CHR '' '' then tl z else z) = Inr (sg, hs, ms)"
    "parse_num hs = (Inr (), h)" "parse_num ms = (Inr (), m)" "(h * 60 + m) * 60 * sg = off"
  shows "zone_reads z off"
  using assms by (simp add: zone_reads_def parse_offset_def skip_one_eq)

lemmas zone_defs = parse_zone_def zone_sign_def zone_texts_def is_at_def text_is_eq

lemma zone_reads_short:
  assumes "\<bar>off\<bar> < 360000" "60 dvd off" "p = [] \<or> p = '' ''"
  shows "zone_reads (p @ (if off < 0 then ''-'' else ''+'') @ fmt_u 2 (zone_hour off) @ fmt_u 2 (zone_minute off)) off"
proof -
  note z = zone_parts [OF assms(1,2)]
  obtain a b where h: "fmt_u 2 (zone_hour off) = [a, b]" "is_digit a" "is_digit b" "parse_num [a, b] = (Inr (), zone_hour off)"
    using fmt_2 [OF z(1,2)] .
  obtain c d where m: "fmt_u 2 (zone_minute off) = [c, d]" "is_digit c" "is_digit d" "parse_num [c, d] = (Inr (), zone_minute off)"
    using fmt_2 [OF z(3)] z(4) by auto
  define sg where "sg = (if off < 0 then CHR ''-'' else CHR ''+'')"
  have "(if p @ [sg, a, b, c, d] \<noteq> [] \<and> hd (p @ [sg, a, b, c, d]) = CHR '' '' then tl (p @ [sg, a, b, c, d]) else p @ [sg, a, b, c, d]) = [sg, a, b, c, d]"
    using assms(3) by (elim disjE) (simp_all add: sg_def)
  moreover have "parse_zone [sg, a, b, c, d] = Inr (if off < 0 then -1 else 1, [a, b], [c, d])"
    by (cases "off < 0") (simp_all add: zone_defs sg_def)
  ultimately have "zone_reads (p @ [sg, a, b, c, d]) off" by (intro zone_readsI [OF _ h(4) m(4) z(5)]) simp
  then show ?thesis unfolding h(1) m(1) sg_def by (cases "off < 0") simp_all
qed

lemma zone_reads_long:
  assumes "\<bar>off\<bar> < 360000" "60 dvd off"
  shows "zone_reads ((if off < 0 then ''-'' else ''+'') @ fmt_u 2 (zone_hour off) @ '':'' @ fmt_u 2 (zone_minute off)) off"
proof -
  note z = zone_parts [OF assms]
  obtain a b where h: "fmt_u 2 (zone_hour off) = [a, b]" "is_digit a" "is_digit b" "parse_num [a, b] = (Inr (), zone_hour off)"
    using fmt_2 [OF z(1,2)] .
  obtain c d where m: "fmt_u 2 (zone_minute off) = [c, d]" "is_digit c" "is_digit d" "parse_num [c, d] = (Inr (), zone_minute off)"
    using fmt_2 [OF z(3)] z(4) by auto
  show ?thesis
    unfolding h(1) m(1)
    by (intro zone_readsI [OF _ h(4) m(4) z(5)]) (cases "off < 0"; simp add: zone_defs)
qed

lemma zone_reads_GMT: "zone_reads '' GMT'' 0"
proof -
  have "parse_num ''00'' = (Inr (), 0)"
    using parse_num_digits [of "''00''"] by (simp add: number_value_def is_digit_def digit_value_def)
  then show ?thesis by (intro zone_readsI [where sg = 1 and h = 0 and m = 0]) (simp_all add: zone_defs)
qed

lemma parse_wday_digit: "is_digit c \<Longrightarrow> parse_wday (c # s) = Inl ENOENT"
  using is_digit_not by (auto simp: parse_wday_def wday_str_def)

lemma parse_wday_name: "i < 7 \<Longrightarrow> parse_wday (wday_str ! i @ s) \<noteq> Inl ENOENT"
  by (auto simp: parse_wday_def wday_str_def less_Suc_eq numeral_eq_Suc nth_Cons')

lemma parse_mon_name: "i < 12 \<Longrightarrow> parse_mon (mon_str ! i) = Inr (int i + 1)"
  by (auto simp: parse_mon_def mon_str_def less_Suc_eq numeral_eq_Suc)

lemma wday_shape: "i < 7 \<Longrightarrow> \<exists>a b c. wday_str ! i = [a, b, c]"
  by (auto simp: wday_str_def less_Suc_eq numeral_eq_Suc)

lemma mon_shape: "i < 12 \<Longrightarrow> \<exists>a b c. mon_str ! i = [a, b, c] \<and> \<not> is_digit a"
  by (auto simp: mon_str_def less_Suc_eq numeral_eq_Suc is_digit_def digit_value_def)

lemmas date_defs = parse_date_time_def parse_leading_date_def parse_date_def with_out_def date_end_def
  is_at_def texts_at_def skip_within skip_one_eq Let_def

lemma parse_iso_long:
  assumes "1000 \<le> y" "y < 10000" "0 \<le> mo" "mo < 100" "0 \<le> d" "d < 100"
    "0 \<le> h" "h < 100" "0 \<le> mi" "mi < 100" "0 \<le> s" "s < 100" "zone_reads z off"
  shows "parse_date_time (fmt_u 4 y @ ''-'' @ fmt_u 2 mo @ ''-'' @ fmt_u 2 d @ ''T'' @ fmt_u 2 h @ '':'' @ fmt_u 2 mi @ '':'' @ fmt_u 2 s @ z)
    date hms off0 = (Inr (), (y, mo, d), (h, mi, s), off)"
proof -
  obtain y1 y2 y3 y4 where y: "fmt_u 4 y = [y1, y2, y3, y4]" "is_digit y1" "parse_num [y1, y2, y3, y4] = (Inr (), y)"
    using fmt_4 [OF assms(1,2)] by metis
  obtain o1 o2 where o: "fmt_u 2 mo = [o1, o2]" "parse_num [o1, o2] = (Inr (), mo)" using fmt_2 [OF assms(3,4)] .
  obtain d1 d2 where d: "fmt_u 2 d = [d1, d2]" "parse_num [d1, d2] = (Inr (), d)" using fmt_2 [OF assms(5,6)] .
  obtain h1 h2 where h: "fmt_u 2 h = [h1, h2]" "is_digit h1" "parse_num [h1, h2] = (Inr (), h)" using fmt_2 [OF assms(7,8)] .
  obtain m1 m2 where m: "fmt_u 2 mi = [m1, m2]" "is_digit m1" "parse_num [m1, m2] = (Inr (), mi)" using fmt_2 [OF assms(9,10)] .
  obtain s1 s2 where s: "fmt_u 2 s = [s1, s2]" "parse_num [s1, s2] = (Inr (), s)" using fmt_2 [OF assms(11,12)] .
  have t: "parse_time (''T'' @ h1 # h2 # CHR '':'' # m1 # m2 # CHR '':'' # s1 # s2 # z) hms off0 = (Inr (), (h, mi, s), off)"
    using h(2) is_digit_not assms(13) by (intro parse_time_long [OF h(3) m(3) s(2)]) auto
  show ?thesis
    unfolding y(1) o(1) d(1) h(1) m(1) s(1)
    using t by (simp add: date_defs parse_wday_digit [OF y(2)] parse_nums_ok [OF y(3) o(2) d(2)])
qed

lemma parse_iso_short:
  assumes "1000 \<le> y" "y < 10000" "0 \<le> mo" "mo < 100" "0 \<le> d" "d < 100"
    "0 \<le> h" "h < 100" "0 \<le> mi" "mi < 100" "0 \<le> s" "s < 100" "zone_reads z off"
  shows "parse_date_time (fmt_u 4 y @ fmt_u 2 mo @ fmt_u 2 d @ ''T'' @ fmt_u 2 h @ fmt_u 2 mi @ fmt_u 2 s @ z)
    date hms off0 = (Inr (), (y, mo, d), (h, mi, s), off)"
proof -
  obtain y1 y2 y3 y4 where y: "fmt_u 4 y = [y1, y2, y3, y4]" "is_digit y1" "parse_num [y1, y2, y3, y4] = (Inr (), y)"
    using fmt_4 [OF assms(1,2)] by metis
  obtain o1 o2 where o: "fmt_u 2 mo = [o1, o2]" "parse_num [o1, o2] = (Inr (), mo)" "is_digit o1" using fmt_2 [OF assms(3,4)] .
  obtain d1 d2 where d: "fmt_u 2 d = [d1, d2]" "parse_num [d1, d2] = (Inr (), d)" using fmt_2 [OF assms(5,6)] .
  obtain h1 h2 where h: "fmt_u 2 h = [h1, h2]" "is_digit h1" "is_digit h2" "parse_num [h1, h2] = (Inr (), h)" using fmt_2 [OF assms(7,8)] .
  obtain m1 m2 where m: "fmt_u 2 mi = [m1, m2]" "is_digit m1" "parse_num [m1, m2] = (Inr (), mi)" using fmt_2 [OF assms(9,10)] .
  obtain s1 s2 where s: "fmt_u 2 s = [s1, s2]" "parse_num [s1, s2] = (Inr (), s)" using fmt_2 [OF assms(11,12)] .
  have t: "parse_time (''T'' @ h1 # h2 # m1 # m2 # s1 # s2 # z) hms off0 = (Inr (), (h, mi, s), off)"
    using h(2) m(2) is_digit_not assms(13) by (intro parse_time_short [OF h(4) m(3) s(2)]) auto
  have n: "h2 \<noteq> CHR ''T''" "h2 \<noteq> CHR '' ''" "h2 \<noteq> CHR 0x00" using h(3) is_digit_not by auto
  show ?thesis
    unfolding y(1) o(1) d(1) h(1) m(1) s(1)
    using t n by (simp add: date_defs parse_wday_digit [OF y(2)] parse_nums_ok [OF y(3) o(2) d(2)])
qed

lemmas rfc_defs = parse_date_rfc1123_def rfc_texts_def rfc_parts_def rfc_mday_def rfc_mon_def with_out_def is_at_def

lemma parse_rfc1123_date:
  assumes "wd < 7" "mo < 12" "1000 \<le> y" "y < 10000" "1 \<le> d" "d < 100"
  shows "\<exists>k. parse_date_rfc1123 (wday_str ! wd @ '', '' @ fmt_u 1 d @ '' '' @ mon_str ! mo @ '' '' @ fmt_u 1 y @ t) date = (Inr k, y, int mo + 1, d)
    \<and> k \<le> length (wday_str ! wd @ '', '' @ fmt_u 1 d @ '' '' @ mon_str ! mo @ '' '' @ fmt_u 1 y @ t)
    \<and> drop k (wday_str ! wd @ '', '' @ fmt_u 1 d @ '' '' @ mon_str ! mo @ '' '' @ fmt_u 1 y @ t) = t"
proof -
  obtain a b c where w: "wday_str ! wd = [a, b, c]" using wday_shape [OF assms(1)] by blast
  obtain e f g where mon: "mon_str ! mo = [e, f, g]" using mon_shape [OF assms(2)] by blast
  have pm: "parse_mon [e, f, g] = Inr (int mo + 1)" using parse_mon_name [OF assms(2)] by (simp add: mon)
  obtain y1 y2 y3 y4 where y: "fmt_u 1 y = [y1, y2, y3, y4]" "parse_num [y1, y2, y3, y4] = (Inr (), y)"
    using fmt_4 [OF assms(3,4)] by metis
  show ?thesis
  proof (rule fmt_day [OF assms(5,6)])
    fix a1 assume d: "fmt_u 1 d = [a1]" "is_digit a1" "parse_num [a1] = (Inr (), d)"
    show ?thesis unfolding w mon y(1) d(1)
      by (cases date) (simp add: rfc_defs d(2,3) y(2) pm)
  next
    fix a1 a2 assume d: "fmt_u 1 d = [a1, a2]" "is_digit a1" "is_digit a2" "parse_num [a1, a2] = (Inr (), d)"
    have "a2 \<noteq> CHR '' ''" using d(3) is_digit_not by auto
    then show ?thesis unfolding w mon y(1) d(1)
      by (cases date) (simp add: rfc_defs d(2,4) y(2) pm)
  qed
qed

lemma parse_rfc1123:
  assumes "wd < 7" "mo < 12" "1000 \<le> y" "y < 10000" "1 \<le> d" "d < 100"
    "0 \<le> h" "h < 100" "0 \<le> mi" "mi < 100" "0 \<le> s" "s < 100" "zone_reads z off"
  shows "parse_date_time (wday_str ! wd @ '', '' @ fmt_u 1 d @ '' '' @ mon_str ! mo @ '' '' @ fmt_u 1 y @ '' '' @
      fmt_u 2 h @ '':'' @ fmt_u 2 mi @ '':'' @ fmt_u 2 s @ z)
    date hms off0 = (Inr (), (y, int mo + 1, d), (h, mi, s), off)"
proof -
  obtain h1 h2 where h: "fmt_u 2 h = [h1, h2]" "is_digit h1" "parse_num [h1, h2] = (Inr (), h)" using fmt_2 [OF assms(7,8)] .
  obtain m1 m2 where m: "fmt_u 2 mi = [m1, m2]" "is_digit m1" "parse_num [m1, m2] = (Inr (), mi)" using fmt_2 [OF assms(9,10)] .
  obtain s1 s2 where s: "fmt_u 2 s = [s1, s2]" "parse_num [s1, s2] = (Inr (), s)" using fmt_2 [OF assms(11,12)] .
  define u where "u = h1 # h2 # CHR '':'' # m1 # m2 # CHR '':'' # s1 # s2 # z"
  define s0 where "s0 = wday_str ! wd @ '', '' @ fmt_u 1 d @ '' '' @ mon_str ! mo @ '' '' @ fmt_u 1 y @ CHR '' '' # u"
  obtain k where k: "parse_date_rfc1123 s0 date = (Inr k, y, int mo + 1, d)" "k \<le> length s0" "drop k s0 = CHR '' '' # u"
    using parse_rfc1123_date [OF assms(1-6), of "CHR '' '' # u" date] unfolding s0_def by blast
  have "h1 \<noteq> CHR ''T''" using h(2) is_digit_not by auto
  then have t: "parse_time u hms off0 = (Inr (), (h, mi, s), off)"
    unfolding u_def using parse_time_long [OF h(3) m(3) s(2) _ assms(13), of "[]" hms off0] by simp
  have n: "16 \<le> length s0" using wday_shape [OF assms(1)] by (auto simp: s0_def u_def)
  have w: "parse_wday s0 \<noteq> Inl ENOENT" unfolding s0_def by (rule parse_wday_name [OF assms(1)])
  have "parse_date_time s0 date hms off0 = (Inr (), (y, int mo + 1, d), (h, mi, s), off)"
    using n w k t by (simp add: parse_date_time_def parse_leading_date_def skip_within skip_one_eq)
  then show ?thesis unfolding s0_def u_def h(1) m(1) s(1) by simp
qed

text \<open>The year of a stamp between 1000-01-01 and 9999-12-31.\<close>

lemma gmtime_four_digits:
  assumes "- 30610224000 \<le> t" "t < 253402300800"
  shows "\<exists>tm. gmtime t = Inr tm \<and> 1000 \<le> tm_year tm + 1900 \<and> tm_year tm + 1900 < 10000"
proof -
  obtain tm where tm: "gmtime t = Inr tm" using gmtime_defined [of t] assms by auto
  define y where "y = tm_year tm + 1900"
  have v: "valid_date y (tm_mon tm) (tm_mday tm)" and h: "0 \<le> (tm_hour tm * 60 + tm_min tm) * 60 + tm_sec tm"
    "(tm_hour tm * 60 + tm_min tm) * 60 + tm_sec tm < 86400"
    using gmtime_correct(1) [OF tm] by (simp_all add: valid_tm_def y_def)
  note d = valid_date_day_of_year [OF v]
  have D: "tm_day tm = days_before_year y + (days_before_month y (tm_mon tm) + tm_mday tm - 1) - 719162"
    by (simp add: tm_day_def day_number_def y_def)
  have "t = tm_day tm * 86400 + ((tm_hour tm * 60 + tm_min tm) * 60 + tm_sec tm)"
    using gmtime_correct(2) [OF tm] by (simp add: tm_seconds_def)
  then have "- 354285 \<le> tm_day tm" "tm_day tm < 2932897" using h assms by linarith+
  moreover have "days_before_year 1000 = 364877" "days_before_year 10000 = 3652059" by (simp_all add: days_before_year_def)
  ultimately have "\<not> y < 1000" "\<not> y \<ge> 10000"
    using d D days_before_year_less [of y 1000] days_before_year_mono [of 10000 y] by linarith+
  then show ?thesis using tm by (auto simp: y_def)
qed

lemma mkepoch_rebase:
  "tm_mkepoch_local (Some (rebase (put_hms (tm_hour tm, tm_min tm, tm_sec tm) (put_date (tm_year tm + 1900, tm_mon tm + 1, tm_mday tm) tm0)))) off
   = tm_mkepoch_local (Some tm) off"
proof -
  have "rebase (put_hms (tm_hour tm, tm_min tm, tm_sec tm) (put_date (tm_year tm + 1900, tm_mon tm + 1, tm_mday tm) tm0)) =
    tm\<lparr>tm_wday := tm_wday tm0, tm_gmtoff := tm_gmtoff tm0\<rparr>"
    by (cases tm; cases tm0) (simp add: rebase_def put_hms_def put_date_def)
  then show ?thesis by simp
qed

lemma valid_tm_bounds:
  assumes "valid_tm tm"
  shows "0 \<le> tm_mon tm" "tm_mon tm < 12" "1 \<le> tm_mday tm" "tm_mday tm \<le> 31" "0 \<le> tm_hour tm" "tm_hour tm < 24"
    "0 \<le> tm_min tm" "tm_min tm < 60" "0 \<le> tm_sec tm" "tm_sec tm < 60"
proof -
  have "tm_mon tm \<in> {0, 1, 2, 3, 4, 5, 6, 7, 8, 9, 10, 11}" using assms by (simp add: valid_tm_def valid_date_def) presburger
  then have "month_days (tm_year tm + 1900) ! nat (tm_mon tm) \<le> 31" by (auto simp: month_days_def)
  then show "tm_mday tm \<le> 31" using assms by (simp add: valid_tm_def valid_date_def)
qed (use assms in \<open>simp_all add: valid_tm_def valid_date_def\<close>)

lemma length_fmt_2: "0 \<le> x \<Longrightarrow> x < 100 \<Longrightarrow> length (fmt_u 2 x) = 2"
  using fmt_2 [of x] by (metis length_Cons list.size(3) numeral_2_eq_2)

lemma length_fmt_4: "1000 \<le> x \<Longrightarrow> x < 10000 \<Longrightarrow> w = 1 \<or> w = 4 \<Longrightarrow> length (fmt_u w x) = 4"
  by (rule fmt_4 [of x w]) auto

lemma length_fmt_1: "1 \<le> x \<Longrightarrow> x < 100 \<Longrightarrow> length (fmt_u 1 x) \<le> 2"
  by (rule fmt_day [of x]) auto

text \<open>The text that the date \<open>tm\<close> with offset \<open>off\<close> is printed as.\<close>

definition printed :: "int \<Rightarrow> tm \<Rightarrow> int \<Rightarrow> string" where
  "printed fmt tm off =
    (let z = (if off < 0 then ''-'' else ''+'') in
     if fmt = TIME_FMT_ISO8601_SHORT
     then fmt_u 4 (tm_year tm + 1900) @ fmt_u 2 (tm_mon tm + 1) @ fmt_u 2 (tm_mday tm) @ ''T'' @
       fmt_u 2 (tm_hour tm) @ fmt_u 2 (tm_min tm) @ fmt_u 2 (tm_sec tm) @ z @ fmt_u 2 (zone_hour off) @ fmt_u 2 (zone_minute off)
     else if fmt = TIME_FMT_ISO8601_LONG
     then fmt_u 4 (tm_year tm + 1900) @ ''-'' @ fmt_u 2 (tm_mon tm + 1) @ ''-'' @ fmt_u 2 (tm_mday tm) @ ''T'' @
       fmt_u 2 (tm_hour tm) @ '':'' @ fmt_u 2 (tm_min tm) @ '':'' @ fmt_u 2 (tm_sec tm) @ z @ fmt_u 2 (zone_hour off) @ '':'' @ fmt_u 2 (zone_minute off)
     else wday_str ! nat (tm_wday tm) @ '', '' @ fmt_u 1 (tm_mday tm) @ '' '' @ mon_str ! nat (tm_mon tm) @ '' '' @
       fmt_u 1 (tm_year tm + 1900) @ '' '' @ fmt_u 2 (tm_hour tm) @ '':'' @ fmt_u 2 (tm_min tm) @ '':'' @ fmt_u 2 (tm_sec tm) @
       (if off = 0 then '' GMT'' else '' '' @ z @ fmt_u 2 (zone_hour off) @ fmt_u 2 (zone_minute off)))"

lemma format_prints:
  assumes "gmtime (to_s64 (e + to_u64 off)) = Inr tm" "1000 \<le> tm_year tm + 1900" "tm_year tm + 1900 < 10000" "\<bar>off\<bar> < 360000"
    and "fmt \<in> {TIME_FMT_ISO8601_SHORT, TIME_FMT_ISO8601_LONG, TIME_FMT_RFC1123}" "n \<ge> 32"
  shows "time_local_format e off fmt True n = Inr (take (n - 1) (printed fmt tm off))"
  using assms unfolding time_local_format_def printed_def zone_hour_def zone_minute_def by (auto simp: Let_def)

lemma printed_bounds:
  assumes "valid_tm tm"
  shows "0 \<le> tm_mon tm" "tm_mon tm < 12" "0 \<le> tm_mon tm + 1" "tm_mon tm + 1 < 100" "1 \<le> tm_mday tm" "0 \<le> tm_mday tm" "tm_mday tm < 100"
    "0 \<le> tm_hour tm" "tm_hour tm < 100" "0 \<le> tm_min tm" "tm_min tm < 100" "0 \<le> tm_sec tm" "tm_sec tm < 100"
  using valid_tm_bounds [OF assms] by simp_all

lemma printed_short:
  assumes "valid_tm tm" "nat (tm_wday tm) < 7" "1000 \<le> tm_year tm + 1900" "tm_year tm + 1900 < 10000" "\<bar>off\<bar> < 360000" "60 dvd off"
  shows "length (printed fmt tm off) < 32"
proof -
  note f = printed_bounds [OF assms(1)]
  have mon: "nat (tm_mon tm) < 12" using f by simp
  show ?thesis
    using f assms(3,4) zone_parts [OF assms(5,6)] wday_shape [OF assms(2)] mon_shape [OF mon] length_fmt_1 [OF f(5,7), unfolded One_nat_def]
    by (auto simp: printed_def Let_def length_fmt_2 length_fmt_4 length_fmt_1)
qed

lemma printed_parses:
  assumes "valid_tm tm" "nat (tm_wday tm) < 7" "1000 \<le> tm_year tm + 1900" "tm_year tm + 1900 < 10000" "\<bar>off\<bar> < 360000" "60 dvd off"
    and "fmt \<in> {TIME_FMT_ISO8601_SHORT, TIME_FMT_ISO8601_LONG, TIME_FMT_RFC1123}"
  shows "parse_date_time (printed fmt tm off) date hms off0 =
    (Inr (), (tm_year tm + 1900, tm_mon tm + 1, tm_mday tm), (tm_hour tm, tm_min tm, tm_sec tm), off)"
proof -
  note f = printed_bounds [OF assms(1)]
  note tz = zone_reads_short [OF assms(5,6)] zone_reads_long [OF assms(5,6)]
  consider "fmt = TIME_FMT_ISO8601_SHORT" | "fmt = TIME_FMT_ISO8601_LONG" | "fmt = TIME_FMT_RFC1123" using assms(7) by blast
  then show ?thesis
  proof cases
    case 1
    then show ?thesis
      using parse_iso_short [OF assms(3,4) f(3,4,6,7,8,9,10,11,12,13) tz(1) [of "[]", simplified]]
      by (simp add: printed_def Let_def)
  next
    case 2
    then have "fmt \<noteq> TIME_FMT_ISO8601_SHORT" by (simp add: TIME_FMT_ISO8601_SHORT_def TIME_FMT_ISO8601_LONG_def)
    with 2 show ?thesis
      using parse_iso_long [OF assms(3,4) f(3,4,6,7,8,9,10,11,12,13) tz(2)] by (simp add: printed_def Let_def)
  next
    case 3
    then have n: "fmt \<noteq> TIME_FMT_ISO8601_SHORT" "fmt \<noteq> TIME_FMT_ISO8601_LONG"
      by (simp_all add: TIME_FMT_ISO8601_SHORT_def TIME_FMT_ISO8601_LONG_def TIME_FMT_RFC1123_def)
    define q where "q = (if off = 0 then '' GMT'' else '' '' @ (if off < 0 then ''-'' else ''+'') @
      fmt_u 2 (zone_hour off) @ fmt_u 2 (zone_minute off))"
    have q: "zone_reads q off" using zone_reads_GMT tz(1) [of "'' ''"] by (simp add: q_def)
    have "nat (tm_mon tm) < 12" using f by simp
    then show ?thesis
      using parse_rfc1123 [OF assms(2) _ assms(3,4) f(5,7,8,9,10,11,12,13) q] f(1) n
      by (simp add: printed_def Let_def q_def)
  qed
qed

text \<open>
  Property C11.  A local time of the years 1000 to 9999, with an offset of whole minutes below a
  hundred hours, is printed in each of the three formats within 32 bytes, and parsing the text gives
  the same seconds and the same offset.
\<close>

theorem format_parse_roundtrip:
  assumes "t = to_s64 (e + to_u64 off)" "- 30610224000 \<le> t" "t < 253402300800"
    and "\<bar>off\<bar> < 360000" "60 dvd off"
    and "fmt \<in> {TIME_FMT_ISO8601_SHORT, TIME_FMT_ISO8601_LONG, TIME_FMT_RFC1123}" "n \<ge> 32"
  shows "\<exists>s. time_local_format e off fmt True n = Inr s \<and> length s < n \<and>
    time_local_parse tm0 off0 (Some s) True True = Inr (e, off)"
proof -
  obtain tm where tm: "gmtime t = Inr tm" and y: "1000 \<le> tm_year tm + 1900" "tm_year tm + 1900 < 10000"
    using gmtime_four_digits [OF assms(2,3)] by blast
  have v: "valid_tm tm" "nat (tm_wday tm) < 7" using gmtime_correct(1,3) [OF tm] by simp_all
  have "time_local_parse tm0 off0 (Some (printed fmt tm off)) True True = Inr (e, off)"
    using tm_mkepoch_gmtime [OF assms(1) tm] y
    by (simp add: time_local_parse_def printed_parses [OF v y assms(4-6)] mkepoch_rebase)
  then show ?thesis
    using format_prints [OF tm [unfolded assms(1)] y assms(4,6,7)] printed_short [OF v y assms(4,5), of fmt] assms(7) by simp
qed

theorem format_parse_roundtrip_witness:
  "\<exists>s. time_local_format 1534167595 (-7260) TIME_FMT_RFC1123 True 32 = Inr s \<and>
    time_local_parse tm_zero 0 (Some s) True True = Inr (1534167595, -7260)"
  using format_parse_roundtrip [of 1534160335 1534167595 "-7260" TIME_FMT_RFC1123 32 tm_zero 0]
  by (simp add: to_u64_def to_s64_def) blast

section \<open>Months outside the table\<close>

lemma mkepoch_fault_iff:
  assumes "- (2 ^ 31) \<le> tm_mon tm" "tm_mon tm < 2 ^ 31 - 1" "tm_year tm < 2 ^ 31 - 1900"
  shows "tm_mkepoch_local (Some tm) off = Inl Fault \<longleftrightarrow> tm_mon tm < -11 \<or> 13 < tm_mon tm"
proof -
  define m where "m = tm_mon tm"
  define w where "w = (of_int (m + 1) - 2 :: u32)"
  define v where "v = (if sint w \<le> 0 then w + 12 else w)"
  have g: "\<not> (tm_year tm + 1900 \<ge> 2 ^ 31 \<or> tm_mon tm + 1 \<ge> 2 ^ 31)" using assms by simp
  have "tm_mkepoch_local (Some tm) off = Inl Fault \<longleftrightarrow> unat v \<ge> 13"
    using g unfolding tm_mkepoch_local_def option.case if_not_P [OF g] Let_def m_def [symmetric] w_def [symmetric] v_def
    by (simp add: cumulative_nb_day_per_month_def)
  moreover have "unat v < 13 \<longleftrightarrow> -11 \<le> m \<and> m \<le> 13"
  proof (cases "m = - (2 ^ 31)")
    case True
    then show ?thesis by (simp add: v_def w_def)
  next
    case False
    have w: "w = of_int (m - 1)" by (simp add: w_def)
    have sw: "sint w = m - 1"
      using to_i32_id [of "m - 1"] assms(1,2) False unfolding w m_def by (simp only: to_i32_def)
    show ?thesis
    proof (cases "m - 1 \<le> 0")
      case True
      then have v: "v = of_int (m + 11)" by (simp add: v_def sw) (simp add: w)
      show ?thesis
      proof (cases "m + 11 \<ge> 0")
        case True
        then have "uint v = m + 11" using \<open>m - 1 \<le> 0\<close> unfolding v by (intro uint_of_int32) simp_all
        then show ?thesis using True \<open>m - 1 \<le> 0\<close> by (simp add: unat_eq_nat_uint nat_less_iff)
      next
        case False
        have "uint (of_int k :: u32) = k mod 2 ^ 32" for k by (simp add: uint_word_of_int)
        then have "uint v = (m + 11) mod 2 ^ 32" unfolding v .
        also have "\<dots> = m + 11 + 2 ^ 32"
          using False assms(1) unfolding m_def [symmetric] by (intro int_mod_pos_eq [where q = "-1"]) simp_all
        finally show ?thesis using False assms(1) by (simp add: unat_eq_nat_uint nat_less_iff m_def)
      qed
    next
      case False
      then have v: "v = of_int (m - 1)" by (simp add: v_def sw) (simp add: w)
      have "uint v = m - 1" using False assms(2) unfolding v m_def by (intro uint_of_int32) simp_all
      then show ?thesis using False by (simp add: unat_eq_nat_uint nat_less_iff) linarith
    qed
  qed
  ultimately show "tm_mkepoch_local (Some tm) off = Inl Fault \<longleftrightarrow> tm_mon tm < -11 \<or> 13 < tm_mon tm"
    by (auto simp: m_def)
qed

lemma parse_month_15:
  "parse_date_time ''2018-15-01T00:00:00Z'' date hms off0 = (Inr (), (2018, 15, 1), (0, 0, 0), 0)"
proof -
  have n: "parse_num ''2018'' = (Inr (), 2018)" "parse_num ''15'' = (Inr (), 15)" "parse_num ''01'' = (Inr (), 1)" "parse_num ''00'' = (Inr (), 0)"
    using parse_num_digits [of "''2018''"] parse_num_digits [of "''15''"] parse_num_digits [of "''01''"] parse_num_digits [of "''00''"]
    by (simp_all add: number_value_def is_digit_def digit_value_def)
  have "zone_reads ''Z'' 0" by (rule zone_readsI [OF _ n(4) n(4), of _ 1]) (simp_all add: zone_defs)
  then have "parse_time (''T'' @ ''00:00:00Z'') hms off0 = (Inr (), (0, 0, 0), 0)"
    using parse_time_long [OF n(4) n(4) n(4) _ _, of "''Z''" 0 "''T''" hms off0] by simp
  then show ?thesis
    using parse_wday_digit [of "CHR ''2''"]
    by (simp add: date_defs parse_nums_ok [OF n(1,2,3)] is_digit_def digit_value_def)
qed

section \<open>The numbers a text can hold\<close>

lemma number_value_bounds:
  "list_all is_digit ds \<Longrightarrow> 0 \<le> number_value ds \<and> number_value ds < 10 ^ length ds"
proof (induction ds rule: rev_induct)
  case (snoc c ds)
  then have "0 \<le> digit_value c" "digit_value c \<le> 9" "0 \<le> number_value ds" "number_value ds + 1 \<le> 10 ^ length ds"
    by (simp_all add: is_digit_def)
  moreover have "number_value (ds @ [c]) = 10 * number_value ds + digit_value c" by (simp add: number_value_def)
  ultimately show ?case by simp
qed (simp add: number_value_def)

lemma parse_num_bounds:
  assumes "length s \<le> k" "0 < k" "k \<le> 4"
  shows "- (10 ^ (k - 1)) < snd (parse_num s) \<and> snd (parse_num s) < 10 ^ k"
proof -
  define s' where "s' = c_string s"
  have s': "length s' \<le> k" using assms(1) length_takeWhile_le [of _ s] by (simp add: s'_def c_string_def) (meson le_trans)
  define t where "t = dropWhile is_space s'"
  define u where "u = (if t \<noteq> [] \<and> hd t \<in> {CHR ''-'', CHR ''+''} then tl t else t)"
  define ds where "ds = takeWhile is_digit u"
  define n where "n = (if t \<noteq> [] \<and> hd t = CHR ''-'' then - number_value ds else number_value ds)"
  have len: "length ds \<le> length u" "length t \<le> k"
    using s' unfolding ds_def t_def by (simp_all add: length_takeWhile_le) (meson le_trans length_dropWhile_le)
  have v: "0 \<le> number_value ds" "number_value ds < 10 ^ length ds"
    using number_value_bounds [of ds] by (auto simp: ds_def list_all_iff dest: set_takeWhileD)
  have pos: "number_value ds < 10 ^ k"
  proof -
    have "length ds \<le> k" using len by (simp add: u_def split: if_splits)
    then have "(10 :: int) ^ length ds \<le> 10 ^ k" by simp
    then show ?thesis using v by linarith
  qed
  have neg: "number_value ds < 10 ^ (k - 1)" if "t \<noteq> []" "hd t = CHR ''-''"
  proof -
    have "length ds \<le> k - 1" using len that by (simp add: u_def)
    then have "(10 :: int) ^ length ds \<le> 10 ^ (k - 1)" by (intro power_increasing) simp_all
    then show ?thesis using v by linarith
  qed
  have p: "(0 :: int) < 10 ^ (k - 1)" "(10 :: int) ^ (k - 1) \<le> 10 ^ 4" "(10 :: int) ^ k \<le> 10 ^ 4" "(0 :: int) < 10 ^ k"
  proof -
    have "k \<in> {1, 2, 3, 4}" using assms(2,3) by auto
    then show "(10 :: int) ^ (k - 1) \<le> 10 ^ 4" "(10 :: int) ^ k \<le> 10 ^ 4" by auto
  qed simp_all
  have n: "- P < n \<and> n < Q" if "P > 0" "Q > 0" "number_value ds < Q" "t \<noteq> [] \<Longrightarrow> hd t = CHR ''-'' \<Longrightarrow> number_value ds < P" for P Q
    using v(1) that by (auto simp: n_def)
  note n = n [OF p(1,4) pos neg]
  have st: "strtol10 s' = (if ds = [] then (0, s', False)
      else (max (- (2 ^ 63)) (min (2 ^ 63 - 1) n), dropWhile is_digit u, n < - (2 ^ 63) \<or> n \<ge> 2 ^ 63))"
    unfolding strtol10_def t_def [symmetric] u_def [symmetric] ds_def [symmetric] n_def [symmetric] Let_def by (rule refl)
  have nb: "- 10000 < n" "n < 10000" using n p by simp_all
  have "snd (parse_num s) = (if ds = [] then 0 else n)"
    using nb by (simp add: parse_num_def st to_i32_id flip: s'_def)
  then show ?thesis using n p by simp
qed

text \<open>No parser stops with undefined behaviour.\<close>

lemma parse_num_no_fault: "fst (parse_num s) \<noteq> Inl Fault"
  by (simp add: parse_num_def case_prod_unfold Let_def)

lemma parse_nums_no_fault: "fst (parse_nums ss out) \<noteq> Inl Fault"
proof -
  obtain a b c where ss: "ss = (a, b, c)" by (rule prod_cases3)
  obtain r1 x1 where 1: "parse_num a = (r1, x1)" by (rule prod.exhaust)
  obtain r2 x2 where 2: "parse_num b = (r2, x2)" by (rule prod.exhaust)
  obtain r3 x3 where 3: "parse_num c = (r3, x3)" by (rule prod.exhaust)
  have "r1 \<noteq> Inl Fault" "r2 \<noteq> Inl Fault" "r3 \<noteq> Inl Fault"
    using parse_num_no_fault [of a] parse_num_no_fault [of b] parse_num_no_fault [of c] by (simp_all add: 1 2 3)
  then show ?thesis
    by (cases out; cases r1; cases r2; cases r3) (simp_all add: parse_nums_def ss 1 2 3)
qed

lemma parse_nums_values:
  assumes "fst (parse_nums (a, b, c) out) = Inr u"
  shows "snd (parse_nums (a, b, c) out) = (snd (parse_num a), snd (parse_num b), snd (parse_num c))"
proof -
  obtain r1 x1 where 1: "parse_num a = (r1, x1)" by (rule prod.exhaust)
  obtain r2 x2 where 2: "parse_num b = (r2, x2)" by (rule prod.exhaust)
  obtain r3 x3 where 3: "parse_num c = (r3, x3)" by (rule prod.exhaust)
  show ?thesis using assms
    by (cases out; cases r1; cases r2; cases r3) (simp_all add: parse_nums_def 1 2 3)
qed

definition small_date :: "int \<times> int \<times> int \<Rightarrow> bool" where
  "small_date = (\<lambda>(y, m, d). - 999 \<le> y \<and> y \<le> 9999 \<and> - 9 \<le> m \<and> m \<le> 99 \<and> - 9 \<le> d \<and> d \<le> 99)"

lemma small_dateI:
  assumes "length ys \<le> 4" "- 9 \<le> m" "m \<le> 99" "length ds \<le> 2"
  shows "small_date (snd (parse_num ys), m, snd (parse_num ds))"
  using parse_num_bounds [of ys 4] parse_num_bounds [of ds 2] assms by (simp add: small_date_def)

lemma with_out_fault: "fst (with_out r f out) = Inl Fault \<longleftrightarrow> r = Inl Fault \<or> (\<exists>x. r = Inr x \<and> fst (f x out) = Inl Fault)"
  by (cases r) (simp_all add: with_out_def)

lemma with_out_Inr: "fst (with_out r f out) = Inr u \<Longrightarrow> \<exists>x. r = Inr x \<and> with_out r f out = f x out"
  by (cases r) (simp_all add: with_out_def)

lemma parse_date_small:
  "n \<le> length s \<Longrightarrow> fst (parse_date s n out) \<noteq> Inl Fault"
  "n \<le> length s \<Longrightarrow> fst (parse_date s n out) = Inr u \<Longrightarrow> small_date (snd (parse_date s n out))"
proof -
  assume n: "n \<le> length s"
  have s: "n = 10 \<Longrightarrow> s \<noteq> []" "n = 8 \<Longrightarrow> s \<noteq> []" using n by auto
  have t: "texts_at s ([0, 1, 2, 3], [5, 6], [8, 9]) = Inr ([s ! 0, s ! 1, s ! 2, s ! 3], [s ! 5, s ! 6], [s ! 8, s ! 9])" if "n = 10"
    using n that s by (simp add: texts_at_def char_at_within)
  have u: "texts_at s ([0, 1, 2, 3], [4, 5], [6, 7]) = Inr ([s ! 0, s ! 1, s ! 2, s ! 3], [s ! 4, s ! 5], [s ! 6, s ! 7])" if "n = 8"
    using n that s by (simp add: texts_at_def char_at_within)
  have g: "and_then (Inr (n = 10)) (and_then (is_at s 4 (CHR ''-'')) (is_at s 7 (CHR ''-''))) = Inr (n = 10 \<and> s ! 4 = CHR ''-'' \<and> s ! 7 = CHR ''-'')"
    using n by (cases "n = 10"; cases "s ! 4 = CHR ''-''") (simp_all add: is_at_within)
  have eq: "parse_date s n out = (if n = 10 \<and> s ! 4 = CHR ''-'' \<and> s ! 7 = CHR ''-''
     then parse_nums ([s ! 0, s ! 1, s ! 2, s ! 3], [s ! 5, s ! 6], [s ! 8, s ! 9]) out
     else if n = 8 then parse_nums ([s ! 0, s ! 1, s ! 2, s ! 3], [s ! 4, s ! 5], [s ! 6, s ! 7]) out else (Inl EINVAL, out))"
    unfolding parse_date_def with_out_def g by (auto simp: t u simp del: One_nat_def)
  show "fst (parse_date s n out) \<noteq> Inl Fault" by (simp add: eq parse_nums_no_fault)
  assume p: "fst (parse_date s n out) = Inr u"
  have k: "small_date (snd (parse_nums ([a, b, c, d], [e, f], [g, h]) out))"
    if "fst (parse_nums ([a, b, c, d], [e, f], [g, h]) out) = Inr u" for a b c d e f g h
    unfolding parse_nums_values [OF that] using parse_num_bounds [of "[e, f]" 2] by (intro small_dateI) simp_all
  show "small_date (snd (parse_date s n out))"
    using p unfolding eq by (auto simp: k split: if_splits)
qed

lemma name_index_bound: "name_index ns s i = Some j \<Longrightarrow> j < i + length ns"
  by (induction ns s i rule: name_index.induct) (auto split: if_splits)

lemma parse_mon_bound: "parse_mon s = Inr m \<Longrightarrow> 1 \<le> m \<and> m \<le> 12"
  using name_index_bound [of mon_str s 0] by (auto simp: parse_mon_def mon_str_def split: option.splits)

text \<open>In a text of 16 characters the date of RFC 1123 is read within the text.\<close>

lemma rfc_mday_within:
  assumes "i + 1 < length s"
  obtains d j where "rfc_mday s i = Inr (d, j)" "length d \<le> 2" "j \<le> i + 3"
  using assms that by (cases "s ! (i + 1) = CHR '' ''") (simp_all add: rfc_mday_def char_at_within is_at_within)

lemma rfc_mon_within: "i + 2 < length s \<Longrightarrow> rfc_mon s i = Inr ([s ! i, s ! (i + 1), s ! (i + 2)], i + 4)"
  by (simp add: rfc_mon_def char_at_within)

lemma rfc_parts_within:
  assumes "16 \<le> length s"
  obtains d m k where "rfc_parts s = Inr (d, m, k)" "length d \<le> 2" "k \<le> 12"
proof (cases "is_digit (s ! 5)")
  case True
  obtain d j where "rfc_mday s 5 = Inr (d, j)" "length d \<le> 2" "j \<le> 8" using rfc_mday_within [of 5 s] assms by auto
  then show thesis using that [of d] True assms by (simp add: rfc_parts_def char_at_within rfc_mon_within)
next
  case False
  obtain d j where "rfc_mday s 9 = Inr (d, j)" "length d \<le> 2" "j \<le> 12" using rfc_mday_within [of 9 s] assms by auto
  then show thesis using that [of d] False assms by (simp add: rfc_parts_def char_at_within rfc_mon_within)
qed

lemma rfc_texts_within:
  assumes "16 \<le> length s"
  shows "rfc_texts s = Inl EINVAL \<or> (\<exists>d m y k. rfc_texts s = Inr (d, m, y, k) \<and> length d \<le> 2 \<and> length y \<le> 4 \<and> k \<le> 16)"
proof -
  obtain d m k where p: "rfc_parts s = Inr (d, m, k)" "length d \<le> 2" "k \<le> 12" using rfc_parts_within [OF assms] .
  have "chars_at s [k, k + 1, k + 2, k + 3] = Inr (map ((!) s) [k, k + 1, k + 2, k + 3])"
    using assms p(3) by (intro chars_at_within) simp
  moreover have "s \<noteq> []" using assms by auto
  ultimately show ?thesis using assms p by (cases "s ! 3 = CHR '',''") (simp_all add: rfc_texts_def is_at_within char_at_within)
qed

lemma parse_rfc1123_small:
  assumes "16 \<le> length s"
  shows "fst (parse_date_rfc1123 s out) \<noteq> Inl Fault"
    "fst (parse_date_rfc1123 s out) = Inr u \<Longrightarrow> small_date (snd (parse_date_rfc1123 s out)) \<and> u \<le> 16"
proof -
  have *: "fst (parse_date_rfc1123 s out) \<noteq> Inl Fault \<and>
    (fst (parse_date_rfc1123 s out) = Inr u \<longrightarrow> small_date (snd (parse_date_rfc1123 s out)) \<and> u \<le> 16)"
  proof (cases "rfc_texts s = Inl EINVAL")
    case False
    then obtain d m ys k where t: "rfc_texts s = Inr (d, m, ys, k)" "length d \<le> 2" "length ys \<le> 4" "k \<le> 16"
      using rfc_texts_within [OF assms] by blast
    obtain r1 x1 where 1: "parse_num ys = (r1, x1)" by (rule prod.exhaust)
    obtain r3 x3 where 3: "parse_num d = (r3, x3)" by (rule prod.exhaust)
    obtain y m0 d0 where out: "out = (y, m0, d0)" by (rule prod_cases3)
    have eq: "parse_date_rfc1123 s out = (case r1 of Inl e \<Rightarrow> (Inl e, x1, m0, d0) | Inr _ \<Rightarrow>
          (case parse_mon m of Inl e \<Rightarrow> (Inl e, x1, m0, d0) | Inr mon \<Rightarrow>
          (case r3 of Inl e \<Rightarrow> (Inl e, x1, mon, x3) | Inr _ \<Rightarrow> (Inr k, x1, mon, x3))))"
      unfolding parse_date_rfc1123_def with_out_def t out prod.case sum.case Let_def 1 3 by simp
    have f: "r1 \<noteq> Inl Fault" "r3 \<noteq> Inl Fault" "parse_mon m \<noteq> Inl Fault"
      using parse_num_no_fault [of ys] parse_num_no_fault [of d] by (simp_all add: 1 3 parse_mon_def split: option.split)
    have "small_date (x1, mon, x3)" if "parse_mon m = Inr mon" for mon
      using small_dateI [OF t(3) _ _ t(2), of mon] parse_mon_bound [OF that] by (simp add: 1 3)
    then show ?thesis using f t(4) unfolding eq by (cases r1; cases r3; cases "parse_mon m") auto
  qed (simp add: parse_date_rfc1123_def with_out_def)
  then show "fst (parse_date_rfc1123 s out) \<noteq> Inl Fault" by blast
  show "fst (parse_date_rfc1123 s out) = Inr u \<Longrightarrow> small_date (snd (parse_date_rfc1123 s out)) \<and> u \<le> 16" using * by blast
qed

lemma date_end_guarded: "k \<le> length s \<Longrightarrow> \<exists>b. date_end s k = Inr b"
  by (cases "k = length s") (auto simp: date_end_def is_at_def char_at_def or_else_def)

lemma parse_leading_date_small:
  "fst (parse_leading_date s out) \<noteq> Inl Fault"
  "fst (parse_leading_date s out) = Inr u \<Longrightarrow> small_date (snd (parse_leading_date s out)) \<and> u \<le> length s"
proof -
  define pd where "pd n = (case parse_date s n out of (r, date) \<Rightarrow> (bindR r (\<lambda>_. Inr n), date))" for n :: nat
  have b: "fst (pd n) \<noteq> Inl Fault \<and> (\<forall>u. fst (pd n) = Inr u \<longrightarrow> small_date (snd (pd n)) \<and> u = n)" if "n \<le> length s" for n
    using parse_date_small [OF that, of out] by (cases "parse_date s n out"; cases "fst (parse_date s n out)") (simp_all add: pd_def)
  have "parse_leading_date s out = parse_date_rfc1123 s out \<and> 16 \<le> length s \<or> parse_leading_date s out = pd 10 \<and> 10 \<le> length s \<or>
    parse_leading_date s out = pd 8 \<and> 8 \<le> length s \<or> parse_leading_date s out = (Inl EINVAL, out)"
    using date_end_guarded [of 10 s] date_end_guarded [of 8 s]
    by (cases "10 \<le> length s"; cases "8 \<le> length s") (auto simp: parse_leading_date_def Let_def with_out_def pd_def split: if_splits)
  then have "fst (parse_leading_date s out) \<noteq> Inl Fault \<and>
    (fst (parse_leading_date s out) = Inr u \<longrightarrow> small_date (snd (parse_leading_date s out)) \<and> u \<le> length s)" for u
    using b [of 10] b [of 8] parse_rfc1123_small [of s out] by (elim disjE) auto
  then show "fst (parse_leading_date s out) \<noteq> Inl Fault"
    "fst (parse_leading_date s out) = Inr u \<Longrightarrow> small_date (snd (parse_leading_date s out)) \<and> u \<le> length s" by blast+
qed

lemma zone_sign_within: "s \<noteq> [] \<Longrightarrow> zone_sign s = Inr (hd s = CHR ''-'' \<or> hd s = CHR ''+'')"
  by (cases s) (auto simp: zone_sign_def is_at_def or_else_def)

lemma parse_zone_no_fault: "parse_zone s \<noteq> Inl Fault"
proof -
  have z: "zone_texts s [1, 2] [4, 5] \<noteq> Inl Fault" if "length s = 6"
    using that by (simp add: zone_texts_def is_at_within char_at_within)
  have z': "zone_texts s [1, 2] [3, 4] \<noteq> Inl Fault" if "length s = 5"
    using that by (simp add: zone_texts_def is_at_within char_at_within)
  consider "length s = 6" | "length s = 5" | "length s \<noteq> 6" "length s \<noteq> 5" by blast
  then show ?thesis
  proof cases
    case 1
    then have "s \<noteq> []" by auto
    then show ?thesis using 1 z by (simp add: parse_zone_def zone_sign_within is_at_within text_is_eq and_then_def or_else_def)
  next
    case 2
    then have "s \<noteq> []" by auto
    then show ?thesis using 2 z' by (simp add: parse_zone_def zone_sign_within is_at_within text_is_eq and_then_def or_else_def)
  next
    case 3
    then show ?thesis by (simp add: parse_zone_def text_is_eq or_else_def)
  qed
qed

lemma parse_offset_no_fault: "parse_offset s \<noteq> Inl Fault"
proof -
  define z where "z = (if s \<noteq> [] \<and> hd s = CHR '' '' then tl s else s)"
  have s: "skip_one (CHR '' '') s = Inr z" by (simp add: skip_one_eq z_def)
  show ?thesis
  proof (cases "parse_zone z")
    case (Inl e)
    then show ?thesis using parse_zone_no_fault [of z] by (simp add: parse_offset_def s)
  next
    case (Inr x)
    obtain sg h m where x: "x = (sg, h, m)" by (rule prod_cases3)
    show ?thesis
      using parse_num_no_fault [of h] parse_num_no_fault [of m]
      unfolding parse_offset_def s bindR_simps Let_def Inr x
      by (cases "parse_num h"; cases "parse_num m"; cases "fst (parse_num h)"; cases "fst (parse_num m)") simp_all
  qed
qed

lemma time_parts_no_fault: "time_parts s \<noteq> Inl Fault"
proof -
  obtain t where s: "skip_one (CHR ''T'') s = Inr t" by (simp add: skip_one_eq)
  consider "8 \<le> length t" | "6 \<le> length t" "length t < 8" | "length t < 6" by linarith
  then show ?thesis
  proof cases
    case 1
    then have "t \<noteq> []" by auto
    with 1 show ?thesis
      by (simp add: time_parts_def s and_then_def is_at_within texts_at_def char_at_within skip_within)
  next
    case 2
    then have "t \<noteq> []" by auto
    with 2 show ?thesis by (simp add: time_parts_def s texts_at_def char_at_within skip_within)
  next
    case 3
    then show ?thesis by (simp add: time_parts_def s)
  qed
qed

lemma parse_time_no_fault: "fst (parse_time s hms off) \<noteq> Inl Fault"
proof (cases "time_parts s")
  case (Inr x)
  then show ?thesis
    using parse_nums_no_fault [of "fst x" hms] parse_offset_no_fault [of "snd x"]
    by (cases "parse_nums (fst x) hms") (auto simp: parse_time_def case_prod_unfold Let_def split: sum.splits)
qed (use time_parts_no_fault in \<open>auto simp: parse_time_def\<close>)

lemma parse_date_time_small:
  "fst (parse_date_time s date hms off) \<noteq> Inl Fault"
  "fst (parse_date_time s date hms off) = Inr u \<Longrightarrow> small_date (fst (snd (parse_date_time s date hms off)))"
proof -
  obtain r x where l: "parse_leading_date s date = (r, x)" by (rule prod.exhaust)
  have r: "r \<noteq> Inl Fault" "\<And>u. r = Inr u \<Longrightarrow> small_date x \<and> u \<le> length s"
    using parse_leading_date_small [of s date] by (simp_all add: l)
  show "fst (parse_date_time s date hms off) \<noteq> Inl Fault"
    using r parse_time_no_fault
    by (cases r) (simp_all add: parse_date_time_def l Let_def case_prod_unfold skip_within skip_one_eq)
  show "small_date (fst (snd (parse_date_time s date hms off)))" if "fst (parse_date_time s date hms off) = Inr u"
    using r that by (cases r) (simp_all add: parse_date_time_def l Let_def case_prod_unfold skip_within skip_one_eq)
qed

text \<open>
  Property C14.  For every text, \<open>time_local_parse\<close> has undefined behaviour exactly when the text parses
  with a month above 14, which no check refuses: the month table is then read outside its 13 entries.
  \<open>2018-15-01T00:00:00Z\<close> is such a text.
\<close>

theorem parse_month_fault:
  "(time_local_parse tm0 off0 (Some s) True True = Inl Fault \<longleftrightarrow>
      (\<exists>y mo d h. spec_time s = Inr ((y, mo, d), h) \<and> 14 < mo)) \<and>
   time_local_parse tm0 off0 (Some ''2018-15-01T00:00:00Z'') True True = Inl Fault"
proof
  show main: "time_local_parse tm0 off0 (Some s) True True = Inl Fault \<longleftrightarrow>
      (\<exists>y mo d h. spec_time s = Inr ((y, mo, d), h) \<and> 14 < mo)" for s
  proof (cases "spec_time s")
    case (Inl e)
    have e: "fst (parse_date_time s (get_date tm0) (get_hms tm0) off0) = Inl e" by (rule spec_time_failed [OF Inl])
    then have "e \<noteq> Fault" using parse_date_time_small(1) by metis
    then show ?thesis using e Inl by (simp add: time_local_parse_def case_prod_unfold Let_def)
  next
    case (Inr v)
    obtain y mo d hms off where v: "v = ((y, mo, d), (hms, off))" by (metis prod.exhaust)
    note p = spec_time_parsed [OF Inr]
    have "small_date (y, mo, d)" using parse_date_time_small(2) [of s "(0, 0, 0)" "(0, 0, 0)" 0] by (simp add: p v)
    then have b: "y \<le> 9999" "- 9 \<le> mo" "mo \<le> 99" by (simp_all add: small_date_def)
    define tm where "tm = rebase (put_hms hms (put_date (y, mo, d) tm0))"
    obtain hh mm ss where hms: "hms = (hh, mm, ss)" by (rule prod_cases3)
    have m: "tm_mon tm = mo - 1" "tm_year tm = y - 1900" by (simp_all add: tm_def hms rebase_def put_hms_def put_date_def)
    have "tm_mkepoch_local (Some tm) off = Inl Fault \<longleftrightarrow> 14 < mo"
      using mkepoch_fault_iff [of tm off] b by (simp add: m)
    then show ?thesis
      using Inr by (cases "tm_mkepoch_local (Some tm) off") (simp_all add: time_local_parse_def p v tm_def hms)
  qed
  show "time_local_parse tm0 off0 (Some ''2018-15-01T00:00:00Z'') True True = Inl Fault"
    unfolding main by (simp add: spec_time_def parse_month_15)
qed

end
