(* ===== verification/Fdutils.thy ===== *)
theory Fdutils
  imports Prelude
begin

text \<open>
  Component \<open>fdutils\<close> (src/src/fdutils.c): descriptor and status flags.

  \<open>fcntl\<close> is given by its four operations on a state of the kernel: reading and setting the
  descriptor flags (\<open>F_GETFD\<close>, \<open>F_SETFD\<close>) and the status flags (\<open>F_GETFL\<close>, \<open>F_SETFL\<close>).
\<close>

record 's fcntl_ops =
  f_getfd :: "'s \<Rightarrow> int \<Rightarrow> int res"
  f_setfd :: "'s \<Rightarrow> int \<Rightarrow> int \<Rightarrow> unit res \<times> 's"
  f_getfl :: "'s \<Rightarrow> int \<Rightarrow> int res"
  f_setfl :: "'s \<Rightarrow> int \<Rightarrow> int \<Rightarrow> unit res \<times> 's"

definition FD_CLOEXEC :: int where
  "FD_CLOEXEC = 1"

definition fd_set_close_on_exec :: "'s fcntl_ops \<Rightarrow> int \<Rightarrow> 's \<Rightarrow> unit res \<times> 's" where
  "fd_set_close_on_exec k fd s = (case f_getfd k s fd of
     Inl e \<Rightarrow> (Inl e, s)
   | Inr old \<Rightarrow> f_setfd k s fd (FD_CLOEXEC OR old))"

definition fd_has_close_on_exec :: "'s fcntl_ops \<Rightarrow> int \<Rightarrow> 's \<Rightarrow> int" where
  "fd_has_close_on_exec k fd s = (case f_getfd k s fd of
     Inl e \<Rightarrow> 0
   | Inr flags \<Rightarrow> if flags AND FD_CLOEXEC \<noteq> 0 then 1 else 0)"

definition fd_add_flags :: "'s fcntl_ops \<Rightarrow> int \<Rightarrow> int \<Rightarrow> 's \<Rightarrow> unit res \<times> 's" where
  "fd_add_flags k fd flags s = (case f_getfl k s fd of
     Inl e \<Rightarrow> (Inl e, s)
   | Inr old \<Rightarrow> f_setfl k s fd (old OR flags))"

section \<open>What the kernel promises\<close>

text \<open>
  Setting flags that can be set makes them readable, touches neither the other kind of flags nor
  another descriptor, and a failing call changes nothing.  \<open>settable\<close>: the status flags that
  \<open>F_SETFL\<close> changes; it ignores the others.
\<close>

locale fcntl_kernel =
  fixes k :: "'s fcntl_ops" and settable :: int
  assumes getfd_setfd: "f_setfd k s fd f = (Inr (), s') \<Longrightarrow> f_getfd k s' fd' = (if fd' = fd then Inr (f AND FD_CLOEXEC) else f_getfd k s fd')"
    and getfl_setfd: "f_setfd k s fd f = (Inr (), s') \<Longrightarrow> f_getfl k s' fd' = f_getfl k s fd'"
    and getfl_setfl: "f_getfl k s fd = Inr old \<Longrightarrow> f_setfl k s fd f = (Inr (), s') \<Longrightarrow>
      f_getfl k s' fd' = (if fd' = fd then Inr (old AND NOT settable OR f AND settable) else f_getfl k s fd')"
    and getfd_setfl: "f_setfl k s fd f = (Inr (), s') \<Longrightarrow> f_getfd k s' fd' = f_getfd k s fd'"
    and setfd_error: "f_setfd k s fd f = (Inl e, s') \<Longrightarrow> s' = s"
    and setfl_error: "f_setfl k s fd f = (Inl e, s') \<Longrightarrow> s' = s"
begin

lemma set_close_on_exec:
  assumes "fd_set_close_on_exec k fd s = (r, s')"
  shows "(r = Inr () \<longrightarrow> fd_has_close_on_exec k fd s' = 1 \<and> f_getfl k s' fd = f_getfl k s fd) \<and>
    (r \<noteq> Inr () \<longrightarrow> s' = s) \<and>
    (\<forall>fd'. fd' \<noteq> fd \<longrightarrow> fd_has_close_on_exec k fd' s' = fd_has_close_on_exec k fd' s)"
proof (cases "f_getfd k s fd")
  case (Inl e)
  then show ?thesis using assms by (auto simp: fd_set_close_on_exec_def)
next
  case (Inr old)
  then have set: "f_setfd k s fd (FD_CLOEXEC OR old) = (r, s')" using assms by (simp add: fd_set_close_on_exec_def)
  show ?thesis
  proof (cases r)
    case (Inl e)
    then have "s' = s" using setfd_error set by blast
    then show ?thesis using Inl by simp
  next
    case (Inr u)
    then have "r = Inr ()" by simp
    note g = getfd_setfd [OF set [unfolded this]] and l = getfl_setfd [OF set [unfolded this]]
    have "(FD_CLOEXEC OR old) AND FD_CLOEXEC = FD_CLOEXEC"
      by (rule bit_eqI) (auto simp: bit_simps)
    then show ?thesis using \<open>r = Inr ()\<close> by (simp add: fd_has_close_on_exec_def g l FD_CLOEXEC_def)
  qed
qed

lemma add_flags:
  assumes "fd_add_flags k fd flags s = (r, s')"
  shows "(r = Inr () \<longrightarrow> (\<exists>old. f_getfl k s fd = Inr old \<and> f_getfl k s' fd = Inr (old OR flags AND settable))) \<and>
    (r \<noteq> Inr () \<longrightarrow> s' = s) \<and>
    (\<forall>fd'. fd_has_close_on_exec k fd' s' = fd_has_close_on_exec k fd' s)"
proof (cases "f_getfl k s fd")
  case (Inl e)
  then show ?thesis using assms by (auto simp: fd_add_flags_def)
next
  case (Inr old)
  then have set: "f_setfl k s fd (old OR flags) = (r, s')" using assms by (simp add: fd_add_flags_def)
  show ?thesis
  proof (cases r)
    case (Inl e)
    then have "s' = s" using setfl_error set by blast
    then show ?thesis using Inl by simp
  next
    case (Inr u)
    then have r: "r = Inr ()" by simp
    note g = getfl_setfl [OF \<open>f_getfl k s fd = Inr old\<close> set [unfolded r]] and d = getfd_setfl [OF set [unfolded r]]
    have "old AND NOT settable OR (old OR flags) AND settable = old OR flags AND settable"
      by (rule bit_eqI) (auto simp: bit_simps)
    then show ?thesis using r \<open>f_getfl k s fd = Inr old\<close> by (simp add: fd_has_close_on_exec_def g d)
  qed
qed

end

section \<open>A table of descriptors\<close>

text \<open>The flags of every open descriptor; \<open>EBADF\<close> (9) for the others.\<close>

type_synonym fd_table = "int \<Rightarrow> (int \<times> int) option"

definition status_settable :: int where
  "status_settable = 0x46C00"

definition table_ops :: "fd_table fcntl_ops" where
  "table_ops = \<lparr>
     f_getfd = (\<lambda>t fd. case t fd of None \<Rightarrow> Inl (Errno 9) | Some (d, l) \<Rightarrow> Inr d),
     f_setfd = (\<lambda>t fd f. case t fd of None \<Rightarrow> (Inl (Errno 9), t) | Some (d, l) \<Rightarrow> (Inr (), t(fd \<mapsto> (f AND FD_CLOEXEC, l)))),
     f_getfl = (\<lambda>t fd. case t fd of None \<Rightarrow> Inl (Errno 9) | Some (d, l) \<Rightarrow> Inr l),
     f_setfl = (\<lambda>t fd f. case t fd of None \<Rightarrow> (Inl (Errno 9), t)
       | Some (d, l) \<Rightarrow> (Inr (), t(fd \<mapsto> (d, l AND NOT status_settable OR f AND status_settable))))\<rparr>"

interpretation fd_table: fcntl_kernel table_ops status_settable
  by unfold_locales (auto simp: table_ops_def split: option.splits if_splits)

text \<open>
  On a table of descriptors, setting close-on-exec succeeds exactly for the open descriptors and makes
  the query return 1; adding status flags adds those that can be set and keeps the rest.  Neither
  disturbs another descriptor or the other kind of flags, and a failing call changes nothing.
\<close>

theorem fd_set_close_on_exec_correct:
  assumes "fd_set_close_on_exec table_ops fd t = (r, t')"
  shows "(r = Inr () \<longleftrightarrow> t fd \<noteq> None) \<and>
    (r = Inr () \<longrightarrow> fd_has_close_on_exec table_ops fd t' = 1 \<and> f_getfl table_ops t' fd = f_getfl table_ops t fd) \<and>
    (r \<noteq> Inr () \<longrightarrow> t' = t) \<and>
    (\<forall>fd'. fd' \<noteq> fd \<longrightarrow> fd_has_close_on_exec table_ops fd' t' = fd_has_close_on_exec table_ops fd' t)"
proof -
  have "r = Inr () \<longleftrightarrow> t fd \<noteq> None"
    using assms by (auto simp: fd_set_close_on_exec_def table_ops_def split: option.splits)
  then show ?thesis using fd_table.set_close_on_exec [OF assms] by blast
qed

theorem fd_add_flags_correct:
  assumes "fd_add_flags table_ops fd flags t = (r, t')"
  shows "(r = Inr () \<longrightarrow> (\<exists>old. f_getfl table_ops t fd = Inr old \<and> f_getfl table_ops t' fd = Inr (old OR flags AND status_settable))) \<and>
    (r \<noteq> Inr () \<longrightarrow> t' = t) \<and>
    (\<forall>fd'. fd_has_close_on_exec table_ops fd' t' = fd_has_close_on_exec table_ops fd' t)"
  by (rule fd_table.add_flags [OF assms])

section \<open>The two ends of a pipe\<close>

definition O_NONBLOCK :: int where
  "O_NONBLOCK = 0x800"

text \<open>What \<open>pipe\<close> makes of the two descriptors: no descriptor flags, one end for reading and one for writing.\<close>

definition pipe_table :: "nat \<times> nat \<Rightarrow> fd_table" where
  "pipe_table f = [int (fst f) \<mapsto> (0, 0), int (snd f) \<mapsto> (0, 1)]"

definition nonblocking :: "fd_table \<Rightarrow> nat \<Rightarrow> bool" where
  "nonblocking t fd = (case t (int fd) of None \<Rightarrow> False | Some (d, l) \<Rightarrow> l AND O_NONBLOCK \<noteq> 0)"

lemmas fd_defs = fd_add_flags_def fd_set_close_on_exec_def fd_has_close_on_exec_def table_ops_def
  status_settable_def O_NONBLOCK_def FD_CLOEXEC_def pipe_table_def nonblocking_def

end
