(* ===== verification/Dynmbox.thy ===== *)
theory Dynmbox
  imports Fifo Timetools Fdutils
begin

text \<open>
  Component \<open>dynmbox\<close> (src/src/dynmbox.c): a mailbox of messages of varying size in a ring buffer,
  with a pipe that signals that a message can be read.

  The record is \<open>struct dynmbox\<close>; the pipe behind \<open>fds\<close> appears as the number of bytes in it, its
  capacity and the flags of its two descriptors, which the functions of \<open>fdutils\<close> change.  A write to a
  full pipe and a read of an empty one fail if the descriptor has \<open>O_NONBLOCK\<close> and block otherwise.  Mutex and condition variable have no state of their own:
  the operations between lock and unlock are the atomic steps of the interleavings considered at
  the end of the theory.  \<open>None\<close> stands for a failed \<open>assert\<close>, an access outside an object, or a
  call that does not return.
\<close>

definition DYNMBOX_MAX_SIZE :: nat where "DYNMBOX_MAX_SIZE = 65536 - 4"
definition ALLOCATED_LEN :: nat where "ALLOCATED_LEN = DYNMBOX_MAX_SIZE + 4"

record dynmbox =
  fds :: "nat \<times> nat"
  max_msg_size :: nat
  bufmem :: "u8 list"
  write_idx :: nat
  read_idx :: nat
  used :: nat
  pipe_bytes :: nat
  pipe_cap :: nat
  pipe_ends :: fd_table

subsection \<open>Creation, destruction, notification\<close>

datatype release = Free_box | Free_bufmem | Close nat | Mutex_destroy | Cond_destroy

text \<open>
  \<open>calloc_ok\<close>, \<open>mem\<close>, \<open>pip\<close>: outcomes of \<open>calloc\<close>, \<open>malloc\<close> (with what the memory contains) and
  \<open>pipe\<close> (the two descriptors and the capacity).  Also returned: what a failing call released.
\<close>

definition init_notify_channel ::
  "fd_table fcntl_ops \<Rightarrow> error + (nat \<times> nat) \<times> nat \<Rightarrow> dynmbox \<Rightarrow> unit res \<times> dynmbox" where
  "init_notify_channel k pip box = (case pip of
     Inl e \<Rightarrow> (Inl e, box)
   | Inr (f, cap) \<Rightarrow>
      (let t = fold (\<lambda>fd t. snd (fd_add_flags k (int fd) O_NONBLOCK t)) [fst f, snd f] (pipe_table f);
           t = snd (fd_set_close_on_exec k (int (fst f)) t)
       in (Inr (), box\<lparr>fds := f, pipe_bytes := 0, pipe_cap := cap, pipe_ends := t\<rparr>)))"

definition destroy_notify_channel :: "dynmbox \<Rightarrow> release list" where
  "destroy_notify_channel box = [Close (fst (fds box)), Close (snd (fds box))]"

text \<open>One byte written or read; a failure is only logged, and \<open>None\<close> is a call that blocks.\<close>

definition push_notify :: "dynmbox \<Rightarrow> dynmbox option" where
  "push_notify box =
    (if pipe_bytes box < pipe_cap box then Some (box\<lparr>pipe_bytes := pipe_bytes box + 1\<rparr>)
     else if nonblocking (pipe_ends box) (snd (fds box)) then Some box else None)"

definition pop_notify :: "dynmbox \<Rightarrow> dynmbox option" where
  "pop_notify box =
    (if 0 < pipe_bytes box then Some (box\<lparr>pipe_bytes := pipe_bytes box - 1\<rparr>)
     else if nonblocking (pipe_ends box) (fst (fds box)) then Some box else None)"

definition dynmbox_new ::
  "fd_table fcntl_ops \<Rightarrow> nat \<Rightarrow> bool \<Rightarrow> u8 list option \<Rightarrow> error + (nat \<times> nat) \<times> nat \<Rightarrow> dynmbox option \<times> release list" where
  "dynmbox_new k max_size calloc_ok mem pip =
    (if max_size > DYNMBOX_MAX_SIZE then (None, [])
     else if \<not> calloc_ok then (None, [])
     else case mem of
       None \<Rightarrow> (None, [Free_box])
     | Some m \<Rightarrow>
        (let box = \<lparr>fds = (0, 0), max_msg_size = 0, bufmem = m, write_idx = 0, read_idx = 0, used = 0,
                    pipe_bytes = 0, pipe_cap = 0, pipe_ends = (\<lambda>_. None)\<rparr>
         in case init_notify_channel k pip box of
              (Inl e, box) \<Rightarrow> (None, [Free_bufmem, Free_box])
            | (Inr _, box) \<Rightarrow> (Some (box\<lparr>max_msg_size := max_size\<rparr>), [])))"

definition dynmbox_destroy :: "dynmbox option \<Rightarrow> release list" where
  "dynmbox_destroy box = (case box of
     None \<Rightarrow> []
   | Some b \<Rightarrow> [Cond_destroy, Mutex_destroy] @ destroy_notify_channel b @ [Free_bufmem, Free_box])"

definition dynmbox_get_read_fd :: "dynmbox option \<Rightarrow> int" where
  "dynmbox_get_read_fd box = (case box of Some b \<Rightarrow> int (fst (fds b)) | None \<Rightarrow> -1)"

definition dynmbox_get_max_size :: "dynmbox option \<Rightarrow> nat res" where
  "dynmbox_get_max_size box = (case box of Some b \<Rightarrow> Inr (max_msg_size b) | None \<Rightarrow> Inl EINVAL)"

subsection \<open>The ring buffer\<close>

definition increment :: "nat \<Rightarrow> nat \<Rightarrow> nat option" where
  "increment idx amount =
    (let following = ALLOCATED_LEN - idx in
     if \<not> amount \<le> ALLOCATED_LEN then None
     else if amount \<ge> following then Some (amount - following) else Some (idx + amount))"

definition rbuf_is_empty :: "dynmbox \<Rightarrow> bool" where
  "rbuf_is_empty box \<longleftrightarrow> used box = 0"

definition rbuf_is_full :: "dynmbox \<Rightarrow> bool" where
  "rbuf_is_full box \<longleftrightarrow> used box = ALLOCATED_LEN"

definition rbuf_space_left :: "dynmbox \<Rightarrow> nat" where
  "rbuf_space_left box = (if used box \<le> ALLOCATED_LEN then ALLOCATED_LEN - used box else 2 ^ 64 + ALLOCATED_LEN - used box)"

definition rbuf_space_used :: "dynmbox \<Rightarrow> nat" where
  "rbuf_space_used box = used box"

text \<open>
  The copy loops, on the bytes still to be written and on the number still to be read.  With the
  index behind the end of the buffer the chunk would be the huge value of the wrapped subtraction
  and the copy leave the object.
\<close>

partial_function (option) rbuf_write_loop :: "u8 list \<Rightarrow> dynmbox \<Rightarrow> dynmbox option" where
  "rbuf_write_loop bytes box =
    (if length bytes > 0 then
       (let idx = write_idx box in
        if idx > ALLOCATED_LEN then None
        else let chunklen = ALLOCATED_LEN - idx;
                 chunklen = (if chunklen > length bytes then length bytes else chunklen)
          in if idx + chunklen > length (bufmem box) then None
             else do {
               let box = box\<lparr>bufmem := mem_write idx (take chunklen bytes) (bufmem box)\<rparr>;
               idx \<leftarrow> increment idx chunklen;
               rbuf_write_loop (drop chunklen bytes) (box\<lparr>write_idx := idx\<rparr>) })
     else Some box)"

definition rbuf_write :: "u8 list \<Rightarrow> dynmbox \<Rightarrow> dynmbox option" where
  "rbuf_write data box =
    (if \<not> length data \<le> rbuf_space_left box then None
     else do { box \<leftarrow> rbuf_write_loop data box; Some (box\<lparr>used := used box + length data\<rparr>) })"

partial_function (option) rbuf_read_loop :: "u8 list \<Rightarrow> nat \<Rightarrow> dynmbox \<Rightarrow> (u8 list \<times> dynmbox) option" where
  "rbuf_read_loop out left box =
    (if left > 0 then
       (let idx = read_idx box in
        if idx > ALLOCATED_LEN then None
        else let chunklen = ALLOCATED_LEN - idx;
                 chunklen = (if chunklen > left then left else chunklen)
          in if idx + chunklen > length (bufmem box) then None
             else do {
               let out = out @ mem_read idx chunklen (bufmem box);
               idx \<leftarrow> increment idx chunklen;
               rbuf_read_loop out (left - chunklen) (box\<lparr>read_idx := idx\<rparr>) })
     else Some (out, box))"

definition rbuf_read :: "nat \<Rightarrow> dynmbox \<Rightarrow> (u8 list \<times> dynmbox) option" where
  "rbuf_read n box =
    (if \<not> n \<le> rbuf_space_used box then None
     else do { (out, box) \<leftarrow> rbuf_read_loop [] n box; Some (out, box\<lparr>used := used box - n\<rparr>) })"

subsection \<open>Messages\<close>

text \<open>\<open>msg\<close>: the object of \<open>msg_size\<close> bytes the pointer points to.\<close>

definition do_push :: "u8 list \<Rightarrow> dynmbox \<Rightarrow> (unit res \<times> dynmbox) option" where
  "do_push msg box =
    (if rbuf_space_left box < length msg + 4 then Some (Inl EAGAIN, box)
     else do {
       let hdr = (of_nat (length msg) :: u32);
       box \<leftarrow> rbuf_write (u32_bytes hdr) box;
       box \<leftarrow> rbuf_write msg box;
       Some (Inr (), box) })"

definition do_peek :: "dynmbox \<Rightarrow> (u8 list res \<times> dynmbox) option" where
  "do_peek box =
    (if rbuf_is_empty box then Some (Inl EAGAIN, box)
     else if \<not> rbuf_space_used box \<ge> 4 then None
     else do {
       (h, box) \<leftarrow> rbuf_read 4 box;
       let hdr = unat (bytes_u32 h);
       (if hdr \<le> max_msg_size box \<and> rbuf_space_used box \<ge> hdr then do {
          (msg, box) \<leftarrow> rbuf_read hdr box;
          Some (Inr msg, box) }
        else None) })"

text \<open>\<open>msg\<close> is the object the pointer points to, \<open>None\<close> for \<open>NULL\<close>.\<close>

definition msg_bytes :: "u8 list option \<Rightarrow> nat \<Rightarrow> u8 list option" where
  "msg_bytes msg n = (case msg of None \<Rightarrow> if n = 0 then Some [] else None
     | Some m \<Rightarrow> if n \<le> length m then Some (take n m) else None)"

text \<open>
  \<open>dynmbox_push\<close> up to the release of the lock, and what follows it, also in \<open>dynmbox_push_block\<close>: a failed
  push returns, the other one first writes its byte.
\<close>

definition push_locked :: "dynmbox \<Rightarrow> u8 list option \<Rightarrow> nat \<Rightarrow> (unit res \<times> dynmbox) option" where
  "push_locked box msg msg_size =
    (if msg_size > max_msg_size box \<or> msg_size > 0 \<and> msg = None then Some (Inl EINVAL, box)
     else do {
       m \<leftarrow> msg_bytes msg msg_size;
       do_push m box })"

definition push_unlocked :: "unit res \<Rightarrow> dynmbox \<Rightarrow> dynmbox option" where
  "push_unlocked res box = (case res of Inl e \<Rightarrow> Some box | Inr _ \<Rightarrow> push_notify box)"

definition dynmbox_push :: "dynmbox option \<Rightarrow> u8 list option \<Rightarrow> nat \<Rightarrow> (unit res \<times> dynmbox option) option" where
  "dynmbox_push box msg msg_size = (case box of
     None \<Rightarrow> Some (Inl EINVAL, None)
   | Some box \<Rightarrow> do {
        (res, box) \<leftarrow> push_locked box msg msg_size;
        box \<leftarrow> push_unlocked res box;
        Some (res, Some box) })"

text \<open>\<open>lock_err\<close>: the error of \<open>pthread_mutex_lock\<close>, if any.  The message is what \<open>msg\<close> receives.\<close>

definition dynmbox_peek :: "dynmbox option \<Rightarrow> bool \<Rightarrow> error option \<Rightarrow> (u8 list res \<times> dynmbox option) option" where
  "dynmbox_peek box msg lock_err = (case box of
     None \<Rightarrow> Some (Inl EINVAL, None)
   | Some box \<Rightarrow>
      if \<not> msg then Some (Inl EINVAL, Some box)
      else (case lock_err of Some e \<Rightarrow> Some (Inl e, Some box)
      | None \<Rightarrow>
        if rbuf_is_empty box then Some (Inl EAGAIN, Some box)
        else do {
          box \<leftarrow> pop_notify box;
          (res, box) \<leftarrow> do_peek box;
          Some (res, Some box) }))"

text \<open>
  \<open>dynmbox_push_block\<close>: \<open>now\<close> is the answer of \<open>gettimeofday\<close>; \<open>waits\<close> gives, for the deadline of the
  timed wait (\<open>None\<close>: no timeout), the outcomes of the successive waits: an error, or the mailbox as
  the other threads left it when the wait returns.  A caller whose waits are exhausted still blocks.
  The loop ends, with the message stored, at the release of the lock.
\<close>

fun push_block_loop :: "u8 list \<Rightarrow> (error + dynmbox) list \<Rightarrow> dynmbox \<Rightarrow> (unit res \<times> dynmbox) option" where
  "push_block_loop m waits box =
    (if rbuf_space_left box < length m + 4
     then (case waits of
         [] \<Rightarrow> None
       | Inl e # _ \<Rightarrow> Some (Inl e, box)
       | Inr box # waits \<Rightarrow> push_block_loop m waits box)
     else do {
       (res, box) \<leftarrow> do_push m box;
       (case res of Inl e \<Rightarrow> None | Inr _ \<Rightarrow> Some (Inr (), box)) })"

declare push_block_loop.simps [simp del]

definition push_deadline :: "timeval res \<Rightarrow> u32 \<Rightarrow> timespec option res" where
  "push_deadline now timeout_ms =
    (if timeout_ms > 0 then
       bindR now (\<lambda>tv_now.
       bindR (time_timeval_to_timespec (Some tv_now) True) (\<lambda>ts_now.
       bindR (time_timespec_add_us (Some ts_now) (uint (timeout_ms * 1000)) True) (\<lambda>ts_abs. Inr (Some ts_abs))))
     else Inr None)"

definition dynmbox_push_block ::
  "dynmbox option \<Rightarrow> u8 list option \<Rightarrow> nat \<Rightarrow> u32 \<Rightarrow> timeval res \<Rightarrow> (timespec option \<Rightarrow> (error + dynmbox) list) \<Rightarrow>
    (unit res \<times> dynmbox option) option" where
  "dynmbox_push_block box msg msg_size timeout_ms now waits = (case box of
     None \<Rightarrow> Some (Inl EINVAL, None)
   | Some box \<Rightarrow>
      if msg_size > max_msg_size box \<or> msg_size > 0 \<and> msg = None then Some (Inl EINVAL, Some box)
      else (case push_deadline now timeout_ms of
        Inl e \<Rightarrow> if e = Fault then None else Some (Inl e, Some box)
      | Inr ts_abs \<Rightarrow> do {
          m \<leftarrow> msg_bytes msg msg_size;
          (res, box) \<leftarrow> push_block_loop m (waits ts_abs) box;
          box \<leftarrow> push_unlocked res box;
          Some (res, Some box) }))"


subsection \<open>What the ring buffer contains\<close>

lemma ALLOCATED_LEN_pos [simp]: "0 < ALLOCATED_LEN"
  by (simp add: ALLOCATED_LEN_def DYNMBOX_MAX_SIZE_def)

lemma mod_window: "a mod n = b mod n \<Longrightarrow> a \<le> b \<Longrightarrow> b < a + n \<Longrightarrow> a = b" for a :: nat
proof -
  assume a: "a mod n = b mod n" "a \<le> b" "b < a + n"
  have d: "n dvd b - a" using a(1,2) mod_eq_dvd_iff_nat [of a b n] by simp
  show "a = b"
  proof (rule ccontr)
    assume "a \<noteq> b"
    then have "0 < b - a" using a(2) by simp
    then have "n \<le> b - a" using d by (rule dvd_imp_le [rotated])
    then show False using a(2,3) by simp
  qed
qed

text \<open>\<open>content box bs\<close>: the buffer holds \<open>bs\<close> from the read index on, and the write index follows them.\<close>

definition content :: "dynmbox \<Rightarrow> u8 list \<Rightarrow> bool" where
  "content box bs \<longleftrightarrow> length (bufmem box) = ALLOCATED_LEN \<and> read_idx box < ALLOCATED_LEN \<and>
    length bs \<le> ALLOCATED_LEN \<and> write_idx box = (read_idx box + length bs) mod ALLOCATED_LEN \<and>
    (\<forall>k < length bs. bufmem box ! ((read_idx box + k) mod ALLOCATED_LEN) = bs ! k)"

lemma increment_eq:
  assumes "idx < ALLOCATED_LEN" "idx + n \<le> ALLOCATED_LEN"
  shows "increment idx n = Some ((idx + n) mod ALLOCATED_LEN)"
proof -
  have "(if n \<ge> ALLOCATED_LEN - idx then n - (ALLOCATED_LEN - idx) else idx + n) = (idx + n) mod ALLOCATED_LEN"
    using assms by (cases "idx + n = ALLOCATED_LEN") (auto simp: mod_less)
  then show ?thesis using assms by (simp add: increment_def Let_def split: if_splits)
qed

lemma write_chunk:
  assumes c: "content box bs" and fits: "length bs + length ys \<le> ALLOCATED_LEN"
    and straight: "write_idx box + length ys \<le> ALLOCATED_LEN"
  shows "content (box\<lparr>bufmem := mem_write (write_idx box) ys (bufmem box),
                     write_idx := (write_idx box + length ys) mod ALLOCATED_LEN\<rparr>) (bs @ ys)"
proof -
  let ?A = ALLOCATED_LEN and ?r = "read_idx box" and ?w = "write_idx box"
  have w: "?w = (?r + length bs) mod ?A" and l: "length (bufmem box) = ?A" and r: "?r < ?A"
    and old: "\<And>k. k < length bs \<Longrightarrow> bufmem box ! ((?r + k) mod ?A) = bs ! k"
    using c by (auto simp: content_def)
  have "mem_write ?w ys (bufmem box) ! ((?r + k) mod ?A) = (bs @ ys) ! k" if k: "k < length (bs @ ys)" for k
  proof (cases "k < length bs")
    case True
    have "\<not> (?w \<le> (?r + k) mod ?A \<and> (?r + k) mod ?A < ?w + length ys)"
    proof
      assume a: "?w \<le> (?r + k) mod ?A \<and> (?r + k) mod ?A < ?w + length ys"
      define j where "j = (?r + k) mod ?A - ?w"
      have j: "j < length ys" "(?r + k) mod ?A = ?w + j" using a by (auto simp: j_def)
      have "(?r + k) mod ?A = (?r + length bs + j) mod ?A"
        using j(2) w by (metis mod_add_left_eq mod_mod_trivial)
      moreover have "?r + k \<le> ?r + length bs + j" "?r + length bs + j < ?r + k + ?A"
        using True j(1) fits by simp_all
      ultimately have "?r + k = ?r + length bs + j" by (rule mod_window)
      then show False using True by simp
    qed
    then show ?thesis using True old [OF True] straight l
      by (auto simp: nth_mem_write nth_append)
  next
    case False
    define j where "j = k - length bs"
    have j: "k = length bs + j" "j < length ys" using False k by (auto simp: j_def)
    have "(?r + k) mod ?A = (?w + j) mod ?A" unfolding j(1) w by (simp add: mod_add_left_eq add.assoc)
    also have "\<dots> = ?w + j" using j(2) straight by simp
    finally show ?thesis using j straight l by (simp add: nth_mem_write nth_append)
  qed
  moreover have "(?w + length ys) mod ?A = (?r + length (bs @ ys)) mod ?A"
    unfolding w by (simp add: mod_add_left_eq add.assoc)
  ultimately show ?thesis using c fits straight l by (simp add: content_def)
qed

lemma read_chunk:
  assumes c: "content box bs" and fits: "n \<le> length bs" and straight: "read_idx box + n \<le> ALLOCATED_LEN"
  shows "mem_read (read_idx box) n (bufmem box) = take n bs"
    "content (box\<lparr>read_idx := (read_idx box + n) mod ALLOCATED_LEN\<rparr>) (drop n bs)"
proof -
  let ?A = ALLOCATED_LEN and ?r = "read_idx box"
  have w: "write_idx box = (?r + length bs) mod ?A" and l: "length (bufmem box) = ?A" and r: "?r < ?A"
    and old: "\<And>k. k < length bs \<Longrightarrow> bufmem box ! ((?r + k) mod ?A) = bs ! k"
    using c by (auto simp: content_def)
  show "mem_read ?r n (bufmem box) = take n bs"
  proof (rule nth_equalityI)
    show "length (mem_read ?r n (bufmem box)) = length (take n bs)" using fits straight l by simp
    fix k assume "k < length (mem_read ?r n (bufmem box))"
    then have k: "k < n" using straight l by simp
    then have "(?r + k) mod ?A = ?r + k" using straight by simp
    then show "mem_read ?r n (bufmem box) ! k = take n bs ! k" using old [of k] k fits straight l by (simp add: nth_mem_read)
  qed
  have "bufmem box ! (((?r + n) mod ?A + k) mod ?A) = drop n bs ! k" if "k < length bs - n" for k
    using old [of "n + k"] that by (simp add: mod_add_left_eq add.assoc)
  moreover have "write_idx box = ((?r + n) mod ?A + (length bs - n)) mod ?A"
  proof -
    have "((?r + n) mod ?A + (length bs - n)) mod ?A = (?r + n + (length bs - n)) mod ?A" by (rule mod_add_left_eq)
    also have "?r + n + (length bs - n) = ?r + length bs" using fits by simp
    finally show ?thesis using w by simp
  qed
  ultimately show "content (box\<lparr>read_idx := (?r + n) mod ?A\<rparr>) (drop n bs)"
    using l c fits by (simp add: content_def le_diff_conv)
qed

lemma rbuf_write_loop_content:
  assumes "content box bs" "length bs + length ys \<le> ALLOCATED_LEN"
  shows "\<exists>m w. rbuf_write_loop ys box = Some (box\<lparr>bufmem := m, write_idx := w\<rparr>) \<and>
    content (box\<lparr>bufmem := m, write_idx := w\<rparr>) (bs @ ys)"
  using assms
proof (induction "length ys" arbitrary: ys bs box rule: less_induct)
  case less
  let ?A = ALLOCATED_LEN
  show ?case
  proof (cases "ys = []")
    case True
    then show ?thesis using less.prems
      by (intro exI [of _ "bufmem box"] exI [of _ "write_idx box"]) (simp add: rbuf_write_loop.simps)
  next
    case False
    have w: "write_idx box < ?A" "length (bufmem box) = ?A" using less.prems(1) by (simp_all add: content_def)
    define n where "n = (if ?A - write_idx box > length ys then length ys else ?A - write_idx box)"
    have n: "0 < n" "n \<le> length ys" "write_idx box + n \<le> ?A" using False w by (auto simp: n_def)
    have tn: "length (take n ys) = n" using n(2) by simp
    define b1 where "b1 = box\<lparr>bufmem := mem_write (write_idx box) (take n ys) (bufmem box), write_idx := (write_idx box + n) mod ?A\<rparr>"
    have "content b1 (bs @ take n ys)"
      using write_chunk [OF less.prems(1), of "take n ys"] less.prems(2) n unfolding tn b1_def by simp
    moreover have lt: "length (drop n ys) < length ys" using n False by simp
    ultimately obtain m w' where ih: "rbuf_write_loop (drop n ys) b1 = Some (b1\<lparr>bufmem := m, write_idx := w'\<rparr>)"
      "content (b1\<lparr>bufmem := m, write_idx := w'\<rparr>) ((bs @ take n ys) @ drop n ys)"
      using less.hyps [OF lt, of b1 "bs @ take n ys"] less.prems(2) n tn by auto
    have "rbuf_write_loop ys box = rbuf_write_loop (drop n ys) b1"
      using False w n increment_eq [OF w(1) n(3)]
      by (subst rbuf_write_loop.simps) (simp add: Let_def b1_def flip: n_def)
    then show ?thesis using ih by (intro exI [of _ m] exI [of _ w']) (simp add: b1_def)
  qed
qed

lemma rbuf_read_loop_content:
  assumes "content box bs" "n \<le> length bs"
  shows "\<exists>r. rbuf_read_loop out n box = Some (out @ take n bs, box\<lparr>read_idx := r\<rparr>) \<and>
    content (box\<lparr>read_idx := r\<rparr>) (drop n bs)"
  using assms
proof (induction n arbitrary: bs box out rule: less_induct)
  case (less n)
  let ?A = ALLOCATED_LEN
  show ?case
  proof (cases "n = 0")
    case True
    then show ?thesis using less.prems by (intro exI [of _ "read_idx box"]) (simp add: rbuf_read_loop.simps)
  next
    case False
    have r: "read_idx box < ?A" "length (bufmem box) = ?A" using less.prems(1) by (simp_all add: content_def)
    define c where "c = (if ?A - read_idx box > n then n else ?A - read_idx box)"
    have c: "0 < c" "c \<le> n" "read_idx box + c \<le> ?A" using False r by (auto simp: c_def)
    define b1 where "b1 = box\<lparr>read_idx := (read_idx box + c) mod ?A\<rparr>"
    have c1: "mem_read (read_idx box) c (bufmem box) = take c bs" "content b1 (drop c bs)"
      using read_chunk [OF less.prems(1) _ c(3)] less.prems(2) c(2) by (simp_all add: b1_def)
    have lt: "n - c < n" and le: "n - c \<le> length (drop c bs)" using c False less.prems(2) by simp_all
    obtain r' where ih: "rbuf_read_loop (out @ take c bs) (n - c) b1 =
        Some ((out @ take c bs) @ take (n - c) (drop c bs), b1\<lparr>read_idx := r'\<rparr>)"
      "content (b1\<lparr>read_idx := r'\<rparr>) (drop (n - c) (drop c bs))"
      using less.IH [OF lt c1(2) le, of "out @ take c bs"] by blast
    have "rbuf_read_loop out n box = rbuf_read_loop (out @ take c bs) (n - c) b1"
      using False r c c1(1) increment_eq [OF r(1) c(3)]
      by (subst rbuf_read_loop.simps) (simp add: Let_def b1_def flip: c_def)
    moreover have "take c bs @ take (n - c) (drop c bs) = take n bs"
      using c(2) by (metis le_add_diff_inverse take_add)
    ultimately show ?thesis using ih c(2) by (intro exI [of _ r']) (simp add: b1_def)
  qed
qed


lemma rbuf_write_content:
  assumes "content box bs" "used box = length bs" "length bs + length ys \<le> ALLOCATED_LEN"
  obtains m w where "rbuf_write ys box = Some (box\<lparr>bufmem := m, write_idx := w, used := length (bs @ ys)\<rparr>)"
    "content (box\<lparr>bufmem := m, write_idx := w, used := length (bs @ ys)\<rparr>) (bs @ ys)"
proof -
  obtain m w where "rbuf_write_loop ys box = Some (box\<lparr>bufmem := m, write_idx := w\<rparr>)"
    "content (box\<lparr>bufmem := m, write_idx := w\<rparr>) (bs @ ys)"
    using rbuf_write_loop_content [OF assms(1,3)] by blast
  then have "rbuf_write ys box = Some (box\<lparr>bufmem := m, write_idx := w, used := length (bs @ ys)\<rparr>)"
    "content (box\<lparr>bufmem := m, write_idx := w, used := length (bs @ ys)\<rparr>) (bs @ ys)"
    using assms by (simp_all add: rbuf_write_def rbuf_space_left_def content_def)
  then show thesis by (rule that)
qed

lemma rbuf_read_content:
  assumes "content box bs" "used box = length bs" "n \<le> length bs"
  obtains r where "rbuf_read n box = Some (take n bs, box\<lparr>read_idx := r, used := length (drop n bs)\<rparr>)"
    "content (box\<lparr>read_idx := r, used := length (drop n bs)\<rparr>) (drop n bs)"
proof -
  obtain r where "rbuf_read_loop [] n box = Some ([] @ take n bs, box\<lparr>read_idx := r\<rparr>)"
    "content (box\<lparr>read_idx := r\<rparr>) (drop n bs)"
    using rbuf_read_loop_content [OF assms(1,3), of "[]"] by blast
  then have "rbuf_read n box = Some (take n bs, box\<lparr>read_idx := r, used := length (drop n bs)\<rparr>)"
    "content (box\<lparr>read_idx := r, used := length (drop n bs)\<rparr>) (drop n bs)"
    using assms by (simp_all add: rbuf_read_def rbuf_space_used_def content_def)
  then show thesis by (rule that)
qed

subsection \<open>The queue of messages in the buffer\<close>

definition frame :: "u8 list \<Rightarrow> u8 list" where
  "frame m = u32_bytes (of_nat (length m)) @ m"

definition frames :: "u8 list list \<Rightarrow> u8 list" where
  "frames xs = concat (map frame xs)"

lemma frames_simps [simp]:
  "frames [] = []" "frames (m # xs) = frame m @ frames xs" "frames (xs @ ys) = frames xs @ frames ys"
  by (simp_all add: frames_def)

lemma length_frame [simp]: "length (frame m) = length m + 4"
  by (simp add: frame_def)

lemma frames_count: "4 * length xs \<le> length (frames xs)"
  by (induction xs) simp_all

definition box_ok :: "dynmbox \<Rightarrow> u8 list list \<Rightarrow> bool" where
  "box_ok box xs \<longleftrightarrow> content box (frames xs) \<and> used box = length (frames xs) \<and>
    max_msg_size box \<le> DYNMBOX_MAX_SIZE \<and> (\<forall>m \<in> set xs. length m \<le> max_msg_size box) \<and>
    nonblocking (pipe_ends box) (fst (fds box)) \<and> nonblocking (pipe_ends box) (snd (fds box))"

text \<open>With non-blocking ends the notifications never block.\<close>

definition byte_pushed :: "dynmbox \<Rightarrow> dynmbox" where
  "byte_pushed box = (if pipe_bytes box < pipe_cap box then box\<lparr>pipe_bytes := pipe_bytes box + 1\<rparr> else box)"

definition byte_popped :: "dynmbox \<Rightarrow> dynmbox" where
  "byte_popped box = box\<lparr>pipe_bytes := pipe_bytes box - 1\<rparr>"

lemma notify_ok:
  "box_ok box xs \<Longrightarrow> push_notify box = Some (byte_pushed box)"
  "box_ok box xs \<Longrightarrow> pop_notify box = Some (byte_popped box)"
  "box_ok box xs \<Longrightarrow> push_unlocked (Inr u) box = Some (byte_pushed box)"
  by (auto simp: push_notify_def pop_notify_def push_unlocked_def byte_pushed_def byte_popped_def box_ok_def)

lemma push_unlocked_failed [simp]: "push_unlocked (Inl e) box = Some box"
  by (simp add: push_unlocked_def)

lemma box_ok_notify [simp]:
  "box_ok (byte_pushed box) xs \<longleftrightarrow> box_ok box xs" "box_ok (byte_popped box) xs \<longleftrightarrow> box_ok box xs"
  by (simp_all add: byte_pushed_def byte_popped_def box_ok_def content_def)

lemma notify_fields [simp]:
  "max_msg_size (byte_pushed box) = max_msg_size box" "max_msg_size (byte_popped box) = max_msg_size box"
  "used (byte_pushed box) = used box" "used (byte_popped box) = used box"
  "pipe_cap (byte_pushed box) = pipe_cap box" "pipe_cap (byte_popped box) = pipe_cap box"
  "pipe_bytes (byte_pushed box) = min (pipe_bytes box + 1) (max (pipe_bytes box) (pipe_cap box))"
  "pipe_bytes (byte_popped box) = pipe_bytes box - 1"
  by (simp_all add: byte_pushed_def byte_popped_def)

lemma box_ok_used: "box_ok box xs \<Longrightarrow> used box = length (frames xs) \<and> used box \<le> ALLOCATED_LEN"
  by (simp add: box_ok_def content_def)

lemma box_ok_empty: "box_ok box xs \<Longrightarrow> rbuf_is_empty box \<longleftrightarrow> xs = []"
  using frames_count [of xs] by (auto simp: box_ok_def rbuf_is_empty_def)

lemma space_left_eq: "box_ok box xs \<Longrightarrow> rbuf_space_left box = ALLOCATED_LEN - length (frames xs)"
  using box_ok_used [of box xs] by (simp add: rbuf_space_left_def)

lemma do_push_full:
  "box_ok box xs \<Longrightarrow> length (frames xs) + length m + 4 > ALLOCATED_LEN \<Longrightarrow> do_push m box = Some (Inl EAGAIN, box)"
  using box_ok_used [of box xs] by (auto simp: do_push_def space_left_eq)

lemma do_push_ok:
  assumes "box_ok box xs" "length m \<le> max_msg_size box" "length (frames xs) + length m + 4 \<le> ALLOCATED_LEN"
  obtains mem w u where "do_push m box = Some (Inr (), box\<lparr>bufmem := mem, write_idx := w, used := u\<rparr>)"
    "box_ok (box\<lparr>bufmem := mem, write_idx := w, used := u\<rparr>) (xs @ [m])"
proof -
  let ?h = "u32_bytes (of_nat (length m))"
  have c: "content box (frames xs)" "used box = length (frames xs)" using assms(1) by (simp_all add: box_ok_def)
  have fits: "length (frames xs) + length ?h \<le> ALLOCATED_LEN" using assms(3) by simp
  obtain mem w where 1: "rbuf_write ?h box = Some (box\<lparr>bufmem := mem, write_idx := w, used := length (frames xs @ ?h)\<rparr>)"
    "content (box\<lparr>bufmem := mem, write_idx := w, used := length (frames xs @ ?h)\<rparr>) (frames xs @ ?h)"
    by (rule rbuf_write_content [OF c fits])
  let ?b = "box\<lparr>bufmem := mem, write_idx := w, used := length (frames xs @ ?h)\<rparr>"
  have fits2: "length (frames xs @ ?h) + length m \<le> ALLOCATED_LEN" using assms(3) by simp
  have u2: "used ?b = length (frames xs @ ?h)" by simp
  obtain mem2 w2 where 2: "rbuf_write m ?b = Some (?b\<lparr>bufmem := mem2, write_idx := w2, used := length ((frames xs @ ?h) @ m)\<rparr>)"
    "content (?b\<lparr>bufmem := mem2, write_idx := w2, used := length ((frames xs @ ?h) @ m)\<rparr>) ((frames xs @ ?h) @ m)"
    by (rule rbuf_write_content [OF 1(2) u2 fits2])
  let ?b2 = "box\<lparr>bufmem := mem2, write_idx := w2, used := length ((frames xs @ ?h) @ m)\<rparr>"
  have "do_push m box = Some (Inr (), ?b2)"
    using 1(1) 2(1) assms(3) space_left_eq [OF assms(1)] by (simp add: do_push_def Let_def)
  moreover have "box_ok ?b2 (xs @ [m])" using assms(1,2) 2(2) by (auto simp: box_ok_def content_def frame_def)
  ultimately show thesis by (rule that)
qed

lemma do_peek_ok:
  assumes "box_ok box (m # xs)"
  obtains r u where "do_peek box = Some (Inr m, box\<lparr>read_idx := r, used := u\<rparr>)"
    "box_ok (box\<lparr>read_idx := r, used := u\<rparr>) xs"
proof -
  let ?h = "u32_bytes (of_nat (length m))"
  have c: "content box (?h @ m @ frames xs)" "used box = length (?h @ m @ frames xs)"
    using assms by (simp_all add: box_ok_def frame_def)
  have le: "length m \<le> max_msg_size box" "max_msg_size box \<le> DYNMBOX_MAX_SIZE" using assms by (simp_all add: box_ok_def)
  then have "length m < 2 ^ 32" by (simp add: DYNMBOX_MAX_SIZE_def)
  then have hdr: "unat (bytes_u32 ?h) = length m" by (simp add: bytes_u32_u32_bytes unat_of_nat_small)
  have four: "4 \<le> length (?h @ m @ frames xs)" by simp
  obtain r where 1: "rbuf_read 4 box = Some (take 4 (?h @ m @ frames xs), box\<lparr>read_idx := r, used := length (drop 4 (?h @ m @ frames xs))\<rparr>)"
    "content (box\<lparr>read_idx := r, used := length (drop 4 (?h @ m @ frames xs))\<rparr>) (drop 4 (?h @ m @ frames xs))"
    by (rule rbuf_read_content [OF c four])
  have td: "take 4 (?h @ m @ frames xs) = ?h" "drop 4 (?h @ m @ frames xs) = m @ frames xs" by simp_all
  let ?b = "box\<lparr>read_idx := r, used := length (m @ frames xs)\<rparr>"
  note 1 = 1 [unfolded td]
  have u: "used ?b = length (m @ frames xs)" and lm: "length m \<le> length (m @ frames xs)" by simp_all
  obtain r2 where 2: "rbuf_read (length m) ?b = Some (take (length m) (m @ frames xs), ?b\<lparr>read_idx := r2, used := length (drop (length m) (m @ frames xs))\<rparr>)"
    "content (?b\<lparr>read_idx := r2, used := length (drop (length m) (m @ frames xs))\<rparr>) (drop (length m) (m @ frames xs))"
    by (rule rbuf_read_content [OF 1(2) u lm])
  have ne: "\<not> rbuf_is_empty box" "rbuf_space_used box \<ge> 4" "rbuf_space_used ?b \<ge> length m" "length m \<le> max_msg_size ?b"
    using c(2) le by (simp_all add: rbuf_is_empty_def rbuf_space_used_def)
  let ?b2 = "box\<lparr>read_idx := r2, used := length (frames xs)\<rparr>"
  have "do_peek box = Some (Inr m, ?b2)" using 1(1) 2(1) ne hdr by (simp add: do_peek_def Let_def)
  moreover have "box_ok ?b2 xs" using assms 2(2) by (auto simp: box_ok_def content_def)
  ultimately show thesis by (rule that)
qed

lemmas push_defs = dynmbox_push_def push_locked_def msg_bytes_def

lemma push_cases:
  assumes "box_ok box xs" "length m \<le> max_msg_size box"
  shows "length (frames xs) + length m + 4 > ALLOCATED_LEN \<Longrightarrow>
      dynmbox_push (Some box) (Some m) (length m) = Some (Inl EAGAIN, Some box)"
    and "length (frames xs) + length m + 4 \<le> ALLOCATED_LEN \<Longrightarrow>
      \<exists>box'. dynmbox_push (Some box) (Some m) (length m) = Some (Inr (), Some box') \<and> box_ok box' (xs @ [m]) \<and>
        max_msg_size box' = max_msg_size box \<and> pipe_cap box' = pipe_cap box \<and>
        pipe_bytes box' = min (pipe_bytes box + 1) (max (pipe_bytes box) (pipe_cap box))"
proof -
  show "dynmbox_push (Some box) (Some m) (length m) = Some (Inl EAGAIN, Some box)"
    if "length (frames xs) + length m + 4 > ALLOCATED_LEN"
    using do_push_full [OF assms(1) that] assms(2) by (simp add: push_defs)
  show "\<exists>box'. dynmbox_push (Some box) (Some m) (length m) = Some (Inr (), Some box') \<and> box_ok box' (xs @ [m]) \<and>
      max_msg_size box' = max_msg_size box \<and> pipe_cap box' = pipe_cap box \<and>
      pipe_bytes box' = min (pipe_bytes box + 1) (max (pipe_bytes box) (pipe_cap box))" if fits: "length (frames xs) + length m + 4 \<le> ALLOCATED_LEN"
  proof -
    obtain mem w u where p: "do_push m box = Some (Inr (), box\<lparr>bufmem := mem, write_idx := w, used := u\<rparr>)"
      "box_ok (box\<lparr>bufmem := mem, write_idx := w, used := u\<rparr>) (xs @ [m])"
      by (rule do_push_ok [OF assms fits])
    then have "dynmbox_push (Some box) (Some m) (length m) =
        Some (Inr (), Some (byte_pushed (box\<lparr>bufmem := mem, write_idx := w, used := u\<rparr>)))"
      using assms(2) notify_ok(3) [OF p(2)] by (simp add: push_defs)
    then show ?thesis using p(2) by simp
  qed
qed

lemma peek_empty: "box_ok box [] \<Longrightarrow> dynmbox_peek (Some box) True None = Some (Inl EAGAIN, Some box)"
  by (simp add: dynmbox_peek_def box_ok_empty)

lemma peek_first:
  assumes "box_ok box (m # xs)"
  shows "\<exists>box'. dynmbox_peek (Some box) True None = Some (Inr m, Some box') \<and> box_ok box' xs \<and>
    max_msg_size box' = max_msg_size box \<and> pipe_cap box' = pipe_cap box \<and> pipe_bytes box' = pipe_bytes box - 1"
proof -
  have "box_ok (byte_popped box) (m # xs)" using assms by simp
  then obtain r u where p: "do_peek (byte_popped box) = Some (Inr m, (byte_popped box)\<lparr>read_idx := r, used := u\<rparr>)"
    "box_ok ((byte_popped box)\<lparr>read_idx := r, used := u\<rparr>) xs" by (rule do_peek_ok)
  have "\<not> rbuf_is_empty box" using box_ok_empty [OF assms] by simp
  then show ?thesis using p notify_ok(2) [OF assms] by (simp add: dynmbox_peek_def)
qed


subsection \<open>The mailbox is a first-in first-out container\<close>

definition dyn_enq :: "u8 list \<Rightarrow> dynmbox \<Rightarrow> dynmbox option" where
  "dyn_enq m box = (case dynmbox_push (Some box) (Some m) (length m) of
     Some (Inr _, Some box') \<Rightarrow> Some box' | _ \<Rightarrow> None)"

definition dyn_deq :: "dynmbox \<Rightarrow> (u8 list option \<times> dynmbox) option" where
  "dyn_deq box = (case dynmbox_peek (Some box) True None of
     Some (Inr m, Some box') \<Rightarrow> Some (Some m, box')
   | Some (Inl e, Some box') \<Rightarrow> if e = EAGAIN then Some (None, box') else None
   | _ \<Rightarrow> None)"

definition dyn_sized :: "nat \<Rightarrow> dynmbox \<Rightarrow> u8 list list \<Rightarrow> bool" where
  "dyn_sized mx box xs \<longleftrightarrow> box_ok box xs \<and> max_msg_size box = mx"

definition dyn_accepts :: "nat \<Rightarrow> u8 list list \<Rightarrow> u8 list \<Rightarrow> bool" where
  "dyn_accepts mx xs m \<longleftrightarrow> length m \<le> mx \<and> length (frames xs) + length m + 4 \<le> ALLOCATED_LEN"

interpretation dyn_fifo: fifo "dyn_sized mx" "dyn_accepts mx" dyn_enq dyn_deq for mx
proof
  fix s xs a assume "dyn_sized mx s xs" "dyn_accepts mx xs a"
  then show "\<exists>s'. dyn_enq a s = Some s' \<and> dyn_sized mx s' (xs @ [a])"
    using push_cases(2) [of s xs a] by (auto simp: dyn_enq_def dyn_sized_def dyn_accepts_def)
next
  fix s x xs assume "dyn_sized mx s (x # xs)"
  then show "\<exists>s'. dyn_deq s = Some (Some x, s') \<and> dyn_sized mx s' xs"
    using peek_first [of s x xs] by (auto simp: dyn_deq_def dyn_sized_def)
next
  fix s assume "dyn_sized mx s []"
  then show "\<exists>s'. dyn_deq s = Some (None, s') \<and> dyn_sized mx s' []"
    using peek_empty [of s] by (auto simp: dyn_deq_def dyn_sized_def)
qed

text \<open>
  Runs with all answers, also of the pushes that fail: the abstract mailbox is a queue of messages
  bounded by the bytes of the messages and their headers.
\<close>

datatype dyn_op = Push "u8 list" | Peek
datatype dyn_answer = Pushed "unit res" | Peeked "u8 list res"

fun dyn_run :: "dyn_op list \<Rightarrow> dynmbox \<Rightarrow> (dyn_answer list \<times> dynmbox) option" where
  "dyn_run [] box = Some ([], box)"
| "dyn_run (Push m # ops) box = (case dynmbox_push (Some box) (Some m) (length m) of
     Some (r, Some box) \<Rightarrow> map_option (apfst ((#) (Pushed r))) (dyn_run ops box) | _ \<Rightarrow> None)"
| "dyn_run (Peek # ops) box = (case dynmbox_peek (Some box) True None of
     Some (r, Some box) \<Rightarrow> map_option (apfst ((#) (Peeked r))) (dyn_run ops box) | _ \<Rightarrow> None)"

fun bounded_run :: "nat \<Rightarrow> dyn_op list \<Rightarrow> u8 list list \<Rightarrow> dyn_answer list \<times> u8 list list" where
  "bounded_run mx [] q = ([], q)"
| "bounded_run mx (Push m # ops) q =
    (if length m > mx then apfst ((#) (Pushed (Inl EINVAL))) (bounded_run mx ops q)
     else if sum_list (map (\<lambda>m. length m + 4) (q @ [m])) > 65536 then apfst ((#) (Pushed (Inl EAGAIN))) (bounded_run mx ops q)
     else apfst ((#) (Pushed (Inr ()))) (bounded_run mx ops (q @ [m])))"
| "bounded_run mx (Peek # ops) [] = apfst ((#) (Peeked (Inl EAGAIN))) (bounded_run mx ops [])"
| "bounded_run mx (Peek # ops) (m # q) = apfst ((#) (Peeked (Inr m))) (bounded_run mx ops q)"

lemma length_frames: "length (frames xs) = sum_list (map (\<lambda>m. length m + 4) xs)"
  by (induction xs) simp_all

lemma ALLOCATED_LEN_value: "ALLOCATED_LEN = 65536"
  by (simp add: ALLOCATED_LEN_def DYNMBOX_MAX_SIZE_def)

lemma few_messages: "box_ok box xs \<Longrightarrow> length xs \<le> 16384"
  using frames_count [of xs] box_ok_used [of box xs] by (simp add: ALLOCATED_LEN_value)

lemma dyn_run_bounded:
  "box_ok box q \<Longrightarrow> \<exists>box'. dyn_run ops box = Some (fst (bounded_run (max_msg_size box) ops q), box') \<and>
    box_ok box' (snd (bounded_run (max_msg_size box) ops q)) \<and>
    (pipe_bytes box = length q \<and> 16384 \<le> pipe_cap box \<longrightarrow> pipe_bytes box' = length (snd (bounded_run (max_msg_size box) ops q)))"
proof (induction "max_msg_size box" ops q arbitrary: box rule: bounded_run.induct)
  case (1 q)
  then show ?case by simp
next
  case (2 m ops q)
  show ?case
  proof (cases "length m > max_msg_size box")
    case True
    then have "dynmbox_push (Some box) (Some m) (length m) = Some (Inl EINVAL, Some box)" by (simp add: push_defs push_unlocked_def)
    then show ?thesis using "2.hyps"(1) [OF True refl "2.prems"] True by auto
  next
    case le: False
    show ?thesis
    proof (cases "sum_list (map (\<lambda>m. length m + 4) (q @ [m])) > 65536")
      case True
      then have "dynmbox_push (Some box) (Some m) (length m) = Some (Inl EAGAIN, Some box)"
        using push_cases(1) [OF "2.prems", of m] le by (simp add: length_frames ALLOCATED_LEN_value)
      then show ?thesis using "2.hyps"(2) [OF le True refl "2.prems"] le True by auto
    next
      case False
      then obtain b where b: "dynmbox_push (Some box) (Some m) (length m) = Some (Inr (), Some b)" "box_ok b (q @ [m])"
        "max_msg_size b = max_msg_size box" "pipe_cap b = pipe_cap box"
        "pipe_bytes b = min (pipe_bytes box + 1) (max (pipe_bytes box) (pipe_cap box))"
        using push_cases(2) [OF "2.prems", of m] le by (auto simp: length_frames ALLOCATED_LEN_value)
      have "length (q @ [m]) \<le> 16384" using few_messages [OF b(2)] .
      then have "pipe_bytes box = length q \<and> 16384 \<le> pipe_cap box \<longrightarrow> pipe_bytes b = length (q @ [m]) \<and> 16384 \<le> pipe_cap b"
        using b(4,5) by simp
      then show ?thesis using "2.hyps"(3) [OF le False b(3) [symmetric] b(2)] b(1-3) le False by auto
    qed
  qed
next
  case (3 ops)
  then show ?case using "3.hyps" [OF refl "3.prems"] peek_empty [OF "3.prems"] by auto
next
  case (4 ops m q)
  obtain b where b: "dynmbox_peek (Some box) True None = Some (Inr m, Some b)" "box_ok b q" "max_msg_size b = max_msg_size box"
    "pipe_cap b = pipe_cap box" "pipe_bytes b = pipe_bytes box - 1"
    using peek_first [OF "4.prems"] by blast
  show ?case using "4.hyps" [OF b(3) [symmetric] b(2)] b by auto
qed

lemma dynmbox_new_ok:
  assumes "mx \<le> DYNMBOX_MAX_SIZE" "length mem = ALLOCATED_LEN"
  obtains box where "dynmbox_new table_ops mx True (Some mem) (Inr (f, cap)) = (Some box, [])" "box_ok box []"
    "max_msg_size box = mx" "pipe_bytes box = 0" "pipe_cap box = cap" "fds box = f"
    "fd_has_close_on_exec table_ops (int (fst f)) (pipe_ends box) = 1"
    "fst f \<noteq> snd f \<Longrightarrow> fd_has_close_on_exec table_ops (int (snd f)) (pipe_ends box) = 0"
  using assms by (cases "fst f = snd f") (auto simp: dynmbox_new_def init_notify_channel_def Let_def box_ok_def content_def fd_defs)

subsection \<open>Interleavings of producers and the consumer\<close>

text \<open>
  The atomic steps: a push up to the release of its lock; the last round of a blocking push, up to the
  release; the rest of a push; a whole \<open>dynmbox_peek\<close>, which does everything under the lock.  The second
  component holds the results of the pushes that released the lock and have not returned.
\<close>

inductive dyn_step :: "dynmbox \<times> unit res list \<Rightarrow> dynmbox \<times> unit res list \<Rightarrow> bool" where
  locked: "push_locked b (Some m) (length m) = Some (r, b') \<Longrightarrow> dyn_step (b, rs) (b', r # rs)"
| locked_block: "length m \<le> max_msg_size b \<Longrightarrow> push_block_loop m [] b = Some (r, b') \<Longrightarrow> dyn_step (b, rs) (b', r # rs)"
| unlocked: "push_unlocked r b = Some b' \<Longrightarrow> dyn_step (b, rs @ r # rs') (b', rs @ rs')"
| peeked: "dynmbox_peek (Some b) True None = Some (r, Some b') \<Longrightarrow> dyn_step (b, rs) (b', rs)"

inductive dyn_reach :: "dynmbox \<Rightarrow> dynmbox \<times> unit res list \<Rightarrow> bool" for b0 where
  start: "dyn_reach b0 (b0, [])"
| step: "dyn_reach b0 s \<Longrightarrow> dyn_step s s' \<Longrightarrow> dyn_reach b0 s'"

text \<open>Every message in the buffer has its byte, in the pipe or still to be written.\<close>

definition dyn_inv :: "nat \<Rightarrow> dynmbox \<times> unit res list \<Rightarrow> bool" where
  "dyn_inv cap s \<longleftrightarrow> (\<exists>xs. box_ok (fst s) xs \<and> length xs \<le> pipe_bytes (fst s) + count_list (snd s) (Inr ()) \<and> pipe_cap (fst s) = cap)"

text \<open>A critical section stores the message and answers success, or changes nothing and fails.\<close>

lemma do_push_outcome:
  assumes "box_ok b xs" "length m \<le> max_msg_size b" "do_push m b = Some (r, b')"
  shows "pipe_cap b' = pipe_cap b \<and> pipe_bytes b' = pipe_bytes b \<and>
    (r = Inr () \<and> box_ok b' (xs @ [m]) \<or> r \<noteq> Inr () \<and> box_ok b' xs)"
proof (cases "length (frames xs) + length m + 4 > ALLOCATED_LEN")
  case True
  then show ?thesis using do_push_full [OF assms(1) True] assms by simp
next
  case False
  then have fits: "length (frames xs) + length m + 4 \<le> ALLOCATED_LEN" by simp
  show ?thesis by (rule do_push_ok [OF assms(1,2) fits]) (use assms(3) in auto)
qed

lemma locked_outcome:
  assumes "box_ok b xs"
    and "push_locked b (Some m) (length m) = Some (r, b') \<or> length m \<le> max_msg_size b \<and> push_block_loop m [] b = Some (r, b')"
  shows "pipe_cap b' = pipe_cap b \<and> pipe_bytes b' = pipe_bytes b \<and>
    (r = Inr () \<and> box_ok b' (xs @ [m]) \<or> r \<noteq> Inr () \<and> box_ok b' xs)"
proof (cases "length m \<le> max_msg_size b")
  case True
  have "do_push m b = Some (r, b')"
    using assms(2) True by (auto simp: push_locked_def msg_bytes_def push_block_loop.simps [of m "[]"] split: if_splits bind_splits sum.splits)
  then show ?thesis using do_push_outcome [OF assms(1) True] by blast
next
  case False
  then show ?thesis using assms by (auto simp: push_locked_def)
qed

lemma dyn_step_inv:
  assumes "dyn_step s s'" "dyn_inv cap s" "16384 \<le> cap"
  shows "dyn_inv cap s'"
proof -
  obtain xs where xs: "box_ok (fst s) xs" "length xs \<le> pipe_bytes (fst s) + count_list (snd s) (Inr ())" "pipe_cap (fst s) = cap"
    using assms(2) by (auto simp: dyn_inv_def)
  from assms(1) xs show ?thesis
  proof cases
    case (locked b m r b' rs)
    then have "box_ok b xs" using xs by simp
    from locked_outcome [OF this, of m r b'] locked xs show ?thesis by (fastforce simp: dyn_inv_def)
  next
    case (locked_block m b r b' rs)
    then have "box_ok b xs" using xs by simp
    from locked_outcome [OF this, of m r b'] locked_block xs show ?thesis by (fastforce simp: dyn_inv_def)
  next
    case (unlocked r b b' rs rs')
    then have ok: "box_ok b xs" "length xs \<le> pipe_bytes b + count_list (rs @ r # rs') (Inr ())" "pipe_cap b = cap" using xs by simp_all
    have few: "length xs \<le> 16384" by (rule few_messages [OF ok(1)])
    show ?thesis
    proof (cases r)
      case (Inl e)
      then show ?thesis using unlocked ok by (auto simp: dyn_inv_def push_unlocked_def)
    next
      case (Inr u)
      then have "b' = byte_pushed b" using unlocked(3) notify_ok(3) [OF ok(1)] by simp
      then show ?thesis using unlocked(2) ok few assms(3) Inr by (auto simp: dyn_inv_def)
    qed
  next
    case (peeked b r b' rs)
    then have ok: "box_ok b xs" "length xs \<le> pipe_bytes b + count_list rs (Inr ())" "pipe_cap b = cap" using xs by simp_all
    show ?thesis
    proof (cases xs)
      case Nil
      then show ?thesis using peek_empty [of b] ok peeked by (auto simp: dyn_inv_def)
    next
      case (Cons m ys)
      then obtain b1 where "dynmbox_peek (Some b) True None = Some (Inr m, Some b1)" "box_ok b1 ys"
        "pipe_cap b1 = cap" "pipe_bytes b1 = pipe_bytes b - 1"
        using peek_first [of b m ys] ok by auto
      then show ?thesis using ok Cons peeked by (auto simp: dyn_inv_def intro!: exI [of _ ys])
    qed
  qed
qed

lemma dyn_reach_inv: "dyn_reach b0 s \<Longrightarrow> dyn_inv cap (b0, []) \<Longrightarrow> 16384 \<le> cap \<Longrightarrow> dyn_inv cap s"
  by (induction rule: dyn_reach.induct) (auto intro: dyn_step_inv)

text \<open>A consumer that is faster than the producer's notification leaves a byte behind.\<close>

lemma stale_byte:
  assumes "box_ok b0 []" "pipe_bytes b0 = 0" "0 < pipe_cap b0"
  shows "\<exists>b. dyn_reach b0 (b, []) \<and> box_ok b [] \<and> pipe_bytes b = 1 \<and>
    dynmbox_peek (Some b) True None = Some (Inl EAGAIN, Some b)"
proof -
  have fits: "length ([] :: u8 list) \<le> max_msg_size b0" "length (frames []) + length ([] :: u8 list) + 4 \<le> ALLOCATED_LEN"
    by (simp_all add: ALLOCATED_LEN_value)
  obtain mem w u where p: "do_push [] b0 = Some (Inr (), b0\<lparr>bufmem := mem, write_idx := w, used := u\<rparr>)"
    "box_ok (b0\<lparr>bufmem := mem, write_idx := w, used := u\<rparr>) ([] @ [[]])"
    by (rule do_push_ok [OF assms(1) fits])
  let ?b1 = "b0\<lparr>bufmem := mem, write_idx := w, used := u\<rparr>"
  have l: "push_locked b0 (Some []) (length []) = Some (Inr (), ?b1)" using p(1) by (simp add: push_locked_def msg_bytes_def)
  obtain b2 where q: "dynmbox_peek (Some ?b1) True None = Some (Inr [], Some b2)" "box_ok b2 []"
    "pipe_cap b2 = pipe_cap ?b1" "pipe_bytes b2 = pipe_bytes ?b1 - 1"
    using peek_first [of ?b1 "[]" "[]"] p(2) by auto
  have "dyn_reach b0 (?b1, [Inr ()])" using dyn_reach.step [OF dyn_reach.start dyn_step.locked [OF l]] .
  then have "dyn_reach b0 (b2, [] @ Inr () # [])" using dyn_reach.step dyn_step.peeked [OF q(1)] by fastforce
  then have "dyn_reach b0 (byte_pushed b2, [] @ [])" using dyn_reach.step dyn_step.unlocked notify_ok(3) [OF q(2)] by blast
  moreover have "pipe_bytes (byte_pushed b2) = 1" using q(3,4) assms(2,3) by simp
  ultimately show ?thesis using q(2) peek_empty [of "byte_pushed b2"] by (intro exI [of _ "byte_pushed b2"]) simp
qed


subsection \<open>The blocking push\<close>

lemma push_block_waits:
  assumes "\<forall>b \<in> set (box # bs). rbuf_space_left b < length m + 4"
  shows "push_block_loop m (map Inr bs @ ws) box =
    (case ws of [] \<Rightarrow> None
     | Inl e # _ \<Rightarrow> Some (Inl e, last (box # bs))
     | Inr b # ws \<Rightarrow> push_block_loop m ws b)"
  using assms
proof (induction bs arbitrary: box)
  case Nil
  then show ?case by (subst push_block_loop.simps) (simp split: list.split sum.split)
next
  case (Cons b bs)
  then show ?case by (subst push_block_loop.simps) (simp split: list.split sum.split)
qed

lemma push_block_room:
  assumes "box_ok b xs" "length m \<le> max_msg_size b" "length (frames xs) + length m + 4 \<le> ALLOCATED_LEN"
  shows "\<exists>b'. push_block_loop m ws b = Some (Inr (), b') \<and> box_ok b' (xs @ [m]) \<and>
    pipe_bytes b' = pipe_bytes b \<and> pipe_cap b' = pipe_cap b"
proof -
  obtain mem w u where p: "do_push m b = Some (Inr (), b\<lparr>bufmem := mem, write_idx := w, used := u\<rparr>)"
    "box_ok (b\<lparr>bufmem := mem, write_idx := w, used := u\<rparr>) (xs @ [m])"
    by (rule do_push_ok [OF assms])
  have "\<not> rbuf_space_left b < length m + 4" using space_left_eq [OF assms(1)] assms(3) by simp
  then show ?thesis using p by (subst push_block_loop.simps) simp
qed

lemma deadline_exact:
  assumes "0 < t" "0 \<le> tvl_usec tv" "tvl_usec tv < 1000000" "0 \<le> tvl_sec tv" "tvl_sec tv < 2 ^ 61"
  shows "\<exists>d. push_deadline (Inr tv) t = Inr (Some d) \<and>
    ns_of d = (tvl_sec tv * 1000000 + tvl_usec tv + uint t * 1000 mod 2 ^ 32) * 1000"
proof -
  define ts where "ts = \<lparr>tv_sec = tvl_sec tv, tv_nsec = tvl_usec tv * 1000\<rparr>"
  define us where "us = uint (t * 1000)"
  have us: "us = uint t * 1000 mod 2 ^ 32" by (simp add: us_def uint_word_arith_bintrs take_bit_eq_mod)
  have b: "0 \<le> us" "us < 2 ^ 32" unfolding us by simp_all
  have ok: "ts_ok ts" using assms(2-5) by (simp add: ts_ok_def ts_def)
  have conv: "time_timeval_to_timespec (Some tv) True = Inr ts"
    using assms(2,3) by (simp add: time_timeval_to_timespec_def ts_def s64_def)
  have s: "s64 (us * 1000) = Inr (us * 1000)" using b by (intro s64_ok) simp_all
  have "\<bar>us * 1000\<bar> < 2 ^ 63" using b by simp
  then obtain r where r: "time_timespec_add_ns (Some ts) (us * 1000) True = Inr r" "ns_of r = ns_of ts + us * 1000"
    using add_ns_exact [OF ok] by blast
  have "push_deadline (Inr tv) t = Inr (Some r)"
    using assms(1) conv s r(1) by (simp add: push_deadline_def time_timespec_add_us_def flip: us_def)
  moreover have "ns_of r = (tvl_sec tv * 1000000 + tvl_usec tv + us) * 1000" using r(2) by (simp add: ts_def ns_of_def)
  ultimately show ?thesis using us by auto
qed

subsection \<open>Properties\<close>

text \<open>
  Property C4.  From creation on, every sequence of pushes and peeks answers as a queue of messages
  bounded by 65536 bytes, headers included: \<open>EINVAL\<close> above the maximum size, \<open>EAGAIN\<close> exactly when
  a message does not fit or the queue is empty, and otherwise first in first out, each message whole
  wherever the ring buffer wraps.  No assertion fails and no access leaves the buffer.
\<close>

theorem dynmbox_refines_queue:
  assumes "mx \<le> DYNMBOX_MAX_SIZE" "length mem = ALLOCATED_LEN"
  shows "\<exists>box box'. dynmbox_new table_ops mx True (Some mem) (Inr pip) = (Some box, []) \<and>
    dyn_run ops box = Some (fst (bounded_run mx ops []), box') \<and> box_ok box' (snd (bounded_run mx ops []))"
proof -
  obtain f cap where pip: "pip = (f, cap)" by (cases pip)
  obtain box where b: "dynmbox_new table_ops mx True (Some mem) (Inr (f, cap)) = (Some box, [])" "box_ok box []"
    "max_msg_size box = mx" by (rule dynmbox_new_ok [OF assms])
  then show ?thesis using dyn_run_bounded [OF b(2), of ops] pip by auto
qed

lemma dynmbox_refines_queue_witness:
  "\<exists>box box'. dynmbox_new table_ops 3 True (Some (replicate ALLOCATED_LEN 0)) (Inr ((5, 6), 65536)) = (Some box, []) \<and>
    dyn_run [Push [1, 2], Push [1, 2, 3, 4], Peek, Peek] box =
      Some ([Pushed (Inr ()), Pushed (Inl EINVAL), Peeked (Inr [1, 2]), Peeked (Inl EAGAIN)], box')"
proof -
  have "3 \<le> DYNMBOX_MAX_SIZE" "length (replicate ALLOCATED_LEN (0 :: u8)) = ALLOCATED_LEN"
    by (simp_all add: DYNMBOX_MAX_SIZE_def)
  from dynmbox_refines_queue [OF this, of "((5, 6), 65536)" "[Push [1, 2], Push [1, 2, 3, 4], Peek, Peek]"]
  show ?thesis by auto
qed

text \<open>
  Property C18.  Without interleaving, after any sequence of pushes and peeks the pipe holds one byte for
  each message in the mailbox, so its descriptor is readable exactly when a message waits.  With producers
  and the consumer interleaved between the release of the lock and the return, and a pipe of at least 16384
  bytes: each stored message has its byte in the pipe or in a push that has not returned and whose rest does
  not block, so a consumer that waits for the descriptor never misses a message.  The converse fails: when a
  message is read before its byte was written, the byte stays; the pipe is then readable with an empty
  mailbox, and \<open>dynmbox_peek\<close> answers \<open>EAGAIN\<close> without removing it.
\<close>

theorem dynmbox_notification:
  assumes "dynmbox_new table_ops mx True (Some mem) (Inr (f, cap)) = (Some b0, [])" "length mem = ALLOCATED_LEN" "16384 \<le> cap"
  shows "(\<exists>b. dyn_run ops b0 = Some (fst (bounded_run mx ops []), b) \<and> pipe_bytes b = length (snd (bounded_run mx ops []))) \<and>
    (\<forall>b rs. dyn_reach b0 (b, rs) \<longrightarrow>
      (\<exists>xs. box_ok b xs \<and> length xs \<le> pipe_bytes b + count_list rs (Inr ()) \<and> (Inr () \<notin> set rs \<and> xs \<noteq> [] \<longrightarrow> 0 < pipe_bytes b)) \<and>
      (\<forall>r \<in> set rs. push_unlocked r b \<noteq> None)) \<and>
    (\<exists>b. dyn_reach b0 (b, []) \<and> box_ok b [] \<and> pipe_bytes b = 1 \<and>
      dynmbox_peek (Some b) True None = Some (Inl EAGAIN, Some b))"
proof -
  have mx: "mx \<le> DYNMBOX_MAX_SIZE" using assms(1) by (auto simp: dynmbox_new_def split: if_splits)
  obtain b1 where "dynmbox_new table_ops mx True (Some mem) (Inr (f, cap)) = (Some b1, [])" "box_ok b1 []" "max_msg_size b1 = mx"
    "pipe_bytes b1 = 0" "pipe_cap b1 = cap" by (rule dynmbox_new_ok [OF mx assms(2)])
  then have new: "box_ok b0 []" "pipe_bytes b0 = 0" "pipe_cap b0 = cap" "max_msg_size b0 = mx" using assms(1) by simp_all
  have "dyn_inv cap (b0, [])" using new by (auto simp: dyn_inv_def intro!: exI [of _ "[]"])
  then have inv: "dyn_inv cap (b, rs)" if "dyn_reach b0 (b, rs)" for b rs using dyn_reach_inv that assms(3) by blast
  have "(\<exists>xs. box_ok b xs \<and> length xs \<le> pipe_bytes b + count_list rs (Inr ()) \<and> (Inr () \<notin> set rs \<and> xs \<noteq> [] \<longrightarrow> 0 < pipe_bytes b)) \<and>
      (\<forall>r \<in> set rs. push_unlocked r b \<noteq> None)"
    if reach: "dyn_reach b0 (b, rs)" for b rs
  proof -
    obtain xs where xs: "box_ok b xs" "length xs \<le> pipe_bytes b + count_list rs (Inr ())" using inv [OF reach] by (auto simp: dyn_inv_def)
    then have "push_unlocked r b \<noteq> None" for r using notify_ok(3) by (cases r) (simp_all add: push_unlocked_def)
    then show ?thesis using xs by (intro conjI exI [of _ xs]) (auto simp flip: length_greater_0_conv)
  qed
  moreover have "\<exists>b. dyn_reach b0 (b, []) \<and> box_ok b [] \<and> pipe_bytes b = 1 \<and>
      dynmbox_peek (Some b) True None = Some (Inl EAGAIN, Some b)"
    using stale_byte [OF new(1,2)] new(3) assms(3) by simp
  moreover have "\<exists>b. dyn_run ops b0 = Some (fst (bounded_run mx ops []), b) \<and> pipe_bytes b = length (snd (bounded_run mx ops []))"
    using dyn_run_bounded [OF new(1), of ops] new(2-4) assms(3) by auto
  ultimately show ?thesis by blast
qed

lemma dynmbox_notification_witness:
  "\<exists>b0 b. dynmbox_new table_ops 8 True (Some (replicate ALLOCATED_LEN 0)) (Inr ((5, 6), 65536)) = (Some b0, []) \<and>
    dyn_reach b0 (b, []) \<and> box_ok b [] \<and> pipe_bytes b = 1"
proof -
  have le: "8 \<le> DYNMBOX_MAX_SIZE" and len: "length (replicate ALLOCATED_LEN (0 :: u8)) = ALLOCATED_LEN"
    by (simp_all add: DYNMBOX_MAX_SIZE_def)
  obtain b0 where b0: "dynmbox_new table_ops 8 True (Some (replicate ALLOCATED_LEN 0)) (Inr ((5, 6), 65536)) = (Some b0, [])"
    by (rule dynmbox_new_ok [OF le len])
  have "(16384 :: nat) \<le> 65536" by simp
  from dynmbox_notification [OF b0 len this] b0 show ?thesis by blast
qed

text \<open>
  Property C39.  A blocking push that finds room stores its message behind the others at once, without
  waiting, and writes its byte.  Otherwise it waits: it returns the first error of a wait, blocks while no
  wait ends, and stores the message as soon as a wait leaves room.  The deadline of the timed waits is the
  current time plus the timeout, but in microseconds modulo 2^32 for every timeout: it is exact up to
  4294967 ms, and a timeout of 4294968 ms (71 minutes) expires after 704 microseconds.
\<close>

theorem dynmbox_push_block_correct:
  assumes "length m \<le> max_msg_size box" "push_deadline now t = Inr dl"
    and "0 \<le> tvl_usec tv" "tvl_usec tv < 1000000" "0 \<le> tvl_sec tv" "tvl_sec tv < 2 ^ 61"
  shows "(box_ok box xs \<and> length (frames xs) + length m + 4 \<le> 65536 \<longrightarrow>
      (\<exists>b'. dynmbox_push_block (Some box) (Some m) (length m) t now waits = Some (Inr (), Some b') \<and> box_ok b' (xs @ [m]) \<and>
        pipe_bytes b' = min (pipe_bytes box + 1) (max (pipe_bytes box) (pipe_cap box)))) \<and>
    ((\<forall>b \<in> set (box # bs). rbuf_space_left b < length m + 4) \<longrightarrow>
      (waits dl = map Inr bs \<longrightarrow> dynmbox_push_block (Some box) (Some m) (length m) t now waits = None) \<and>
      (waits dl = map Inr bs @ Inl e # ws \<longrightarrow>
        dynmbox_push_block (Some box) (Some m) (length m) t now waits = Some (Inl e, Some (last (box # bs)))) \<and>
      (waits dl = map Inr bs @ Inr b # ws \<and> box_ok b xs \<and> length m \<le> max_msg_size b \<and>
          length (frames xs) + length m + 4 \<le> 65536 \<longrightarrow>
        (\<exists>b'. dynmbox_push_block (Some box) (Some m) (length m) t now waits = Some (Inr (), Some b') \<and> box_ok b' (xs @ [m]) \<and>
          pipe_bytes b' = min (pipe_bytes b + 1) (max (pipe_bytes b) (pipe_cap b))))) \<and>
    (0 < t \<longrightarrow> (\<exists>d. push_deadline (Inr tv) t = Inr (Some d) \<and>
        ns_of d = (tvl_sec tv * 1000000 + tvl_usec tv + uint t * 1000 mod 2 ^ 32) * 1000 \<and>
        (t \<le> 4294967 \<longrightarrow> ns_of d = (tvl_sec tv * 1000000 + tvl_usec tv + uint t * 1000) * 1000))) \<and>
    (t = 0 \<longrightarrow> push_deadline (Inr tv) t = Inr None) \<and>
    (\<exists>d. push_deadline (Inr tv) 4294968 = Inr (Some d) \<and> ns_of d = (tvl_sec tv * 1000000 + tvl_usec tv + 704) * 1000)"
proof (intro conjI impI)
  have run: "dynmbox_push_block (Some box) (Some m) (length m) t now waits =
      Option.bind (push_block_loop m (waits dl) box) (\<lambda>(r, b). Option.bind (push_unlocked r b) (\<lambda>b. Some (r, Some b)))"
    using assms(1,2) by (simp add: dynmbox_push_block_def msg_bytes_def)
  note stores = push_block_room [OF _ _ _, unfolded ALLOCATED_LEN_value]
  show "\<exists>b'. dynmbox_push_block (Some box) (Some m) (length m) t now waits = Some (Inr (), Some b') \<and> box_ok b' (xs @ [m]) \<and>
      pipe_bytes b' = min (pipe_bytes box + 1) (max (pipe_bytes box) (pipe_cap box))"
    if "box_ok box xs \<and> length (frames xs) + length m + 4 \<le> 65536"
    using stores [of box xs m "waits dl"] that assms(1) by (auto simp: run notify_ok(3))
  assume full: "\<forall>b \<in> set (box # bs). rbuf_space_left b < length m + 4"
  note waits = push_block_waits [OF full]
  show "dynmbox_push_block (Some box) (Some m) (length m) t now waits = None" if "waits dl = map Inr bs"
    using waits [of "[]"] that by (simp add: run)
  show "dynmbox_push_block (Some box) (Some m) (length m) t now waits = Some (Inl e, Some (last (box # bs)))"
    if "waits dl = map Inr bs @ Inl e # ws"
    using waits [of "Inl e # ws"] that by (simp add: run push_unlocked_def)
  show "\<exists>b'. dynmbox_push_block (Some box) (Some m) (length m) t now waits = Some (Inr (), Some b') \<and> box_ok b' (xs @ [m]) \<and>
      pipe_bytes b' = min (pipe_bytes b + 1) (max (pipe_bytes b) (pipe_cap b))"
    if "waits dl = map Inr bs @ Inr b # ws \<and> box_ok b xs \<and> length m \<le> max_msg_size b \<and>
        length (frames xs) + length m + 4 \<le> 65536"
    using stores [of b xs m ws] that waits [of "Inr b # ws"] by (auto simp: run notify_ok(3))
next
  assume t: "0 < t"
  have "uint t * 1000 mod 2 ^ 32 = uint t * 1000" if "t \<le> 4294967"
  proof -
    have "uint t \<le> 4294967" using that by (simp add: word_le_def)
    then show ?thesis by (intro mod_pos_pos_trivial) simp_all
  qed
  then show "\<exists>d. push_deadline (Inr tv) t = Inr (Some d) \<and>
      ns_of d = (tvl_sec tv * 1000000 + tvl_usec tv + uint t * 1000 mod 2 ^ 32) * 1000 \<and>
      (t \<le> 4294967 \<longrightarrow> ns_of d = (tvl_sec tv * 1000000 + tvl_usec tv + uint t * 1000) * 1000)"
    using deadline_exact [OF t assms(3-6)] by auto
next
  show "push_deadline (Inr tv) t = Inr None" if "t = 0" using that by (simp add: push_deadline_def)
  show "\<exists>d. push_deadline (Inr tv) 4294968 = Inr (Some d) \<and> ns_of d = (tvl_sec tv * 1000000 + tvl_usec tv + 704) * 1000"
    using deadline_exact [of 4294968, OF _ assms(3-6)] by simp
qed

lemma dynmbox_push_block_correct_witness:
  "\<exists>box b'. dynmbox_new table_ops 3 True (Some (replicate ALLOCATED_LEN 0)) (Inr ((5, 6), 65536)) = (Some box, []) \<and>
    dynmbox_push_block (Some box) (Some [1, 2]) 2 0 (Inl EIO) (\<lambda>_. []) = Some (Inr (), Some b') \<and> box_ok b' [[1, 2]] \<and> pipe_bytes b' = 1"
proof -
  obtain box where b: "dynmbox_new table_ops 3 True (Some (replicate ALLOCATED_LEN 0)) (Inr ((5, 6), 65536)) = (Some box, [])"
    "box_ok box []" "max_msg_size box = 3" "pipe_bytes box = 0" "pipe_cap box = 65536"
    by (rule dynmbox_new_ok [of 3 "replicate ALLOCATED_LEN 0"]) (simp_all add: DYNMBOX_MAX_SIZE_def)
  have "length [1, 2 :: u8] \<le> max_msg_size box" "push_deadline (Inl EIO) 0 = Inr None"
    using b(3) by (simp_all add: push_deadline_def)
  from dynmbox_push_block_correct [OF this, of "\<lparr>tvl_sec = 1700000000, tvl_usec = 0\<rparr>" "[]" "\<lambda>_. []", THEN conjunct1] b
  show ?thesis by (auto simp: numeral_2_eq_2)
qed

end
