(* ===== verification/DynmboxThreads.thy ===== *)
theory DynmboxThreads
  imports Dynmbox
begin

text \<open>
  Threads that share a mailbox (src/src/dynmbox.c): producers that block on the condition variable,
  producers that do not block, and consumers, in every interleaving of their critical sections.

  A thread in \<open>dynmbox_push_block\<close> sleeps in a wait or was woken and waits for the mutex; outside the
  call it is idle.  \<open>pthread_cond_signal\<close> wakes at least one sleeping thread if there is one; a thread may also
  wake without a signal.  POSIX says of a timed wait that runs out that it "may consume a condition
  signal directed concurrently at the condition variable"; the flag \<open>swallow\<close> of the steps allows that.
\<close>

section \<open>Threads and steps\<close>

text \<open>The \<open>bool\<close> tells whether the call has a timeout.\<close>

datatype pc = Idle | Asleep "u8 list" bool | Awake "u8 list" bool

text \<open>
  \<open>unsent\<close> counts the bytes for the pipe that are still to be written; \<open>sent\<close> and \<open>got\<close> record the messages
  stored and delivered so far.
\<close>

record mail =
  mbox :: dynmbox
  unsent :: nat
  pcs :: "nat \<Rightarrow> pc"
  sent :: "u8 list list"
  got :: "u8 list list"

definition mail_start :: "dynmbox \<Rightarrow> mail" where
  "mail_start b = \<lparr>mbox = b, unsent = 0, pcs = (\<lambda>_. Idle), sent = [], got = []\<rparr>"

text \<open>How a wait ends, and what the two wait functions answer then.\<close>

datatype wake = Signalled | Spurious | Expired

definition wait_cond :: "wake \<Rightarrow> unit res option" where
  "wait_cond w = (if w = Expired then None else Some (Inr ()))"

definition wait_cond_timed :: "wake \<Rightarrow> unit res option" where
  "wait_cond_timed w = Some (if w = Expired then Inl ETIMEDOUT else Inr ())"

definition wait_answer :: "bool \<Rightarrow> wake \<Rightarrow> unit res option" where
  "wait_answer timed w = (if timed then wait_cond_timed w else wait_cond w)"

text \<open>
  Thread \<open>i\<close> under the lock at the head of the loop of \<open>dynmbox_push_block\<close>: it goes to sleep, or it stores
  its message and leaves.  \<open>None\<close>: a failed assertion.
\<close>

definition push_block_iter :: "nat \<Rightarrow> u8 list \<Rightarrow> bool \<Rightarrow> mail \<Rightarrow> mail option" where
  "push_block_iter i m timed s =
    (if rbuf_space_left (mbox s) < length m + 4 then Some (s\<lparr>pcs := (pcs s)(i := Asleep m timed)\<rparr>)
     else do {
       (res, b) \<leftarrow> do_push m (mbox s);
       (case res of Inl e \<Rightarrow> None
        | Inr _ \<Rightarrow> Some (s\<lparr>mbox := b, unsent := unsent s + 1, pcs := (pcs s)(i := Idle), sent := sent s @ [m]\<rparr>)) })"

definition asleep :: "mail \<Rightarrow> nat set" where
  "asleep s = {i. \<exists>m timed. pcs s i = Asleep m timed}"

definition awake :: "mail \<Rightarrow> nat set" where
  "awake s = {i. \<exists>m timed. pcs s i = Awake m timed}"

definition blocked :: "mail \<Rightarrow> nat set" where
  "blocked s = {i. pcs s i \<noteq> Idle}"

text \<open>Thread by thread, what a wait that ends makes of its program counter.\<close>

definition after_wait :: "wake \<Rightarrow> pc \<Rightarrow> pc" where
  "after_wait w p = (case p of
     Asleep m timed \<Rightarrow> (case wait_answer timed w of Some (Inr _) \<Rightarrow> Awake m timed | Some (Inl e) \<Rightarrow> Idle | None \<Rightarrow> p)
   | _ \<Rightarrow> p)"

definition woken :: "nat set \<Rightarrow> mail \<Rightarrow> mail" where
  "woken W s = s\<lparr>pcs := (\<lambda>i. if i \<in> W then after_wait Signalled (pcs s i) else pcs s i)\<rparr>"

definition cond_signal :: "mail \<Rightarrow> mail \<Rightarrow> bool" where
  "cond_signal s s' \<longleftrightarrow> (\<exists>W \<subseteq> asleep s. (asleep s = {} \<or> W \<noteq> {}) \<and> s' = woken W s)"

definition taken :: "u8 list \<Rightarrow> dynmbox \<Rightarrow> mail \<Rightarrow> mail" where
  "taken m b s = s\<lparr>mbox := b, got := got s @ [m]\<rparr>"

inductive mail_step :: "bool \<Rightarrow> mail \<Rightarrow> mail \<Rightarrow> bool" for swallow where
  call: "pcs s i = Idle \<Longrightarrow> length m \<le> max_msg_size (mbox s) \<Longrightarrow> push_block_iter i m timed s = Some s' \<Longrightarrow>
    mail_step swallow s s'"
| resume: "pcs s i = Awake m timed \<Longrightarrow> push_block_iter i m timed s = Some s' \<Longrightarrow> mail_step swallow s s'"
| wait_end: "w \<noteq> Signalled \<Longrightarrow> mail_step swallow s (s\<lparr>pcs := (pcs s)(i := after_wait w (pcs s i))\<rparr>)"
| push: "pcs s i = Idle \<Longrightarrow> length m \<le> max_msg_size (mbox s) \<Longrightarrow> do_push m (mbox s) = Some (Inr (), b) \<Longrightarrow>
    mail_step swallow s (s\<lparr>mbox := b, unsent := unsent s + 1, sent := sent s @ [m]\<rparr>)"
| notify: "unsent s = Suc n \<Longrightarrow> push_unlocked (Inr ()) (mbox s) = Some b \<Longrightarrow> mail_step swallow s (s\<lparr>mbox := b, unsent := n\<rparr>)"
| deliver: "dynmbox_peek (Some (mbox s)) True None = Some (Inr m, Some b) \<Longrightarrow> cond_signal (taken m b s) s' \<Longrightarrow>
    mail_step swallow s s'"
| no_message: "dynmbox_peek (Some (mbox s)) True None = Some (Inl e, Some b) \<Longrightarrow> mail_step swallow s (s\<lparr>mbox := b\<rparr>)"
| deliver_lost: "swallow \<Longrightarrow> dynmbox_peek (Some (mbox s)) True None = Some (Inr m, Some b) \<Longrightarrow> pcs s i = Asleep x True \<Longrightarrow>
    mail_step swallow s ((taken m b s)\<lparr>pcs := (pcs s)(i := after_wait Expired (pcs s i))\<rparr>)"

inductive mail_reach :: "bool \<Rightarrow> dynmbox \<Rightarrow> mail \<Rightarrow> bool" for swallow b where
  start: "mail_reach swallow b (mail_start b)"
| step: "mail_reach swallow b s \<Longrightarrow> mail_step swallow s s' \<Longrightarrow> mail_reach swallow b s'"

text \<open>The steps that serve the threads already in a call: woken threads run and consumers deliver.\<close>

inductive serve :: "mail \<Rightarrow> mail \<Rightarrow> bool" where
  resume: "pcs s i = Awake m timed \<Longrightarrow> push_block_iter i m timed s = Some s' \<Longrightarrow> serve s s'"
| deliver: "dynmbox_peek (Some (mbox s)) True None = Some (Inr m, Some b) \<Longrightarrow> cond_signal (taken m b s) s' \<Longrightarrow> serve s s'"

inductive_cases serveE: "serve s s'"

lemma serve_step: "serve s s' \<Longrightarrow> mail_step swallow s s'"
  by (induction rule: serve.induct) (auto intro: mail_step.intros)

section \<open>The invariant\<close>

text \<open>
  The mailbox is well formed and holds what was stored and not yet delivered, in order; every thread in a
  call has a message of admissible size; finitely many threads are in a call.
\<close>

definition pc_ok :: "nat \<Rightarrow> pc \<Rightarrow> bool" where
  "pc_ok mx p = (case p of Idle \<Rightarrow> True | Asleep m timed \<Rightarrow> length m \<le> mx | Awake m timed \<Rightarrow> length m \<le> mx)"

definition mail_ok :: "mail \<Rightarrow> u8 list list \<Rightarrow> bool" where
  "mail_ok s xs \<longleftrightarrow> box_ok (mbox s) xs \<and> sent s = got s @ xs \<and> finite (blocked s) \<and>
    (\<forall>i. pc_ok (max_msg_size (mbox s)) (pcs s i))"

text \<open>Nobody sleeps unless there is a message to deliver or a woken thread.\<close>

definition no_lost_wakeup :: "mail \<Rightarrow> u8 list list \<Rightarrow> bool" where
  "no_lost_wakeup s xs \<longleftrightarrow> asleep s = {} \<or> xs \<noteq> [] \<or> awake s \<noteq> {}"

lemma pc_ok_simps [simp]:
  "pc_ok mx Idle" "pc_ok mx (Asleep m timed) \<longleftrightarrow> length m \<le> mx" "pc_ok mx (Awake m timed) \<longleftrightarrow> length m \<le> mx"
  by (simp_all add: pc_ok_def)

lemma after_wait_simps [simp]:
  "after_wait w Idle = Idle" "after_wait w (Awake m timed) = Awake m timed"
  "after_wait Signalled (Asleep m timed) = Awake m timed"
  "after_wait Spurious (Asleep m timed) = Awake m timed"
  "after_wait Expired (Asleep m timed) = (if timed then Idle else Asleep m timed)"
  by (simp_all add: after_wait_def wait_answer_def wait_cond_def wait_cond_timed_def)

lemma after_wait_ok: "pc_ok mx p \<Longrightarrow> pc_ok mx (after_wait w p)"
  by (cases p; cases w) simp_all

lemma after_wait_cases:
  "after_wait w p \<in> {p, Idle} \<or> (\<exists>m timed. p = Asleep m timed \<and> after_wait w p = Awake m timed)"
  by (cases p; cases w) simp_all

lemma mail_start_ok: "box_ok b [] \<Longrightarrow> mail_ok (mail_start b) []" "no_lost_wakeup (mail_start b) []"
  by (simp_all add: mail_ok_def mail_start_def blocked_def no_lost_wakeup_def asleep_def)

lemma blocked_upd: "finite (blocked s) \<Longrightarrow> pcs s' = (pcs s)(i := p) \<Longrightarrow> finite (blocked s')"
  by (rule finite_subset [of _ "insert i (blocked s)"]) (auto simp: blocked_def split: if_splits)

subsection \<open>One iteration of the blocking push\<close>

lemma iter_cases:
  assumes "mail_ok s xs" "length m \<le> max_msg_size (mbox s)"
  obtains (sleep) "push_block_iter i m timed s = Some (s\<lparr>pcs := (pcs s)(i := Asleep m timed)\<rparr>)" "xs \<noteq> []"
  | (store) b where "push_block_iter i m timed s =
      Some (s\<lparr>mbox := b, unsent := unsent s + 1, pcs := (pcs s)(i := Idle), sent := sent s @ [m]\<rparr>)"
      "box_ok b (xs @ [m])" "max_msg_size b = max_msg_size (mbox s)"
proof (cases "length (frames xs) + length m + 4 \<le> ALLOCATED_LEN")
  case True
  have ok: "box_ok (mbox s) xs" using assms(1) by (simp add: mail_ok_def)
  obtain mem w u where p: "do_push m (mbox s) = Some (Inr (), (mbox s)\<lparr>bufmem := mem, write_idx := w, used := u\<rparr>)"
    "box_ok ((mbox s)\<lparr>bufmem := mem, write_idx := w, used := u\<rparr>) (xs @ [m])"
    by (rule do_push_ok [OF ok assms(2) True])
  have "\<not> rbuf_space_left (mbox s) < length m + 4" using space_left_eq [OF ok] True by simp
  then show thesis using store [OF _ p(2)] p(1) by (simp add: push_block_iter_def)
next
  case False
  have ok: "box_ok (mbox s) xs" using assms(1) by (simp add: mail_ok_def)
  have "length m \<le> DYNMBOX_MAX_SIZE" using assms(2) ok by (simp add: box_ok_def)
  then have "xs \<noteq> []" using False by (auto simp: ALLOCATED_LEN_def)
  moreover have "rbuf_space_left (mbox s) < length m + 4" using space_left_eq [OF ok] False by simp
  ultimately show thesis using sleep by (simp add: push_block_iter_def)
qed

lemma iter_ok:
  assumes "mail_ok s xs" "length m \<le> max_msg_size (mbox s)" "push_block_iter i m timed s = Some s'"
  shows "\<exists>ys. mail_ok s' ys \<and> (no_lost_wakeup s xs \<longrightarrow> no_lost_wakeup s' ys)"
  using assms(1,2)
proof (cases rule: iter_cases [where i = i and timed = timed])
  case sleep
  have "finite (blocked s')" using blocked_upd [of s s' i "Asleep m timed"] sleep assms(1,3) by (simp add: mail_ok_def)
  then have "mail_ok s' xs" "no_lost_wakeup s' xs" using assms sleep by (auto simp: mail_ok_def no_lost_wakeup_def)
  then show ?thesis by blast
next
  case (store b)
  have "finite (blocked s')" using blocked_upd [of s s' i Idle] store(1) assms(1,3) by (simp add: mail_ok_def)
  then have "mail_ok s' (xs @ [m])" "no_lost_wakeup s' (xs @ [m])"
    using assms store by (auto simp: mail_ok_def no_lost_wakeup_def)
  then show ?thesis by blast
qed

subsection \<open>A delivery and its signal\<close>

lemma peek_cases:
  assumes "box_ok (b :: dynmbox) xs" "dynmbox_peek (Some b) True None = Some (r, Some b')"
  obtains (deliver) m ys where "xs = m # ys" "r = Inr m" "box_ok b' ys" "max_msg_size b' = max_msg_size b"
  | (drained) "xs = []" "b' = b" "\<exists>e. r = Inl e"
proof (cases xs)
  case Nil
  then show thesis using peek_empty [of b] assms drained by auto
next
  case (Cons m ys)
  then show thesis using peek_first [of b m ys] assms deliver by auto
qed

lemma taken_ok:
  assumes "mail_ok s xs" "dynmbox_peek (Some (mbox s)) True None = Some (Inr m, Some b)"
  obtains ys where "xs = m # ys" "mail_ok (taken m b s) ys"
proof -
  have ok: "box_ok (mbox s) xs" using assms(1) by (simp add: mail_ok_def)
  from ok assms(2) obtain ys where "xs = m # ys" "box_ok b ys" "max_msg_size b = max_msg_size (mbox s)"
    by (cases rule: peek_cases) auto
  then show thesis using that assms(1) by (simp add: mail_ok_def taken_def blocked_def)
qed

lemma woken_ok: "mail_ok s xs \<Longrightarrow> mail_ok (woken W s) xs"
proof -
  assume ok: "mail_ok s xs"
  have "blocked (woken W s) \<subseteq> blocked s" by (auto simp: blocked_def woken_def split: if_splits)
  then have "finite (blocked (woken W s))" using ok by (auto simp: mail_ok_def intro: finite_subset)
  then show ?thesis using ok by (simp add: mail_ok_def woken_def after_wait_ok)
qed

lemma signal_ok:
  assumes "cond_signal s s'" "mail_ok s xs"
  shows "mail_ok s' xs" "no_lost_wakeup s' xs" "blocked s' = blocked s"
proof -
  obtain W where W: "W \<subseteq> asleep s" "asleep s = {} \<or> W \<noteq> {}" "s' = woken W s" using assms(1) by (auto simp: cond_signal_def)
  show "mail_ok s' xs" using woken_ok [OF assms(2)] W(3) by simp
  have woke: "\<exists>m timed. pcs s i = Asleep m timed \<and> pcs s' i = Awake m timed" if "i \<in> W" for i
    using that W(1,3) by (fastforce simp: woken_def asleep_def)
  have rest: "pcs s' i = pcs s i" if "i \<notin> W" for i using that W(3) by (simp add: woken_def)
  show "blocked s' = blocked s" using woke rest unfolding blocked_def by (metis pc.distinct(1,3))
  have "awake s' \<noteq> {}" if "i \<in> W" for i using woke [OF that] by (auto simp: awake_def)
  moreover have "asleep s' = {}" if "asleep s = {}" using that W(1) rest by (auto simp: asleep_def)
  ultimately show "no_lost_wakeup s' xs" using W(2) by (auto simp: no_lost_wakeup_def)
qed

section \<open>What every step keeps\<close>

lemma wait_end_ok:
  assumes "mail_ok s xs"
  shows "mail_ok (s\<lparr>pcs := (pcs s)(i := after_wait w (pcs s i))\<rparr>) xs"
    "no_lost_wakeup s xs \<Longrightarrow> w \<noteq> Signalled \<Longrightarrow> no_lost_wakeup (s\<lparr>pcs := (pcs s)(i := after_wait w (pcs s i))\<rparr>) xs"
proof -
  let ?s = "s\<lparr>pcs := (pcs s)(i := after_wait w (pcs s i))\<rparr>"
  have "finite (blocked ?s)" using blocked_upd [of s ?s] assms(1) by (simp add: mail_ok_def)
  then show "mail_ok ?s xs" using assms(1) by (simp add: mail_ok_def after_wait_ok)
  have "asleep ?s \<subseteq> asleep s" "awake s \<subseteq> awake ?s"
    using after_wait_cases [of w "pcs s i"] by (auto simp: asleep_def awake_def split: if_splits) metis+
  then show "no_lost_wakeup ?s xs" if "no_lost_wakeup s xs" using that by (auto simp: no_lost_wakeup_def)
qed

lemma mail_ok_awake: "mail_ok s xs \<Longrightarrow> pcs s i = Awake m timed \<Longrightarrow> length m \<le> max_msg_size (mbox s)"
  unfolding mail_ok_def by (metis pc_ok_simps(3))

lemma mail_step_ok:
  assumes "mail_step swallow s s'" "mail_ok s xs"
  shows "\<exists>ys. mail_ok s' ys \<and> (\<not> swallow \<and> no_lost_wakeup s xs \<longrightarrow> no_lost_wakeup s' ys)"
  using assms(1)
proof cases
  case (call i m timed)
  then show ?thesis using iter_ok assms(2) by blast
next
  case (resume i m timed)
  then show ?thesis using iter_ok [OF assms(2) mail_ok_awake [OF assms(2)]] by blast
next
  case (wait_end w i)
  then show ?thesis using wait_end_ok [OF assms(2)] by blast
next
  case (push i m b)
  have ok: "box_ok (mbox s) xs" using assms(2) by (simp add: mail_ok_def)
  have fits: "length (frames xs) + length m + 4 \<le> ALLOCATED_LEN"
    using do_push_full [OF ok, of m] push(4) by (cases "length (frames xs) + length m + 4 > ALLOCATED_LEN") simp_all
  have "box_ok b (xs @ [m]) \<and> max_msg_size b = max_msg_size (mbox s)"
    by (rule do_push_ok [OF ok push(3) fits]) (use push(4) in auto)
  then have "mail_ok s' (xs @ [m]) \<and> no_lost_wakeup s' (xs @ [m])"
    using assms(2) push(1) by (simp add: mail_ok_def no_lost_wakeup_def blocked_def)
  then show ?thesis by blast
next
  case (notify n b)
  have "box_ok (mbox s) xs" using assms(2) by (simp add: mail_ok_def)
  then have "b = byte_pushed (mbox s)" using notify_ok(3) notify(3) by simp
  then have "mail_ok s' xs" "no_lost_wakeup s xs \<longrightarrow> no_lost_wakeup s' xs"
    using assms(2) notify(1) by (simp_all add: mail_ok_def no_lost_wakeup_def blocked_def asleep_def awake_def)
  then show ?thesis by blast
next
  case (deliver m b)
  obtain ys where "mail_ok (taken m b s) ys" by (rule taken_ok [OF assms(2) deliver(1)])
  then show ?thesis using signal_ok [OF deliver(2)] by blast
next
  case (no_message e b)
  have ok: "box_ok (mbox s) xs" using assms(2) by (simp add: mail_ok_def)
  from ok no_message(2) have "b = mbox s" by (cases rule: peek_cases) auto
  then show ?thesis using assms(2) no_message(1) by auto
next
  case (deliver_lost m b i x)
  obtain ys where "mail_ok (taken m b s) ys" by (rule taken_ok [OF assms(2) deliver_lost(3)])
  from wait_end_ok(1) [OF this, of i Expired] show ?thesis using deliver_lost by (auto simp: taken_def)
qed

lemma mail_reach_ok:
  assumes "mail_reach swallow b s" "box_ok b []"
  shows "\<exists>xs. mail_ok s xs \<and> (\<not> swallow \<longrightarrow> no_lost_wakeup s xs)"
  using assms(1)
proof (induction rule: mail_reach.induct)
  case start
  then show ?case using mail_start_ok(1) [OF assms(2)] mail_start_ok(2) by blast
next
  case (step s s')
  then show ?case using mail_step_ok by blast
qed

lemma serve_reach: "serve\<^sup>*\<^sup>* s t \<Longrightarrow> mail_reach swallow b s \<Longrightarrow> mail_reach swallow b t"
  by (induction rule: rtranclp_induct) (auto intro: mail_reach.step serve_step)

section \<open>Serving ends\<close>

text \<open>
  Each step of serving lets a thread leave, or delivers a message, or puts a woken thread back to sleep:
  the numbers of threads in a call, of stored messages and of woken threads decrease lexicographically.
\<close>

definition serve_rank :: "mail \<Rightarrow> nat \<times> nat \<times> nat" where
  "serve_rank s = (card (blocked s), length (sent s) - length (got s), card (awake s))"

lemma awake_blocked: "awake s \<subseteq> blocked s"
  by (auto simp: awake_def blocked_def)

lemma serve_decreases:
  assumes "serve s t" "mail_ok s xs"
  shows "(serve_rank t, serve_rank s) \<in> less_than <*lex*> less_than <*lex*> less_than"
  using assms(1)
proof cases
  case (resume i m timed)
  have fin: "finite (blocked s)" "finite (awake s)"
    using assms(2) finite_subset [OF awake_blocked] by (auto simp: mail_ok_def)
  have i: "i \<in> blocked s" "i \<in> awake s" using resume(1) by (auto simp: blocked_def awake_def)
  from assms(2) mail_ok_awake [OF assms(2) resume(1)] show ?thesis
  proof (cases rule: iter_cases [where i = i and timed = timed])
    case sleep
    then have t: "t = s\<lparr>pcs := (pcs s)(i := Asleep m timed)\<rparr>" using resume(2) by simp
    have "blocked t = blocked s" using i(1) by (auto simp: t blocked_def)
    moreover have "awake t = awake s - {i}" by (auto simp: t awake_def)
    ultimately show ?thesis using card_Diff1_less [OF fin(2) i(2)] by (simp add: serve_rank_def t)
  next
    case (store b)
    then have t: "pcs t = (pcs s)(i := Idle)" using resume(2) by auto
    have "blocked t = blocked s - {i}" by (auto simp: t blocked_def)
    then show ?thesis using card_Diff1_less [OF fin(1) i(1)] by (simp add: serve_rank_def)
  qed
next
  case (deliver m b)
  obtain ys where ys: "xs = m # ys" "mail_ok (taken m b s) ys" by (rule taken_ok [OF assms(2) deliver(1)])
  have "blocked t = blocked s" using signal_ok(3) [OF deliver(2) ys(2)] by (simp add: taken_def blocked_def)
  moreover have "length (sent t) - length (got t) = length ys"
    using signal_ok(1) [OF deliver(2) ys(2)] by (simp add: mail_ok_def)
  moreover have "length (sent s) - length (got s) = Suc (length ys)" using assms(2) ys(1) by (simp add: mail_ok_def)
  ultimately show ?thesis by (simp add: serve_rank_def)
qed

lemma serve_ends:
  assumes "mail_ok s xs"
  shows "Wellfounded.accp (\<lambda>t s. serve s t) s"
proof -
  have "wf (inv_image (less_than <*lex*> less_than <*lex*> less_than) serve_rank)" by auto
  then show ?thesis using assms
  proof (induction s arbitrary: xs rule: wf_induct_rule)
    case (less s)
    show ?case
    proof (rule accpI)
      fix t assume t: "serve s t"
      obtain ys where "mail_ok t ys" using mail_step_ok [OF serve_step [OF t] less.prems] by blast
      then show "Wellfounded.accp (\<lambda>t s. serve s t) t"
        using less.IH serve_decreases [OF t less.prems] by simp
    qed
  qed
qed

text \<open>When nothing is left to serve nobody sleeps and every message was delivered.\<close>

lemma served_all:
  assumes "mail_ok s xs" "no_lost_wakeup s xs" "\<nexists>t. serve s t"
  shows "blocked s = {}" "xs = []"
proof -
  have ok: "box_ok (mbox s) xs" using assms(1) by (simp add: mail_ok_def)
  have "awake s = {}"
  proof (rule ccontr)
    assume "awake s \<noteq> {}"
    then obtain i m timed where i: "pcs s i = Awake m timed" by (auto simp: awake_def)
    from assms(1) mail_ok_awake [OF assms(1) i] have "\<exists>t. push_block_iter i m timed s = Some t"
      by (cases rule: iter_cases [where i = i and timed = timed]) auto
    then show False using assms(3) serve.resume [OF i] by blast
  qed
  moreover show "xs = []"
  proof (rule ccontr)
    assume "xs \<noteq> []"
    then obtain m ys where "box_ok (mbox s) (m # ys)" using ok by (cases xs) auto
    then obtain b where "dynmbox_peek (Some (mbox s)) True None = Some (Inr m, Some b)" using peek_first by blast
    moreover have "cond_signal s' (woken (asleep s') s')" for s' by (auto simp: cond_signal_def)
    ultimately show False using assms(3) serve.deliver by blast
  qed
  ultimately have "awake s = {}" "asleep s = {}" using assms(2) by (simp_all add: no_lost_wakeup_def)
  moreover have "i \<in> awake s \<or> i \<in> asleep s \<or> pcs s i = Idle" for i by (cases "pcs s i") (auto simp: awake_def asleep_def)
  ultimately show "blocked s = {}" by (auto simp: blocked_def)
qed

section \<open>A signal consumed by a wait that runs out\<close>

lemma lost_wakeup:
  assumes "box_ok b0 []" "max_msg_size b0 = DYNMBOX_MAX_SIZE"
  shows "\<exists>s. mail_reach True b0 s \<and> pcs s 2 = Asleep [] False \<and> box_ok (mbox s) [] \<and> awake s = {} \<and> (\<nexists>t. serve s t)"
proof -
  let ?m = "replicate DYNMBOX_MAX_SIZE (0 :: u8)"
  have fits: "length ?m \<le> max_msg_size b0" "length (frames []) + length ?m + 4 \<le> ALLOCATED_LEN"
    using assms(2) by (simp_all add: ALLOCATED_LEN_def)
  obtain b1 where b1: "do_push ?m b0 = Some (Inr (), b1)" "box_ok b1 [?m]" "max_msg_size b1 = DYNMBOX_MAX_SIZE"
    by (rule do_push_ok [OF assms(1) fits]) (use assms(2) in simp)
  define s1 where "s1 = (mail_start b0)\<lparr>mbox := b1, unsent := 1, sent := [?m]\<rparr>"
  define s2 where "s2 = s1\<lparr>pcs := (\<lambda>_. Idle)(1 := Asleep [] True)\<rparr>"
  define s3 where "s3 = s2\<lparr>pcs := (\<lambda>_. Idle)(1 := Asleep [] True, 2 := Asleep [] False)\<rparr>"
  have full: "rbuf_space_left b1 < 4"
    using space_left_eq [OF b1(2)] by (simp add: ALLOCATED_LEN_def)
  have "mail_reach True b0 s1"
    using mail_reach.step [OF mail_reach.start mail_step.push [of "mail_start b0" 0 ?m b1 True]] b1(1) fits(1)
    by (simp add: s1_def mail_start_def)
  moreover have "mail_step True s1 s2"
    by (rule mail_step.call [of s1 1 "[]" True])
      (simp_all add: push_block_iter_def full s1_def s2_def mail_start_def)
  moreover have "mail_step True s2 s3"
    by (rule mail_step.call [of s2 2 "[]" False])
      (simp_all add: push_block_iter_def full s1_def s2_def s3_def mail_start_def)
  ultimately have r3: "mail_reach True b0 s3" by (blast intro: mail_reach.step)
  obtain b where b: "dynmbox_peek (Some (mbox s3)) True None = Some (Inr ?m, Some b)" "box_ok b []"
    using peek_first [OF b1(2)] by (auto simp: s3_def s2_def s1_def)
  define s4 where "s4 = (taken ?m b s3)\<lparr>pcs := (pcs s3)(1 := after_wait Expired (pcs s3 1))\<rparr>"
  have "mail_step True s3 s4"
    unfolding s4_def by (rule mail_step.deliver_lost [OF _ b(1)]) (simp_all add: s3_def)
  then have "mail_reach True b0 s4" using r3 by (blast intro: mail_reach.step)
  moreover have p: "pcs s4 = (\<lambda>_. Idle)(2 := Asleep [] False)" by (auto simp: s4_def s3_def)
  moreover have box: "box_ok (mbox s4) []" using b(2) by (simp add: s4_def taken_def)
  moreover have none: "awake s4 = {}" using p by (auto simp: awake_def)
  moreover have "\<not> serve s4 t" for t
    using none peek_empty [OF box] by (auto simp: awake_def elim!: serveE)
  ultimately show ?thesis by (intro exI [of _ s4]) simp
qed

section \<open>Properties\<close>

text \<open>
  Property C19.  Producers, blocking or not, and consumers in every interleaving of their critical sections,
  with waits that time out or end without a signal.  The messages are delivered in the order of their
  critical sections, each once and whole; no assertion fails; and nobody is left behind: as long as woken
  threads get the mutex and consumers take messages, every thread in a call leaves it after finitely many
  steps, and all messages are delivered.  This needs a wait that runs out to leave the signal to the
  others.  POSIX does not promise that: if it consumes the signal, a thread without a timeout can sleep
  beside an empty mailbox, and nothing that happens to the calls under way wakes it.
\<close>

theorem dynmbox_threads_progress:
  assumes "dynmbox_new table_ops mx True (Some mem) (Inr pip) = (Some b0, [])" "length mem = ALLOCATED_LEN"
    and "mail_reach swallow b0 s"
  shows "(\<exists>xs. box_ok (mbox s) xs \<and> sent s = got s @ xs) \<and>
    (\<forall>i m timed. pcs s i = Awake m timed \<longrightarrow> push_block_iter i m timed s \<noteq> None) \<and>
    Wellfounded.accp (\<lambda>t s. serve s t) s \<and>
    (\<not> swallow \<longrightarrow> (\<forall>t. serve\<^sup>*\<^sup>* s t \<and> (\<nexists>u. serve t u) \<longrightarrow> blocked t = {} \<and> got t = sent t)) \<and>
    (mx = DYNMBOX_MAX_SIZE \<longrightarrow> (\<exists>t. mail_reach True b0 t \<and> pcs t 2 = Asleep [] False \<and> box_ok (mbox t) [] \<and> (\<nexists>u. serve t u)))"
proof (intro conjI impI allI)
  obtain f cap where pip: "pip = (f, cap)" by (cases pip)
  have mx: "mx \<le> DYNMBOX_MAX_SIZE" using assms(1) by (auto simp: dynmbox_new_def split: if_splits)
  have new: "box_ok b0 []" "max_msg_size b0 = mx"
    by (rule dynmbox_new_ok [OF mx assms(2), of f cap], use assms(1) pip in simp)+
  obtain xs where xs: "mail_ok s xs" using mail_reach_ok [OF assms(3) new(1)] by blast
  then show "\<exists>xs. box_ok (mbox s) xs \<and> sent s = got s @ xs" by (auto simp: mail_ok_def)
  show "push_block_iter i m timed s \<noteq> None" if "pcs s i = Awake m timed" for i m timed
    using xs mail_ok_awake [OF xs that] by (cases rule: iter_cases [where i = i and timed = timed]) auto
  show "Wellfounded.accp (\<lambda>t s. serve s t) s" by (rule serve_ends [OF xs])
  show "blocked t = {}" "got t = sent t" if sw: "\<not> swallow" and t: "serve\<^sup>*\<^sup>* s t \<and> (\<nexists>u. serve t u)" for t
  proof -
    obtain ys where ys: "mail_ok t ys" "no_lost_wakeup t ys"
      using mail_reach_ok [OF serve_reach new(1)] t assms(3) sw by blast
    show "blocked t = {}" "got t = sent t"
      using served_all [OF ys] t ys(1) by (auto simp: mail_ok_def)
  qed
  show "\<exists>t. mail_reach True b0 t \<and> pcs t 2 = Asleep [] False \<and> box_ok (mbox t) [] \<and> (\<nexists>u. serve t u)"
    if "mx = DYNMBOX_MAX_SIZE"
    using lost_wakeup [OF new(1)] new(2) that by blast
qed

lemma dynmbox_threads_progress_witness:
  "\<exists>b0 t. dynmbox_new table_ops DYNMBOX_MAX_SIZE True (Some (replicate ALLOCATED_LEN 0)) (Inr ((5, 6), 65536)) = (Some b0, []) \<and>
    mail_reach True b0 t \<and> pcs t 2 = Asleep [] False \<and> (\<nexists>u. serve t u)"
proof -
  have len: "length (replicate ALLOCATED_LEN (0 :: u8)) = ALLOCATED_LEN" by simp
  obtain b0 where b0: "dynmbox_new table_ops DYNMBOX_MAX_SIZE True (Some (replicate ALLOCATED_LEN 0)) (Inr ((5, 6), 65536)) = (Some b0, [])"
    by (rule dynmbox_new_ok [OF order.refl len])
  from dynmbox_threads_progress [OF b0 len mail_reach.start [of False b0]] b0 show ?thesis by blast
qed

end
