(* ===== verification/Mbox.thy ===== *)
theory Mbox
  imports Fifo Fdutils
begin

text \<open>
  Component \<open>mbox\<close> (src/src/mbox.c), POSIX build: a mailbox of messages of one size over a pipe.

  The pipe is part of the state as POSIX describes it for requests of at most \<open>PIPE_BUF\<close> bytes: a
  write stores all bytes, a read takes the oldest bytes and reports the end of file when the other
  end is closed.  A write without room and a read of an empty pipe fail with \<open>EAGAIN\<close> if the
  descriptor has \<open>O_NONBLOCK\<close> and otherwise block (\<open>None\<close>); the flags of the two ends are the table
  \<open>ends\<close> that the functions of \<open>fdutils\<close> change.  A list \<open>calls\<close> says for the successive system calls
  whether a signal interrupts them or an error stops them; a call that is not in the list never
  returns (\<open>None\<close>).
\<close>

definition PIPE_BUF :: nat where "PIPE_BUF = 4096"

record pipe =
  contents :: "u8 list"
  capacity :: nat
  write_end :: bool
  ends :: fd_table

record mbox =
  box_fds :: "nat \<times> nat"
  msg_size :: nat
  channel :: pipe

datatype sys = Intr | Fail error | Go

subsection \<open>Creation and destruction\<close>

datatype mbox_release = Closed nat | Freed

text \<open>The loop over the two ends; the results of \<open>fcntl\<close> are ignored.\<close>

definition set_end_flags :: "fd_table fcntl_ops \<Rightarrow> nat \<Rightarrow> fd_table \<Rightarrow> fd_table" where
  "set_end_flags k fd t =
    (let (_, t) = fd_add_flags k (int fd) O_NONBLOCK t; (_, t) = fd_set_close_on_exec k (int fd) t in t)"

text \<open>\<open>calloc_ok\<close>, \<open>pip\<close>: outcomes of \<open>calloc\<close> and \<open>pipe\<close> (the two descriptors and the capacity).\<close>

definition mbox_new ::
  "fd_table fcntl_ops \<Rightarrow> nat \<Rightarrow> bool \<Rightarrow> error + (nat \<times> nat) \<times> nat \<Rightarrow> mbox option \<times> mbox_release list" where
  "mbox_new k sz calloc_ok pip =
    (if sz = 0 \<or> sz \<ge> PIPE_BUF then (None, [])
     else if \<not> calloc_ok then (None, [])
     else case pip of
       Inl e \<Rightarrow> (None, [Freed])
     | Inr (f, cap) \<Rightarrow>
        (let t = fold (set_end_flags k) [fst f, snd f] (pipe_table f)
         in (Some \<lparr>box_fds = f, msg_size = sz, channel = \<lparr>contents = [], capacity = cap, write_end = True, ends = t\<rparr>\<rparr>, [])))"

definition mbox_destroy :: "mbox option \<Rightarrow> mbox_release list" where
  "mbox_destroy box = (case box of None \<Rightarrow> [] | Some b \<Rightarrow> [Closed (fst (box_fds b)), Closed (snd (box_fds b)), Freed])"

definition mbox_get_read_fd :: "mbox option \<Rightarrow> int" where
  "mbox_get_read_fd box = (case box of Some b \<Rightarrow> int (fst (box_fds b)) | None \<Rightarrow> -1)"

subsection \<open>Reading and writing\<close>

definition pipe_write :: "nat \<Rightarrow> u8 list \<Rightarrow> pipe \<Rightarrow> (nat res \<times> pipe) option" where
  "pipe_write fd bytes p =
    (if length (contents p) + length bytes \<le> capacity p
     then Some (Inr (length bytes), p\<lparr>contents := contents p @ bytes\<rparr>)
     else if nonblocking (ends p) fd then Some (Inl EAGAIN, p) else None)"

definition pipe_read :: "nat \<Rightarrow> nat \<Rightarrow> pipe \<Rightarrow> (u8 list res \<times> pipe) option" where
  "pipe_read fd n p =
    (if contents p \<noteq> [] then Some (Inr (take n (contents p)), p\<lparr>contents := drop n (contents p)\<rparr>)
     else if \<not> write_end p then Some (Inr [], p)
     else if nonblocking (ends p) fd then Some (Inl EAGAIN, p) else None)"

fun write_retry :: "sys list \<Rightarrow> nat \<Rightarrow> u8 list \<Rightarrow> pipe \<Rightarrow> (nat res \<times> pipe) option" where
  "write_retry [] fd bytes p = None"
| "write_retry (Intr # calls) fd bytes p = write_retry calls fd bytes p"
| "write_retry (Fail e # calls) fd bytes p = Some (Inl e, p)"
| "write_retry (Go # calls) fd bytes p = pipe_write fd bytes p"

fun read_retry :: "sys list \<Rightarrow> nat \<Rightarrow> nat \<Rightarrow> pipe \<Rightarrow> (u8 list res \<times> pipe) option" where
  "read_retry [] fd n p = None"
| "read_retry (Intr # calls) fd n p = read_retry calls fd n p"
| "read_retry (Fail e # calls) fd n p = Some (Inl e, p)"
| "read_retry (Go # calls) fd n p = pipe_read fd n p"

text \<open>\<open>msg\<close>: the object the pointer points to; it must have \<open>msg_size\<close> bytes.\<close>

definition mbox_push :: "mbox option \<Rightarrow> u8 list option \<Rightarrow> sys list \<Rightarrow> (unit res \<times> mbox option) option" where
  "mbox_push box msg calls = (case (msg, box) of
     (Some m, Some b) \<Rightarrow>
        if length m < msg_size b then None
        else do {
          (ret, p) \<leftarrow> write_retry calls (snd (box_fds b)) (take (msg_size b) m) (channel b);
          Some (case ret of Inl e \<Rightarrow> Inl e | Inr n \<Rightarrow> Inr (), Some (b\<lparr>channel := p\<rparr>)) }
   | _ \<Rightarrow> Some (Inl EINVAL, box))"

datatype poll = PollIntr | PollTimeout | PollFail error | PollReady

fun poll_retry :: "poll list \<Rightarrow> unit res option" where
  "poll_retry [] = None"
| "poll_retry (PollIntr # polls) = poll_retry polls"
| "poll_retry (PollTimeout # polls) = Some (Inl ETIMEDOUT)"
| "poll_retry (PollFail e # polls) = Some (Inl e)"
| "poll_retry (PollReady # polls) = Some (Inr ())"

text \<open>\<open>polls\<close>: the outcomes of the successive polls for the timeout passed to them.\<close>

definition mbox_push_block ::
  "mbox option \<Rightarrow> u8 list option \<Rightarrow> u32 \<Rightarrow> (int \<Rightarrow> poll list) \<Rightarrow> sys list \<Rightarrow> (unit res \<times> mbox option) option" where
  "mbox_push_block box msg timeout_ms polls calls =
    (if msg = None \<or> box = None then Some (Inl EINVAL, box)
     else if unat timeout_ms > 2147483647 then Some (Inl EINVAL, box)
     else let timeout = (if timeout_ms = 0 then -1 else uint timeout_ms) in
       (case poll_retry (polls timeout) of
          None \<Rightarrow> None
        | Some (Inl e) \<Rightarrow> Some (Inl e, box)
        | Some (Inr _) \<Rightarrow> mbox_push box msg calls))"

text \<open>The bytes read are what \<open>msg\<close> receives.\<close>

definition mbox_peek :: "mbox option \<Rightarrow> bool \<Rightarrow> sys list \<Rightarrow> (u8 list res \<times> mbox option) option" where
  "mbox_peek box msg calls = (case box of
     None \<Rightarrow> Some (Inl EINVAL, None)
   | Some b \<Rightarrow>
      if \<not> msg then Some (Inl EINVAL, Some b)
      else do {
        (ret, p) \<leftarrow> read_retry calls (fst (box_fds b)) (msg_size b) (channel b);
        Some (case ret of Inl e \<Rightarrow> Inl e | Inr bytes \<Rightarrow> if bytes = [] then Inl EPIPE else Inr bytes,
              Some (b\<lparr>channel := p\<rparr>)) })"

subsection \<open>The mailbox as a queue\<close>

definition mbox_holds :: "mbox \<Rightarrow> u8 list list \<Rightarrow> bool" where
  "mbox_holds b xs \<longleftrightarrow> 0 < msg_size b \<and> write_end (channel b) \<and>
    nonblocking (ends (channel b)) (fst (box_fds b)) \<and> nonblocking (ends (channel b)) (snd (box_fds b)) \<and> contents (channel b) = concat xs \<and>
    (\<forall>m \<in> set xs. length m = msg_size b)"

text \<open>A message is accepted when it has the size of the mailbox and fits the rest of the pipe.\<close>

definition mbox_sized :: "nat \<Rightarrow> nat \<Rightarrow> mbox \<Rightarrow> u8 list list \<Rightarrow> bool" where
  "mbox_sized sz cap b xs \<longleftrightarrow> mbox_holds b xs \<and> msg_size b = sz \<and> capacity (channel b) = cap"

definition mbox_accepts :: "nat \<Rightarrow> nat \<Rightarrow> u8 list list \<Rightarrow> u8 list \<Rightarrow> bool" where
  "mbox_accepts sz cap xs m \<longleftrightarrow> length m = sz \<and> length (concat xs) + sz \<le> cap"

lemma write_retry_intr [simp]: "write_retry (replicate k Intr @ calls) fd bytes p = write_retry calls fd bytes p"
  by (induction k) simp_all

lemma read_retry_intr [simp]: "read_retry (replicate k Intr @ calls) fd n p = read_retry calls fd n p"
  by (induction k) simp_all

lemma poll_retry_intr [simp]: "poll_retry (replicate k PollIntr @ polls) = poll_retry polls"
  by (induction k) simp_all

text \<open>Interrupted any number of times, a push stores the message when there is room, and fails otherwise.\<close>

lemma mbox_push_cases:
  assumes "mbox_holds b xs" "length m = msg_size b"
  shows "length (concat xs) + length m \<le> capacity (channel b) \<Longrightarrow>
      \<exists>b'. mbox_push (Some b) (Some m) (replicate k Intr @ [Go]) = Some (Inr (), Some b') \<and> mbox_holds b' (xs @ [m]) \<and>
        msg_size b' = msg_size b \<and> capacity (channel b') = capacity (channel b) \<and>
        contents (channel b') = contents (channel b) @ m"
    and "length (concat xs) + length m > capacity (channel b) \<Longrightarrow>
      mbox_push (Some b) (Some m) (replicate k Intr @ [Go]) = Some (Inl EAGAIN, Some b)"
  using assms by (simp_all add: mbox_push_def pipe_write_def mbox_holds_def)

lemma mbox_peek_cases:
  assumes "mbox_holds b xs"
  shows "xs = [] \<Longrightarrow> mbox_peek (Some b) True (replicate k Intr @ [Go]) = Some (Inl EAGAIN, Some b)"
    and "xs = m # ys \<Longrightarrow>
      \<exists>b'. mbox_peek (Some b) True (replicate k Intr @ [Go]) = Some (Inr m, Some b') \<and> mbox_holds b' ys \<and>
        msg_size b' = msg_size b \<and> capacity (channel b') = capacity (channel b) \<and>
        contents (channel b') = concat ys"
  using assms by (auto simp: mbox_peek_def pipe_read_def mbox_holds_def)

definition mbox_enq :: "nat \<Rightarrow> u8 list \<Rightarrow> mbox \<Rightarrow> mbox option" where
  "mbox_enq k m b = (case mbox_push (Some b) (Some m) (replicate k Intr @ [Go]) of
     Some (Inr _, Some b') \<Rightarrow> Some b' | _ \<Rightarrow> None)"

definition mbox_deq :: "nat \<Rightarrow> mbox \<Rightarrow> (u8 list option \<times> mbox) option" where
  "mbox_deq k b = (case mbox_peek (Some b) True (replicate k Intr @ [Go]) of
     Some (Inr m, Some b') \<Rightarrow> Some (Some m, b')
   | Some (Inl e, Some b') \<Rightarrow> if e = EAGAIN then Some (None, b') else None
   | _ \<Rightarrow> None)"

interpretation mbox_fifo: fifo "mbox_sized sz cap" "mbox_accepts sz cap" "mbox_enq k" "mbox_deq k" for sz cap k
proof
  fix s xs a assume "mbox_sized sz cap s xs" "mbox_accepts sz cap xs a"
  then show "\<exists>s'. mbox_enq k a s = Some s' \<and> mbox_sized sz cap s' (xs @ [a])"
    using mbox_push_cases(1) [of s xs a k] by (auto simp: mbox_enq_def mbox_sized_def mbox_accepts_def)
next
  fix s x xs assume "mbox_sized sz cap s (x # xs)"
  then show "\<exists>s'. mbox_deq k s = Some (Some x, s') \<and> mbox_sized sz cap s' xs"
    using mbox_peek_cases(2) [of s "x # xs" x xs k] by (auto simp: mbox_deq_def mbox_sized_def)
next
  fix s assume "mbox_sized sz cap s []"
  then show "\<exists>s'. mbox_deq k s = Some (None, s') \<and> mbox_sized sz cap s' []"
    using mbox_peek_cases(1) [of s "[]" k] by (auto simp: mbox_deq_def mbox_sized_def)
qed

text \<open>A new mailbox: both ends are non-blocking and closed on exec.\<close>

lemma mbox_new_ok:
  assumes "0 < sz" "sz < PIPE_BUF"
  obtains b where "mbox_new table_ops sz True (Inr (f, cap)) = (Some b, [])" "mbox_holds b []" "msg_size b = sz"
    "capacity (channel b) = cap" "contents (channel b) = []" "box_fds b = f"
    "fd_has_close_on_exec table_ops (int (fst f)) (ends (channel b)) = 1"
    "fd_has_close_on_exec table_ops (int (snd f)) (ends (channel b)) = 1"
  using assms by (cases "fst f = snd f") (auto simp: mbox_new_def mbox_holds_def set_end_flags_def fd_defs)

lemma push_block_cases:
  "unat t > 2147483647 \<Longrightarrow> mbox_push_block (Some b) (Some m) t polls calls = Some (Inl EINVAL, Some b)"
  "unat t \<le> 2147483647 \<Longrightarrow> polls (if t = 0 then -1 else uint t) = replicate j PollIntr @ p # ps \<Longrightarrow> p \<noteq> PollIntr \<Longrightarrow>
    mbox_push_block (Some b) (Some m) t polls calls = (case p of
      PollTimeout \<Rightarrow> Some (Inl ETIMEDOUT, Some b)
    | PollFail e \<Rightarrow> Some (Inl e, Some b)
    | PollReady \<Rightarrow> mbox_push (Some b) (Some m) calls)"
  by (simp_all add: mbox_push_block_def Let_def split: poll.split)

text \<open>
  Property C10.  A new mailbox has two non-blocking ends that are closed on exec.  Under any number of
  interruptions of the system calls it behaves as a first-in first-out queue of whole messages in every run
  whose pushes find room in the pipe; a push into a pipe without room and a read of an empty mailbox fail with
  \<open>EAGAIN\<close> instead of blocking and change nothing.  A blocking push refuses a timeout above \<open>INT_MAX\<close>,
  reports a timeout and an error of \<open>poll\<close>, and otherwise pushes, which also then fails with \<open>EAGAIN\<close> if
  there is no room.
\<close>

theorem mbox_refines_queue:
  assumes "0 < sz" "sz < PIPE_BUF"
  shows "\<exists>b. mbox_new table_ops sz True (Inr (f, cap)) = (Some b, []) \<and> mbox_holds b [] \<and>
    fd_has_close_on_exec table_ops (int (fst f)) (ends (channel b)) = 1 \<and>
    fd_has_close_on_exec table_ops (int (snd f)) (ends (channel b)) = 1 \<and>
    (\<forall>k ops. admissible (\<lambda>xs m. length m = sz \<and> length (concat xs) + sz \<le> cap) ops [] \<longrightarrow>
      (\<exists>b'. fifo_run (mbox_enq k) (mbox_deq k) ops b = Some (fst (queue_run ops []), b') \<and>
        mbox_holds b' (snd (queue_run ops [])))) \<and>
    (\<forall>b' xs m k t polls. mbox_holds b' xs \<and> length m = msg_size b' \<longrightarrow>
      (length (concat xs) + length m > capacity (channel b') \<longrightarrow>
        mbox_push (Some b') (Some m) (replicate k Intr @ [Go]) = Some (Inl EAGAIN, Some b')) \<and>
      (xs = [] \<longrightarrow> mbox_peek (Some b') True (replicate k Intr @ [Go]) = Some (Inl EAGAIN, Some b')) \<and>
      (unat t > 2147483647 \<longrightarrow>
        mbox_push_block (Some b') (Some m) t polls (replicate k Intr @ [Go]) = Some (Inl EINVAL, Some b')) \<and>
      (\<forall>j p ps. unat t \<le> 2147483647 \<and> polls (if t = 0 then -1 else uint t) = replicate j PollIntr @ p # ps \<and> p \<noteq> PollIntr \<longrightarrow>
        mbox_push_block (Some b') (Some m) t polls (replicate k Intr @ [Go]) = (case p of
          PollTimeout \<Rightarrow> Some (Inl ETIMEDOUT, Some b')
        | PollFail e \<Rightarrow> Some (Inl e, Some b')
        | PollReady \<Rightarrow> mbox_push (Some b') (Some m) (replicate k Intr @ [Go]))))"
proof -
  obtain b where b: "mbox_new table_ops sz True (Inr (f, cap)) = (Some b, [])" "mbox_holds b []" "msg_size b = sz"
    "capacity (channel b) = cap" "contents (channel b) = []"
    "fd_has_close_on_exec table_ops (int (fst f)) (ends (channel b)) = 1"
    "fd_has_close_on_exec table_ops (int (snd f)) (ends (channel b)) = 1"
    using mbox_new_ok [OF assms] by metis
  have run: "\<exists>b'. fifo_run (mbox_enq k) (mbox_deq k) ops b = Some (fst (queue_run ops []), b') \<and>
      mbox_holds b' (snd (queue_run ops []))"
    if "admissible (\<lambda>xs m. length m = sz \<and> length (concat xs) + sz \<le> cap) ops []" for k ops
    using mbox_fifo.run_refines [of sz cap b "[]" ops k] that b unfolding mbox_accepts_def [abs_def] mbox_sized_def by blast
  show ?thesis
    by (intro exI [of _ b] conjI allI impI b(1,2,6,7) run mbox_push_cases(2) mbox_peek_cases(1) push_block_cases;
        (elim conjE)?; assumption)
qed

lemma mbox_refines_queue_witness:
  "\<exists>b b'. mbox_new table_ops 2 True (Inr ((3, 4), 65536)) = (Some b, []) \<and>
    fifo_run (mbox_enq 1) (mbox_deq 1) [Enq [1, 2], Enq [3, 4], Deq, Deq, Deq] b =
      Some ([Some [1, 2], Some [3, 4], None], b')"
proof -
  have s: "0 < (2 :: nat)" "2 < PIPE_BUF" by (simp_all add: PIPE_BUF_def)
  let ?ops = "[Enq [1, 2 :: u8], Enq [3, 4], Deq, Deq, Deq]"
  have "admissible (\<lambda>xs m. length m = 2 \<and> length (concat xs) + 2 \<le> 65536) ?ops []" by simp
  then obtain b b' where "mbox_new table_ops 2 True (Inr ((3, 4), 65536)) = (Some b, [])"
    "fifo_run (mbox_enq 1) (mbox_deq 1) ?ops b = Some (fst (queue_run ?ops []), b')"
    using mbox_refines_queue [OF s, of "(3, 4)" 65536] by blast
  then show ?thesis by auto
qed

end
