(* ===== verification/Winsock.thy ===== *)
theory Winsock
  imports Mbox
begin

text \<open>
  The Windows builds of the two mailboxes (src/src/mbox.c, src/src/dynmbox.c): the connected pair of
  sockets they use instead of a pipe, and the mailbox of \<open>mbox.c\<close> on it.

  \<open>r i\<close> is the outcome of the \<open>i\<close>-th socket call (an error, or the new socket where the call
  creates one); the stream between the sockets is the list of the bytes in it.  \<open>None\<close> for a
  socket is \<open>INVALID_SOCKET\<close>.
\<close>

subsection \<open>Errors\<close>

datatype wsa = WSAEINTR | WSAEBADF | WSAEACCES | WSAEINVAL | WSAEMFILE | WSAEWOULDBLOCK | WSAEALREADY
  | WSAEADDRINUSE | WSAECONNRESET | WSAETIMEDOUT | WSANOTINITIALISED | WSAother nat

text \<open>The errno values without a constructor of their own are numbered as in \<open>errno.h\<close>.\<close>

definition wsa2errno :: "wsa \<Rightarrow> error" where
  "wsa2errno err = (case err of
     WSAEINTR \<Rightarrow> EINTR
   | WSAEBADF \<Rightarrow> Errno 9
   | WSAEACCES \<Rightarrow> Errno 13
   | WSAEINVAL \<Rightarrow> EINVAL
   | WSAEMFILE \<Rightarrow> Errno 24
   | WSAEWOULDBLOCK \<Rightarrow> EAGAIN
   | WSAEALREADY \<Rightarrow> Errno 114
   | WSAEADDRINUSE \<Rightarrow> Errno 98
   | WSAECONNRESET \<Rightarrow> Errno 104
   | WSAETIMEDOUT \<Rightarrow> ETIMEDOUT
   | WSANOTINITIALISED \<Rightarrow> ENOSYS
   | WSAother _ \<Rightarrow> EIO)"

subsection \<open>The pair of sockets\<close>

record sockets =
  server :: "nat option"
  rfd :: "nat option"
  wfd :: "nat option"

definition no_sockets :: sockets where
  "no_sockets = \<lparr>server = None, rfd = None, wfd = None\<rparr>"

text \<open>The sockets closed, in order.\<close>

definition destroy_sockets :: "sockets \<Rightarrow> nat list" where
  "destroy_sockets s = List.map_filter id [server s, rfd s, wfd s]"

text \<open>
  The common part of both constructors: create the server, bind, listen, read the port back, create
  the write end, connect, accept the read end.  A failure gives the error and the sockets so far.
\<close>

definition connect_pair :: "(nat \<Rightarrow> wsa + nat) \<Rightarrow> (wsa \<times> sockets) + sockets" where
  "connect_pair r =
    (let s = no_sockets in
     case r 0 of Inl e \<Rightarrow> Inl (e, s) | Inr srv \<Rightarrow>
    (let s = s\<lparr>server := Some srv\<rparr> in
     case r 1 of Inl e \<Rightarrow> Inl (e, s) | Inr _ \<Rightarrow>
    (case r 2 of Inl e \<Rightarrow> Inl (e, s) | Inr _ \<Rightarrow>
    (case r 3 of Inl e \<Rightarrow> Inl (e, s) | Inr _ \<Rightarrow>
    (case r 4 of Inl e \<Rightarrow> Inl (e, s) | Inr w \<Rightarrow>
    (let s = s\<lparr>wfd := Some w\<rparr> in
     case r 5 of Inl e \<Rightarrow> Inl (e, s) | Inr _ \<Rightarrow>
    (case r 6 of Inl e \<Rightarrow> Inl (e, s) | Inr d \<Rightarrow> Inr (s\<lparr>rfd := Some d\<rparr>))))))))"

text \<open>\<open>init_notify_channel\<close> of \<open>dynmbox.c\<close>: the result, the sockets, and those closed again.\<close>

definition init_notify_channel_win :: "(nat \<Rightarrow> wsa + nat) \<Rightarrow> unit res \<times> sockets \<times> nat list" where
  "init_notify_channel_win r = (case connect_pair r of
     Inl (e, s) \<Rightarrow> (Inl (wsa2errno e), s, destroy_sockets s)
   | Inr s \<Rightarrow>
      (case r 7 of Inl e \<Rightarrow> (Inl (wsa2errno e), s, destroy_sockets s) | Inr _ \<Rightarrow>
      (case r 8 of Inl e \<Rightarrow> (Inl (wsa2errno e), s, destroy_sockets s) | Inr _ \<Rightarrow> (Inr (), s, []))))"

definition destroy_notify_channel_win :: "sockets \<Rightarrow> nat list" where
  "destroy_notify_channel_win s = destroy_sockets s"

text \<open>
  One byte more or less in the stream between the sockets, if \<open>send\<close> or \<open>recv\<close> succeeds; errors are only
  logged.  The read end does not block: \<open>recv\<close> on an empty stream fails.
\<close>

definition push_notify_win :: "wsa + nat \<Rightarrow> nat \<Rightarrow> nat" where
  "push_notify_win r n = (case r of Inl e \<Rightarrow> n | Inr _ \<Rightarrow> n + 1)"

definition pop_notify_win :: "nat \<Rightarrow> nat" where
  "pop_notify_win n = (if n = 0 then n else n - 1)"

record wbox =
  socks :: sockets
  wmsg_size :: nat
  stream :: "u8 list"

definition mbox_destroy_win :: "sockets option \<Rightarrow> nat list" where
  "mbox_destroy_win s = (case s of None \<Rightarrow> [] | Some s \<Rightarrow> destroy_sockets s)"

text \<open>Both ends are set non-blocking; \<open>calloc_ok\<close>: the structure was allocated.\<close>

definition mbox_new_win :: "nat \<Rightarrow> bool \<Rightarrow> (nat \<Rightarrow> wsa + nat) \<Rightarrow> wbox option \<times> nat list" where
  "mbox_new_win sz calloc_ok r =
    (if sz = 0 then (None, [])
     else if \<not> calloc_ok then (None, [])
     else case connect_pair r of
       Inl (e, s) \<Rightarrow> (None, mbox_destroy_win (Some s))
     | Inr s \<Rightarrow>
      (case r 7 of Inl e \<Rightarrow> (None, mbox_destroy_win (Some s)) | Inr _ \<Rightarrow>
      (case r 8 of Inl e \<Rightarrow> (None, mbox_destroy_win (Some s)) | Inr _ \<Rightarrow>
        (Some \<lparr>socks = s, wmsg_size = sz, stream = []\<rparr>, []))))"

definition mbox_get_read_fd_win :: "wbox option \<Rightarrow> int" where
  "mbox_get_read_fd_win box = (case box of
     None \<Rightarrow> -1
   | Some b \<Rightarrow> (case rfd (socks b) of
       None \<Rightarrow> -1
     | Some fd \<Rightarrow> if fd > 0x7fffffff then -1 else int fd))"

text \<open>\<open>send\<close>: an error, or the number of bytes the stream took.\<close>

definition stream_send :: "u8 list \<Rightarrow> nat \<Rightarrow> wbox \<Rightarrow> wbox" where
  "stream_send bytes n b = b\<lparr>stream := stream b @ take n bytes\<rparr>"

definition mbox_push_win :: "wbox option \<Rightarrow> u8 list option \<Rightarrow> wsa + nat \<Rightarrow> unit res \<times> wbox option" where
  "mbox_push_win box msg sent = (case (msg, box) of
     (Some m, Some b) \<Rightarrow>
       (case sent of
          Inl e \<Rightarrow> (Inl (if e = WSAEWOULDBLOCK then EAGAIN else EIO), Some b)
        | Inr n \<Rightarrow> (Inr (), Some (stream_send (take (wmsg_size b) m) n b)))
   | _ \<Rightarrow> (Inl EINVAL, box))"

text \<open>\<open>recv\<close> takes at most \<open>msg_size\<close> of the bytes in the stream; \<open>n\<close> of them.\<close>

definition mbox_peek_win :: "wbox option \<Rightarrow> bool \<Rightarrow> wsa + nat \<Rightarrow> u8 list res \<times> wbox option" where
  "mbox_peek_win box msg received = (case box of
     None \<Rightarrow> (Inl EINVAL, None)
   | Some b \<Rightarrow>
      if \<not> msg then (Inl EINVAL, Some b)
      else (case received of
          Inl e \<Rightarrow> (Inl (if e = WSAEWOULDBLOCK then EAGAIN else EIO), Some b)
        | Inr n \<Rightarrow> if n = 0 then (Inl EPIPE, Some b)
            else (Inr (take n (take (wmsg_size b) (stream b))), Some (b\<lparr>stream := drop n (stream b)\<rparr>))))"

text \<open>
  \<open>mbox_push_block\<close>: per turn the outcome of \<open>select\<close> and, when it reports room, of \<open>send\<close>.  An
  error is the Windows code itself (\<open>errno\<close> is \<open>WSAGetLastError\<close> there).  When no turn is left the
  caller still blocks.
\<close>

datatype turn = SelTimeout | SelFail nat | SendFail nat | Sent nat

primrec push_block_win_loop :: "turn list \<Rightarrow> u8 list \<Rightarrow> nat \<Rightarrow> wbox \<Rightarrow> (unit res \<times> wbox) option" where
  "push_block_win_loop [] m done_n b = None"
| "push_block_win_loop (t # ts) m done_n b = (case t of
     SelTimeout \<Rightarrow>
       if done_n = 0 then Some (Inl ETIMEDOUT, b)
       else if done_n < wmsg_size b then push_block_win_loop ts m done_n b else Some (Inr (), b)
   | SelFail e \<Rightarrow> Some (Inl (Errno e), b)
   | SendFail e \<Rightarrow> Some (Inl (Errno e), b)
   | Sent k \<Rightarrow>
      (let chunk = take (wmsg_size b - done_n) (drop done_n m);
           n = min k (length chunk);
           b' = stream_send chunk n b
       in if done_n + n < wmsg_size b' then push_block_win_loop ts m (done_n + n) b' else Some (Inr (), b')))"

text \<open>The timeout handed to \<open>select\<close> while nothing has been sent: seconds and microseconds.\<close>

definition select_timeout :: "u32 \<Rightarrow> (u32 \<times> u32) option" where
  "select_timeout timeout_ms = (if timeout_ms > 0 then Some (timeout_ms div 1000, timeout_ms * 1000) else None)"

definition mbox_push_block_win ::
  "wbox option \<Rightarrow> u8 list option \<Rightarrow> u32 \<Rightarrow> ((u32 \<times> u32) option \<Rightarrow> turn list) \<Rightarrow> (unit res \<times> wbox option) option" where
  "mbox_push_block_win box msg timeout_ms turns = (case (msg, box) of
     (Some m, Some b) \<Rightarrow>
        if length m < wmsg_size b then None
        else map_option (apsnd Some) (push_block_win_loop (turns (select_timeout timeout_ms)) m 0 b)
   | _ \<Rightarrow> Some (Inl EINVAL, box))"

subsection \<open>No socket is lost\<close>

definition opened :: "sockets \<Rightarrow> nat set" where
  "opened s = set (destroy_sockets s)"

lemma connect_pair_cases:
  "connect_pair r = Inr s \<Longrightarrow> \<exists>a w d. r 0 = Inr a \<and> r 4 = Inr w \<and> r 6 = Inr d \<and> s = \<lparr>server = Some a, rfd = Some d, wfd = Some w\<rparr>"
  by (auto simp: connect_pair_def Let_def no_sockets_def split: sum.splits)

lemma init_win_closes:
  "init_notify_channel_win r = (Inl e, s, closed) \<Longrightarrow> closed = destroy_sockets s"
  "init_notify_channel_win r = (Inr u, s, closed) \<Longrightarrow> closed = [] \<and> server s \<noteq> None \<and> rfd s \<noteq> None \<and> wfd s \<noteq> None"
  by (auto simp: init_notify_channel_win_def split: sum.splits prod.splits dest: connect_pair_cases)

lemma push_block_win_stores:
  assumes "push_block_win_loop ts m d b = Some (Inr (), b')" "wmsg_size b \<le> length m" "d < wmsg_size b"
  shows "stream b' = stream b @ take (wmsg_size b - d) (drop d m)"
  using assms
proof (induction ts arbitrary: d b)
  case (Cons t ts)
  show ?case
  proof (cases t)
    case SelTimeout
    then show ?thesis using Cons by (auto split: if_splits)
  next
    case (Sent n)
    define chunk where "chunk = take (wmsg_size b - d) (drop d m)"
    define k where "k = min n (length chunk)"
    have lc: "length chunk = wmsg_size b - d" using Cons.prems(2) by (simp add: chunk_def)
    have run: "(if d + k < wmsg_size b then push_block_win_loop ts m (d + k) (stream_send chunk k b)
        else Some (Inr (), stream_send chunk k b)) = Some (Inr (), b')"
      using Cons.prems(1) Sent unfolding push_block_win_loop.simps chunk_def k_def Let_def by (simp add: stream_send_def)
    show ?thesis
    proof (cases "d + k < wmsg_size b")
      case True
      have "push_block_win_loop ts m (d + k) (stream_send chunk k b) = Some (Inr (), b')" using run True by simp
      then have "stream b' = stream (stream_send chunk k b) @ take (wmsg_size b - (d + k)) (drop (d + k) m)"
        using Cons.IH [of "d + k" "stream_send chunk k b"] Cons.prems(2) True by (simp add: stream_send_def)
      moreover have "take k chunk @ take (wmsg_size b - (d + k)) (drop (d + k) m) = chunk"
      proof -
        have "take (k + (wmsg_size b - (d + k))) (drop d m) = take k (drop d m) @ take (wmsg_size b - (d + k)) (drop k (drop d m))"
          by (rule take_add)
        moreover have "k + (wmsg_size b - (d + k)) = wmsg_size b - d" using True by simp
        moreover have "take k chunk = take k (drop d m)" using True by (simp add: chunk_def min_def)
        ultimately show ?thesis by (simp add: chunk_def add.commute)
      qed
      ultimately show ?thesis by (simp add: stream_send_def flip: chunk_def)
    next
      case False
      then have k: "k = length chunk" using lc Cons.prems(3) by (simp add: k_def)
      have "b' = stream_send chunk k b" using run unfolding if_not_P [OF False] by simp
      then have "stream b' = stream b @ chunk" unfolding k by (simp add: stream_send_def)
      then show ?thesis by (simp only: chunk_def)
    qed
  qed (use Cons.prems(1) in simp_all)
qed simp

text \<open>
  The Windows build.  A constructor that fails closes exactly the sockets it opened.
  The blocking push answers success only when the stream has the whole message.  The non-blocking
  push answers success whatever part of the message the stream took, after which the messages behind
  it are shifted.  The timeout of the blocking push has the milliseconds twice, as seconds and again
  as microseconds.
\<close>

theorem winsock_push:
  "(init_notify_channel_win r = (Inl e, s, closed) \<longrightarrow> set closed = opened s) \<and>
   (mbox_push_block_win (Some b) (Some m) t turns = Some (Inr (), Some b') \<and> 0 < wmsg_size b \<longrightarrow>
      stream b' = stream b @ take (wmsg_size b) m) \<and>
   mbox_push_win (Some b) (Some m) (Inr n) =
     (Inr (), Some (b\<lparr>stream := stream b @ take n (take (wmsg_size b) m)\<rparr>)) \<and>
   select_timeout 1500 = Some (1, 1500000)"
proof -
  have "stream b' = stream b @ take (wmsg_size b) m"
    if a: "mbox_push_block_win (Some b) (Some m) t turns = Some (Inr (), Some b')" "0 < wmsg_size b"
  proof -
    have "push_block_win_loop (turns (select_timeout t)) m 0 b = Some (Inr (), b')" "wmsg_size b \<le> length m"
      using a(1) by (auto simp: mbox_push_block_win_def split: if_splits)
    then show ?thesis using push_block_win_stores a(2) by fastforce
  qed
  then show ?thesis using init_win_closes(1) [of r e s closed]
    by (auto simp: mbox_push_win_def stream_send_def select_timeout_def opened_def)
qed

lemma winsock_push_witness:
  "init_notify_channel_win (\<lambda>i. if i = 5 then Inl WSAETIMEDOUT else Inr (i + 10)) =
     (Inl ETIMEDOUT, \<lparr>server = Some 10, rfd = None, wfd = Some 14\<rparr>, [10, 14]) \<and>
   set [10, 14] = opened \<lparr>server = Some 10, rfd = None, wfd = Some 14\<rparr>"
proof -
  have run: "init_notify_channel_win (\<lambda>i. if i = 5 then Inl WSAETIMEDOUT else Inr (i + 10)) =
     (Inl ETIMEDOUT, \<lparr>server = Some 10, rfd = None, wfd = Some 14\<rparr>, [10, 14])"
    by (simp add: init_notify_channel_win_def connect_pair_def no_sockets_def destroy_sockets_def wsa2errno_def
        List.map_filter_def)
  then show ?thesis using winsock_push [THEN conjunct1, rule_format, OF run] by blast
qed

end
