(* ===== verification/Safew.thy ===== *)
theory Safew
  imports Prelude
begin

text \<open>
  Component \<open>safew\<close> (src/src/safew.c): replacing a file by a new version, optionally with a checksum
  file, so that a crash leaves the old or the new version.

  The disk maps names to contents.  Bytes written to a stream stay in its buffer until the stream is
  flushed or closed; only then another stream sees them in the file.  A name is \<open>dirty\<close> while its contents,
  buffered bytes included, were not forced to the device, and a crash may then leave anything in it:
  \<open>fsync\<close> cleans a file only when its buffer was flushed before.  Creation, removal and renaming
  take effect in order, and at once: the code never synchronises a directory, and what a directory that
  lags behind means for an acknowledged commit is treated in \<open>SafewLife\<close>.  Each operation also returns the
  disks passed through, one per system call, which are the points where it may be cut off by a crash.

  The outcome of each system call is a parameter, the removal of files included; results \<open>0\<close> and
  \<open>-1\<close> are \<open>True\<close> and \<open>False\<close>.
\<close>

type_synonym bytes = "u8 list"

record disk =
  files :: "string \<Rightarrow> bytes option"
  dirty :: "string set"
  buffered :: "string \<Rightarrow> bytes"

definition create :: "string \<Rightarrow> disk \<Rightarrow> disk" where
  "create n d = d\<lparr>files := (files d)(n := Some []), dirty := insert n (dirty d), buffered := (buffered d)(n := [])\<rparr>"

text \<open>\<open>fwrite\<close>: the bytes go to the buffer of the stream.\<close>

definition append_to :: "string \<Rightarrow> bytes \<Rightarrow> disk \<Rightarrow> disk" where
  "append_to n bs d = (case files d n of
     None \<Rightarrow> d
   | Some _ \<Rightarrow> d\<lparr>buffered := (buffered d)(n := buffered d n @ bs), dirty := insert n (dirty d)\<rparr>)"

text \<open>\<open>fflush\<close>, \<open>fsync\<close> and \<open>fclose\<close>; a failing \<open>fclose\<close> drops what is in the buffer.\<close>

definition flush :: "bool \<Rightarrow> string \<Rightarrow> disk \<Rightarrow> disk" where
  "flush ok n d = (case files d n of
     None \<Rightarrow> d
   | Some old \<Rightarrow> if ok then d\<lparr>files := (files d)(n := Some (old @ buffered d n)), buffered := (buffered d)(n := [])\<rparr> else d)"

definition sync :: "bool \<Rightarrow> string \<Rightarrow> disk \<Rightarrow> disk" where
  "sync ok n d = (if ok \<and> buffered d n = [] then d\<lparr>dirty := dirty d - {n}\<rparr> else d)"

definition close_stream :: "bool \<Rightarrow> string \<Rightarrow> disk \<Rightarrow> disk" where
  "close_stream ok n d = (if ok then flush True n d else d\<lparr>buffered := (buffered d)(n := [])\<rparr>)"

definition unlink :: "bool \<Rightarrow> string \<Rightarrow> disk \<Rightarrow> disk" where
  "unlink ok n d = (if ok then d\<lparr>files := (files d)(n := None), dirty := dirty d - {n}\<rparr> else d)"

definition rename :: "string \<Rightarrow> string \<Rightarrow> disk \<Rightarrow> disk" where
  "rename a b d = d\<lparr>files := (files d)(b := files d a, a := None),
     dirty := (if a \<in> dirty d then insert b (dirty d - {a}) else dirty d - {a, b}),
     buffered := (buffered d)(b := buffered d a, a := [])\<rparr>"

text \<open>What a crash may leave of a disk.\<close>

definition crash :: "disk \<Rightarrow> disk \<Rightarrow> bool" where
  "crash d d' \<longleftrightarrow> dirty d' = {} \<and> buffered d' = (\<lambda>_. []) \<and> (\<forall>n. (files d' n = None) = (files d n = None)) \<and>
    (\<forall>n. n \<notin> dirty d \<longrightarrow> files d' n = files d n)"

text \<open>
  Opening and reading: \<open>see n bs\<close> is what a reader of the file \<open>n\<close> with contents \<open>bs\<close> gets, \<open>None\<close> when \<open>fopen\<close>
  fails, otherwise the bytes delivered before the end of the file or a read error, which the code does not
  tell apart.  \<open>reads_all\<close>: neither fails.
\<close>

type_synonym reads = "string \<Rightarrow> bytes \<Rightarrow> bytes option"

abbreviation reads_all :: reads where "reads_all \<equiv> \<lambda>_ bs. Some bs"

definition look :: "reads \<Rightarrow> disk \<Rightarrow> string \<Rightarrow> bytes option" where
  "look see d n = (case files d n of None \<Rightarrow> None | Some bs \<Rightarrow> see n bs)"

subsection \<open>The checksum\<close>

definition crc_byte :: "u32 \<Rightarrow> u8 \<Rightarrow> u32" where
  "crc_byte crc val =
    (let crc = crc + ucast val;
         crc = crc + push_bit 10 crc;
         crc = crc XOR drop_bit 6 crc
     in crc)"

definition crc_from_fhd :: "bytes \<Rightarrow> u32" where
  "crc_from_fhd bs =
    (let crc = foldl crc_byte 0 bs;
         crc = crc + push_bit 3 crc;
         crc = crc XOR drop_bit 11 crc;
         crc = crc + push_bit 15 crc
     in crc)"

definition read_crc :: "bytes \<Rightarrow> u32 option" where
  "read_crc bs = (if length bs < 4 then None else Some (bytes_u32 (take 4 bs)))"

definition check_pair :: "bytes \<Rightarrow> bytes \<Rightarrow> bool" where
  "check_pair payload crc = (case read_crc crc of None \<Rightarrow> False | Some c \<Rightarrow> c = crc_from_fhd payload)"

subsection \<open>Names\<close>

definition SAFEW_TMP_SUFFIX :: string where "SAFEW_TMP_SUFFIX = ''.tmp''"
definition SAFEW_CRC_SUFFIX :: string where "SAFEW_CRC_SUFFIX = ''.crc''"
definition SAFEW_PATH_MAX_LEN :: nat where "SAFEW_PATH_MAX_LEN = 128"

record futils_safew_file =
  path :: string
  tmp_path :: string
  failure :: bool

record futils_safew_crc =
  crc_path :: string
  crc_tmp_path :: string

text \<open>\<open>snprintf\<close> into an array of \<open>n\<close> characters: \<open>None\<close> when the text does not fit.\<close>

definition fit :: "nat \<Rightarrow> string \<Rightarrow> string option" where
  "fit n str = (if length str \<ge> n then None else Some str)"

definition safew_create_crc_filenames :: "string \<Rightarrow> futils_safew_crc option" where
  "safew_create_crc_filenames pathname = do {
     p \<leftarrow> fit (SAFEW_PATH_MAX_LEN + length SAFEW_CRC_SUFFIX) (pathname @ SAFEW_CRC_SUFFIX);
     t \<leftarrow> fit (SAFEW_PATH_MAX_LEN + length SAFEW_TMP_SUFFIX + length SAFEW_CRC_SUFFIX) (p @ SAFEW_TMP_SUFFIX);
     Some \<lparr>crc_path = p, crc_tmp_path = t\<rparr> }"

text \<open>
  What \<open>snprintf\<close> leaves in the array, and what the names hold when they do not fit: the caller's structure
  starts zeroed, and the second name is not written when the first did not fit.
\<close>

definition cut :: "nat \<Rightarrow> string \<Rightarrow> string" where
  "cut n str = take (n - 1) str"

definition safew_crc_filenames_left :: "string \<Rightarrow> futils_safew_crc" where
  "safew_crc_filenames_left pathname =
    (case fit (SAFEW_PATH_MAX_LEN + length SAFEW_CRC_SUFFIX) (pathname @ SAFEW_CRC_SUFFIX) of
       None \<Rightarrow> \<lparr>crc_path = cut (SAFEW_PATH_MAX_LEN + length SAFEW_CRC_SUFFIX) (pathname @ SAFEW_CRC_SUFFIX),
                crc_tmp_path = ''''\<rparr>
     | Some p \<Rightarrow> \<lparr>crc_path = p,
          crc_tmp_path = cut (SAFEW_PATH_MAX_LEN + length SAFEW_TMP_SUFFIX + length SAFEW_CRC_SUFFIX) (p @ SAFEW_TMP_SUFFIX)\<rparr>)"

subsection \<open>Writing\<close>

definition futils_safew_fopen ::
  "string \<Rightarrow> bool \<Rightarrow> bool \<Rightarrow> bool \<Rightarrow> disk \<Rightarrow> futils_safew_file option \<times> disk \<times> disk list" where
  "futils_safew_fopen pathname calloc_ok unlink_ok fopen_ok d =
    (if \<not> calloc_ok then (None, d, [])
     else case fit (SAFEW_PATH_MAX_LEN + length SAFEW_TMP_SUFFIX) (pathname @ SAFEW_TMP_SUFFIX) of
       None \<Rightarrow> (None, d, [])
     | Some t \<Rightarrow>
        (case fit SAFEW_PATH_MAX_LEN pathname of
           None \<Rightarrow> (None, d, [])
         | Some p \<Rightarrow>
            (let d1 = unlink unlink_ok t d in
             if \<not> fopen_ok then (None, d1, [d1])
             else let d2 = create t d1
               in (Some \<lparr>path = p, tmp_path = t, failure = False\<rparr>, d2, [d1, d2]))))"

text \<open>\<open>n\<close>: the number of items \<open>fwrite\<close> transferred; \<open>out\<close>: what \<open>vfprintf\<close> wrote, \<open>None\<close> if it failed.\<close>

definition futils_safew_fwrite ::
  "bytes \<Rightarrow> nat \<Rightarrow> nat \<Rightarrow> nat \<Rightarrow> futils_safew_file \<Rightarrow> disk \<Rightarrow> nat \<times> futils_safew_file \<times> disk" where
  "futils_safew_fwrite ptr sz nmemb n f d =
    (n, if n \<noteq> nmemb then f\<lparr>failure := True\<rparr> else f, append_to (tmp_path f) (take (sz * n) ptr) d)"

definition futils_safew_fprintf ::
  "bytes option \<Rightarrow> futils_safew_file \<Rightarrow> disk \<Rightarrow> int \<times> futils_safew_file \<times> disk" where
  "futils_safew_fprintf out f d = (case out of
     None \<Rightarrow> (-1, f\<lparr>failure := True\<rparr>, d)
   | Some bs \<Rightarrow> (int (length bs), f, append_to (tmp_path f) bs d))"

text \<open>ThreadX: the text goes through a buffer of 128 bytes; \<open>n\<close> of its bytes are transferred.\<close>

definition futils_safew_fprintf_threadx ::
  "bytes option \<Rightarrow> nat \<Rightarrow> futils_safew_file \<Rightarrow> disk \<Rightarrow> int \<times> futils_safew_file \<times> disk" where
  "futils_safew_fprintf_threadx out n f d = (case out of
     None \<Rightarrow> (-1, f\<lparr>failure := True\<rparr>, d)
   | Some bs \<Rightarrow>
      if length bs \<ge> 128 then (-1, f\<lparr>failure := True\<rparr>, d)
      else (int n, if n \<noteq> length bs then f\<lparr>failure := True\<rparr> else f, append_to (tmp_path f) (take n bs) d))"

definition futils_safew_fclose_rollback ::
  "futils_safew_file option \<Rightarrow> bool \<Rightarrow> bool \<Rightarrow> disk \<Rightarrow> bool \<times> disk \<times> disk list" where
  "futils_safew_fclose_rollback f fclose_ok unlink_ok d = (case f of
     None \<Rightarrow> (False, d, [])
   | Some f \<Rightarrow>
      (let d1 = close_stream fclose_ok (tmp_path f) d;
           d2 = unlink unlink_ok (tmp_path f) d1
       in (fclose_ok \<and> unlink_ok \<and> files d (tmp_path f) \<noteq> None, d2, [d1, d2])))"

text \<open>The system calls of a commit and of a check.\<close>

datatype call = Fflush | Fsync | Fclose | Crc_close_payload | Crc_open
  | Crc_fwrite | Crc_fflush | Crc_fsync | Crc_fclose | Rename_payload | Rename_crc
  | Unlink_tmp | Unlink_tmp_crc | Unlink_payload | Unlink_crc

definition crc_from_file :: "(call \<Rightarrow> bool) \<Rightarrow> reads \<Rightarrow> string \<Rightarrow> disk \<Rightarrow> u32 option" where
  "crc_from_file ok see pathname d = (case look see d pathname of
     None \<Rightarrow> None
   | Some bs \<Rightarrow> if \<not> ok Crc_close_payload then None else Some (crc_from_fhd bs))"

text \<open>\<open>part\<close>: the bytes stored when \<open>fwrite\<close> of the checksum fails.\<close>

definition safew_tmp_crc_create ::
  "(call \<Rightarrow> bool) \<Rightarrow> reads \<Rightarrow> bytes \<Rightarrow> string \<Rightarrow> string \<Rightarrow> disk \<Rightarrow> bool \<times> disk \<times> disk list" where
  "safew_tmp_crc_create ok see part pathname tmp d = (case crc_from_file ok see pathname d of
     None \<Rightarrow> (False, d, [])
   | Some crc \<Rightarrow>
      if \<not> ok Crc_open then (False, d, [])
      else
       (let d1 = create tmp d;
            d2 = append_to tmp (if ok Crc_fwrite then u32_bytes crc else part) d1;
            d3 = flush (ok Crc_fflush) tmp d2;
            d4 = sync (ok Crc_fsync) tmp d3;
            d5 = close_stream (ok Crc_fclose) tmp d4
        in (ok Crc_fwrite \<and> ok Crc_fflush \<and> ok Crc_fsync \<and> ok Crc_fclose, d5, [d1, d2, d3, d4, d5])))"

definition safew_fclose_commit ::
  "(call \<Rightarrow> bool) \<Rightarrow> reads \<Rightarrow> bytes \<Rightarrow> futils_safew_file option \<Rightarrow> bool \<Rightarrow> disk \<Rightarrow> bool \<times> disk \<times> disk list" where
  "safew_fclose_commit ok see part f with_crc d = (case f of
     None \<Rightarrow> (False, d, [])
   | Some f \<Rightarrow>
      (let crc_fp = \<lparr>crc_path = '''', crc_tmp_path = ''''\<rparr>;
           (ret, d1, tr1) = (if failure f then (False, d, [])
             else (let a = flush (ok Fflush) (tmp_path f) d; b = sync (ok Fsync) (tmp_path f) a
                   in (ok Fflush \<and> ok Fsync, b, [a, b])));
           d1' = close_stream (ok Fclose) (tmp_path f) d1;
           ret = (ret \<and> ok Fclose);
           (ret, crc_fp, d2, tr2) = (if ret \<and> with_crc then
               (case safew_create_crc_filenames (path f) of
                  None \<Rightarrow> (False, safew_crc_filenames_left (path f), d1', [])
                | Some c \<Rightarrow>
                   (let (r, d2, tr) = safew_tmp_crc_create ok see part (tmp_path f) (crc_tmp_path c) d1' in (r, c, d2, tr)))
             else (ret, crc_fp, d1', []));
           (ret, d3) = (if ret then
               (if ok Rename_payload \<and> files d2 (tmp_path f) \<noteq> None then (True, rename (tmp_path f) (path f) d2) else (False, d2))
             else (ret, d2));
           (ret, d4) = (if ret \<and> with_crc then
               (if ok Rename_crc \<and> files d3 (crc_tmp_path crc_fp) \<noteq> None
                then (True, rename (crc_tmp_path crc_fp) (crc_path crc_fp) d3) else (False, d3))
             else (ret, d3));
           (d5, tr5) = (if \<not> ret then
               (let a = unlink (ok Unlink_tmp) (tmp_path f) d4 in
                if with_crc then
                  (let b = unlink (ok Unlink_crc) (crc_path crc_fp) a; c = unlink (ok Unlink_tmp_crc) (crc_tmp_path crc_fp) b
                   in (c, [a, b, c]))
                else (a, [a]))
             else (d4, []))
       in (ret, d5, tr1 @ [d1'] @ tr2 @ [d3, d4] @ tr5)))"

text \<open>Without a checksum nothing is read.\<close>

definition futils_safew_fclose_commit ::
  "(call \<Rightarrow> bool) \<Rightarrow> futils_safew_file option \<Rightarrow> disk \<Rightarrow> bool \<times> disk \<times> disk list" where
  "futils_safew_fclose_commit ok f d = safew_fclose_commit ok reads_all [] f False d"

definition futils_safew_fclose_commit_with_crc ::
  "(call \<Rightarrow> bool) \<Rightarrow> reads \<Rightarrow> bytes \<Rightarrow> futils_safew_file option \<Rightarrow> disk \<Rightarrow> bool \<times> disk \<times> disk list" where
  "futils_safew_fclose_commit_with_crc ok see part f d = safew_fclose_commit ok see part f True d"

subsection \<open>Recovery\<close>

text \<open>Two renames in turn; the second only after success of the first.\<close>

definition rename1 :: "bool \<Rightarrow> string \<Rightarrow> string \<Rightarrow> disk \<Rightarrow> bool \<times> disk \<times> disk list" where
  "rename1 ok a b d = (if ok then (True, rename a b d, [rename a b d]) else (False, d, []))"

definition rename2 :: "bool \<Rightarrow> bool \<Rightarrow> string \<times> string \<Rightarrow> string \<times> string \<Rightarrow> disk \<Rightarrow> bool \<times> disk \<times> disk list" where
  "rename2 ok1 ok2 ab cd d =
    (let (r, d, tr) = rename1 ok1 (fst ab) (snd ab) d in
     if \<not> r then (r, d, tr) else let (r, d, tr') = rename1 ok2 (fst cd) (snd cd) d in (r, d, tr @ tr'))"

text \<open>
  The \<open>switch\<close> over the files that can be opened; \<open>ok1\<close>, \<open>ok2\<close>: the outcomes of the renames.  A reader
  that gets fewer than four bytes of a checksum file fails.
\<close>

definition recover ::
  "bool \<Rightarrow> bool \<Rightarrow> reads \<Rightarrow> string \<Rightarrow> string \<Rightarrow> futils_safew_crc \<Rightarrow> disk \<Rightarrow> bool \<times> disk \<times> disk list" where
  "recover ok1 ok2 see pathname tmp c d =
    (let move_crc = (crc_tmp_path c, crc_path c); move_payload = (tmp, pathname) in
     case (look see d pathname, look see d tmp, look see d (crc_path c), look see d (crc_tmp_path c)) of
       (Some payload, _, Some crc, None) \<Rightarrow> (check_pair payload crc, d, [])
     | (Some payload, None, None, Some tmp_crc) \<Rightarrow>
         if check_pair payload tmp_crc then rename1 ok1 (fst move_crc) (snd move_crc) d else (False, d, [])
     | (None, Some tmp_payload, None, Some tmp_crc) \<Rightarrow>
         if check_pair tmp_payload tmp_crc then rename2 ok1 ok2 move_payload move_crc d else (False, d, [])
     | (Some payload, None, Some crc, Some tmp_crc) \<Rightarrow>
         (case read_crc crc of None \<Rightarrow> (False, d, [])
          | Some v \<Rightarrow>
             if v = crc_from_fhd payload then (True, d, [])
             else (case read_crc tmp_crc of None \<Rightarrow> (False, d, [])
                   | Some v \<Rightarrow>
                      if v = crc_from_fhd payload then rename1 ok1 (fst move_crc) (snd move_crc) d else (False, d, [])))
     | (Some _, Some tmp_payload, None, Some tmp_crc) \<Rightarrow>
         if check_pair tmp_payload tmp_crc then rename2 ok1 ok2 move_crc move_payload d else (False, d, [])
     | (None, Some tmp_payload, Some _, Some tmp_crc) \<Rightarrow>
         if check_pair tmp_payload tmp_crc then rename2 ok1 ok2 move_crc move_payload d else (False, d, [])
     | (Some payload, Some tmp_payload, Some crc, Some tmp_crc) \<Rightarrow>
         (case read_crc tmp_crc of None \<Rightarrow> (False, d, [])
          | Some v \<Rightarrow>
             if v = crc_from_fhd tmp_payload then rename2 ok1 ok2 move_crc move_payload d
             else (case read_crc crc of None \<Rightarrow> (False, d, [])
                   | Some v \<Rightarrow> (v = crc_from_fhd payload, d, [])))
     | _ \<Rightarrow> (False, d, []))"

text \<open>\<open>ok1\<close>, \<open>ok2\<close>: the first and the second rename; \<open>ok\<close>: the removals.\<close>

definition futils_safew_file_check ::
  "bool \<Rightarrow> bool \<Rightarrow> (call \<Rightarrow> bool) \<Rightarrow> reads \<Rightarrow> string \<Rightarrow> disk \<Rightarrow> bool \<times> disk \<times> disk list" where
  "futils_safew_file_check ok1 ok2 ok see pathname d =
    (case fit (SAFEW_PATH_MAX_LEN + length SAFEW_TMP_SUFFIX) (pathname @ SAFEW_TMP_SUFFIX) of
       None \<Rightarrow> (False, d, [])
     | Some tmp \<Rightarrow>
        (case safew_create_crc_filenames pathname of
           None \<Rightarrow> (False, d, [])
         | Some c \<Rightarrow>
            (let (ret, d1, tr) = recover ok1 ok2 see pathname tmp c d;
                 d2 = unlink (ok Unlink_tmp) tmp d1;
                 d3 = unlink (ok Unlink_tmp_crc) (crc_tmp_path c) d2
             in if ret then (ret, d3, tr @ [d2, d3])
                else let d4 = unlink (ok Unlink_payload) pathname d3; d5 = unlink (ok Unlink_crc) (crc_path c) d4
                  in (ret, d5, tr @ [d2, d3, d4, d5]))))"

text \<open>A check in which every call succeeds.\<close>

abbreviation file_check :: "string \<Rightarrow> disk \<Rightarrow> bool \<times> disk \<times> disk list" where
  "file_check \<equiv> futils_safew_file_check True True (\<lambda>_. True) reads_all"


subsection \<open>The checksum notices every change of a single byte\<close>

lemma inj_xor_drop: "0 < n \<Longrightarrow> inj (\<lambda>w :: 'a::len word. w XOR drop_bit n w)"
proof (rule injI)
  fix v w :: "'a word"
  assume n: "0 < n" and eq: "v XOR drop_bit n v = w XOR drop_bit n w"
  have "bit v i = bit w i" if "i < LENGTH('a)" for i
    using that
  proof (induction "LENGTH('a) - i" arbitrary: i rule: less_induct)
    case less
    have high: "bit v (i + n) = bit w (i + n)"
    proof (cases "i + n < LENGTH('a)")
      case True
      then show ?thesis using less.hyps [of "i + n"] less.prems n by simp
    next
      case False
      then show ?thesis using bit_imp_le_length [of v "i + n"] bit_imp_le_length [of w "i + n"] by auto
    qed
    have "bit (v XOR drop_bit n v) i = bit (w XOR drop_bit n w) i" using eq by simp
    then show ?case using high by (simp add: bit_xor_iff bit_drop_bit_eq add.commute) blast
  qed
  then show "v = w" by (rule bit_word_eqI)
qed

lemma inj_add_push: "0 < n \<Longrightarrow> inj (\<lambda>w :: 'a::len word. w + push_bit n w)"
proof (rule injI)
  fix v w :: "'a word"
  assume n: "0 < n" and eq: "v + push_bit n v = w + push_bit n w"
  have "(2 ^ n + 1) * (v - w) = 0" using eq by (simp add: push_bit_eq_mult algebra_simps)
  then have "(of_nat (2 ^ n + 1) :: 'a word) * of_nat (unat (v - w)) = 0" by (simp add: add.commute)
  then have "(of_nat ((2 ^ n + 1) * unat (v - w)) :: 'a word) = 0" by (simp only: of_nat_mult)
  then have "2 ^ LENGTH('a) dvd (2 ^ n + 1) * unat (v - w)" by (simp only: word_of_nat_eq_0_iff)
  moreover have "coprime (2 ^ LENGTH('a)) (2 ^ n + 1 :: nat)" using n by simp
  ultimately have "2 ^ LENGTH('a) dvd unat (v - w)" using coprime_dvd_mult_right_iff by blast
  then have "unat (v - w) = 0" using unat_bound [of "v - w"] by (meson dvd_imp_le gr0I not_le)
  then show "v = w" by (simp add: unat_eq_zero)
qed

definition crc_mix :: "u32 \<Rightarrow> u32" where
  "crc_mix c = (c + push_bit 10 c) XOR drop_bit 6 (c + push_bit 10 c)"

definition crc_last :: "u32 \<Rightarrow> u32" where
  "crc_last c = (let c = c + push_bit 3 c; c = c XOR drop_bit 11 c in c + push_bit 15 c)"

lemma crc_byte_mix: "crc_byte c b = crc_mix (c + ucast b)"
  by (simp only: crc_byte_def crc_mix_def Let_def)

lemma crc_from_fhd_last: "crc_from_fhd bs = crc_last (foldl crc_byte 0 bs)"
  by (simp only: crc_from_fhd_def crc_last_def Let_def)

lemma inj_crc_mix: "inj crc_mix"
  using inj_compose [OF inj_xor_drop [of 6] inj_add_push [of 10]]
  unfolding comp_def crc_mix_def [abs_def] by simp

lemma inj_crc_last: "inj crc_last"
  using inj_compose [OF inj_add_push [of 15] inj_compose [OF inj_xor_drop [of 11] inj_add_push [of 3]]]
  unfolding comp_def crc_last_def [abs_def] Let_def by simp

lemma crc_byte_state: "crc_byte c b = crc_byte c' b \<Longrightarrow> c = c'"
  using injD [OF inj_crc_mix, of "c + ucast b" "c' + ucast b"] unfolding crc_byte_mix by simp

lemma crc_byte_value: "crc_byte c b = crc_byte c b' \<Longrightarrow> b = b'"
proof -
  assume "crc_byte c b = crc_byte c b'"
  then have "(ucast b :: u32) = ucast b'"
    using injD [OF inj_crc_mix, of "c + ucast b" "c + ucast b'"] unfolding crc_byte_mix by simp
  then have "unat (ucast b :: u32) = unat (ucast b' :: u32)" by (rule arg_cong)
  then have "unat b = unat b'" by (simp add: unat_ucast_le)
  then show "b = b'" by (simp add: word_unat_eq_iff)
qed

lemma crc_bytes_state: "foldl crc_byte c bs = foldl crc_byte c' bs \<Longrightarrow> c = c'"
proof (induction bs arbitrary: c c')
  case (Cons b bs)
  then have "crc_byte c b = crc_byte c' b" by (simp only: foldl_Cons)
  then show ?case by (rule crc_byte_state)
qed simp

lemma crc_single_byte:
  assumes "b \<noteq> b'"
  shows "crc_from_fhd (xs @ b # ys) \<noteq> crc_from_fhd (xs @ b' # ys)"
proof
  assume "crc_from_fhd (xs @ b # ys) = crc_from_fhd (xs @ b' # ys)"
  then have "foldl crc_byte 0 (xs @ b # ys) = foldl crc_byte 0 (xs @ b' # ys)"
    using injD [OF inj_crc_last] unfolding crc_from_fhd_last by blast
  then have "foldl crc_byte (crc_byte (foldl crc_byte 0 xs) b) ys = foldl crc_byte (crc_byte (foldl crc_byte 0 xs) b') ys"
    by (simp only: foldl_append foldl_Cons)
  then have "crc_byte (foldl crc_byte 0 xs) b = crc_byte (foldl crc_byte 0 xs) b'" by (rule crc_bytes_state)
  then show False using crc_byte_value assms by blast
qed

subsection \<open>Names\<close>

abbreviation "tmp_of p \<equiv> p @ ''.tmp''"
abbreviation "crc_of p \<equiv> p @ ''.crc''"
abbreviation "tmp_crc_of p \<equiv> (p @ ''.crc'') @ ''.tmp''"

lemma names_fit:
  assumes "length p < 128"
  shows "fit (SAFEW_PATH_MAX_LEN + length SAFEW_TMP_SUFFIX) (p @ SAFEW_TMP_SUFFIX) = Some (tmp_of p)"
    "fit SAFEW_PATH_MAX_LEN p = Some p"
    "safew_create_crc_filenames p = Some \<lparr>crc_path = crc_of p, crc_tmp_path = tmp_crc_of p\<rparr>"
  using assms by (simp_all add: fit_def SAFEW_PATH_MAX_LEN_def SAFEW_TMP_SUFFIX_def SAFEW_CRC_SUFFIX_def
      safew_create_crc_filenames_def)

lemmas disk_ops = create_def append_to_def flush_def sync_def close_stream_def unlink_def rename_def

lemma look_all [simp]: "look reads_all d n = files d n"
  by (simp add: look_def split: option.split)

subsection \<open>What the recovery does\<close>

text \<open>The table in the header file: which payload and checksum survive.\<close>

fun survivor :: "bytes option \<Rightarrow> bytes option \<Rightarrow> bytes option \<Rightarrow> bytes option \<Rightarrow> (bytes \<times> bytes) option" where
  "survivor (Some p) _ (Some c) None = (if check_pair p c then Some (p, c) else None)"
| "survivor (Some p) None None (Some tc) = (if check_pair p tc then Some (p, tc) else None)"
| "survivor (Some p) None (Some c) (Some tc) =
    (if check_pair p c then Some (p, c) else if check_pair p tc then Some (p, tc) else None)"
| "survivor (Some p) (Some tp) (Some c) (Some tc) =
    (if check_pair tp tc then Some (tp, tc) else if check_pair p c then Some (p, c) else None)"
| "survivor _ (Some tp) _ (Some tc) = (if check_pair tp tc then Some (tp, tc) else None)"
| "survivor _ _ _ _ = None"

definition after_check :: "(bytes \<times> bytes) option \<Rightarrow> string \<Rightarrow> disk \<Rightarrow> string \<Rightarrow> bytes option" where
  "after_check sv p d = (files d)(tmp_of p := None, tmp_crc_of p := None, p := map_option fst sv, crc_of p := map_option snd sv)"

text \<open>
  The two situations in which the code gives up on a checksum file of less than four bytes although the table
  goes on with the other one.
\<close>

definition short_first :: "string \<Rightarrow> disk \<Rightarrow> bool" where
  "short_first p d \<longleftrightarrow> files d p \<noteq> None \<and> (case (files d (tmp_of p), files d (crc_of p), files d (tmp_crc_of p)) of
     (Some _, Some _, Some tc) \<Rightarrow> length tc < 4
   | (None, Some c, Some _) \<Rightarrow> length c < 4
   | _ \<Rightarrow> False)"

definition surviving :: "string \<Rightarrow> disk \<Rightarrow> (bytes \<times> bytes) option" where
  "surviving p d = (if short_first p d then None
     else survivor (files d p) (files d (tmp_of p)) (files d (crc_of p)) (files d (tmp_crc_of p)))"

lemma check_result:
  assumes "length p < 128"
  shows "fst (file_check p d) = (surviving p d \<noteq> None) \<and>
    files (fst (snd (file_check p d))) = after_check (surviving p d) p d"
  by (cases "files d p"; cases "files d (tmp_of p)"; cases "files d (crc_of p)"; cases "files d (tmp_crc_of p)")
    (simp_all add: futils_safew_file_check_def names_fit [OF assms(1)] recover_def rename1_def rename2_def Let_def
      unlink_def rename_def after_check_def surviving_def short_first_def check_pair_def read_crc_def fun_eq_iff split: prod.split)

lemma check_gives:
  assumes "length p < 128" "file_check p d = (r, d', tr)"
  shows "r \<longleftrightarrow> surviving p d \<noteq> None" "files d' = after_check (surviving p d) p d"
  using check_result [OF assms(1), of d] assms(2) by simp_all

text \<open>Whatever the renames answer, a pair is left only if it matches, and the temporary files go.\<close>

definition pair_at :: "disk \<Rightarrow> string \<Rightarrow> bool" where
  "pair_at d p \<longleftrightarrow> (case (files d p, files d (crc_of p)) of (Some a, Some c) \<Rightarrow> check_pair a c | _ \<Rightarrow> False)"

lemma rename_outcomes:
  "fst (rename1 ok a b d) = ok" "fst (snd (rename1 ok a b d)) = (if ok then rename a b d else d)"
  "fst (rename2 ok1 ok2 (a, b) (a', b') d) = (ok1 \<and> ok2)"
  "fst (snd (rename2 ok1 ok2 (a, b) (a', b') d)) =
    (if ok1 then if ok2 then rename a' b' (rename a b d) else rename a b d else d)"
  by (simp_all add: rename1_def rename2_def Let_def)

lemma unlink_files: "files (unlink ok n d) = (if ok then (files d)(n := None) else files d)"
  by (simp add: unlink_def)

lemma recover_always:
  fixes d p ok1 ok2 see
  defines "R \<equiv> recover ok1 ok2 see p (tmp_of p) \<lparr>crc_path = crc_of p, crc_tmp_path = tmp_crc_of p\<rparr> d"
  shows "see = reads_all \<Longrightarrow> fst R \<Longrightarrow> pair_at (fst (snd R)) p"
    and "n \<notin> {p, tmp_of p, crc_of p, tmp_crc_of p} \<Longrightarrow> files (fst (snd R)) n = files d n"
  unfolding R_def
  subgoal
    by (cases "files d p"; cases "files d (tmp_of p)"; cases "files d (crc_of p)"; cases "files d (tmp_crc_of p)";
      simp add: recover_def rename_outcomes Let_def rename_def pair_at_def check_pair_def split: if_splits option.splits)
  subgoal
    by (cases "look see d p"; cases "look see d (tmp_of p)"; cases "look see d (crc_of p)"; cases "look see d (tmp_crc_of p)";
      simp add: recover_def rename_outcomes Let_def rename_def split: if_splits option.splits)
  done

lemma check_always:
  assumes "length p < 128" "futils_safew_file_check ok1 ok2 ok see p d = (r, d', tr)"
  shows "ok Unlink_tmp \<Longrightarrow> files d' (tmp_of p) = None" "ok Unlink_tmp_crc \<Longrightarrow> files d' (tmp_crc_of p) = None"
    and "see = reads_all \<Longrightarrow> r \<Longrightarrow> pair_at d' p"
    and "\<not> r \<Longrightarrow> ok Unlink_payload \<Longrightarrow> files d' p = None" "\<not> r \<Longrightarrow> ok Unlink_crc \<Longrightarrow> files d' (crc_of p) = None"
    and "n \<notin> {p, tmp_of p, crc_of p, tmp_crc_of p} \<Longrightarrow> files d' n = files d n"
proof -
  let ?R = "recover ok1 ok2 see p (tmp_of p) \<lparr>crc_path = crc_of p, crc_tmp_path = tmp_crc_of p\<rparr> d"
  obtain b d1 tr1 where R: "?R = (b, d1, tr1)" by (cases ?R)
  have r: "r = b" "d' = (let x = unlink (ok Unlink_tmp_crc) (tmp_crc_of p) (unlink (ok Unlink_tmp) (tmp_of p) d1)
      in if b then x else unlink (ok Unlink_crc) (crc_of p) (unlink (ok Unlink_payload) p x))"
    using assms(2) R by (simp_all add: futils_safew_file_check_def names_fit [OF assms(1)] Let_def split: if_splits)
  have same: "b \<Longrightarrow> files d' p = files d1 p" "b \<Longrightarrow> files d' (crc_of p) = files d1 (crc_of p)"
    using r(2) by (simp_all add: unlink_files Let_def)
  have "see = reads_all \<Longrightarrow> b \<Longrightarrow> pair_at d1 p" using recover_always(1) [of see ok1 ok2 p d] R by simp
  then show "see = reads_all \<Longrightarrow> r \<Longrightarrow> pair_at d' p" using r(1) same by (simp add: pair_at_def)
  show "ok Unlink_tmp \<Longrightarrow> files d' (tmp_of p) = None" "ok Unlink_tmp_crc \<Longrightarrow> files d' (tmp_crc_of p) = None"
    "\<not> r \<Longrightarrow> ok Unlink_payload \<Longrightarrow> files d' p = None" "\<not> r \<Longrightarrow> ok Unlink_crc \<Longrightarrow> files d' (crc_of p) = None"
    using r by (simp_all add: unlink_files Let_def)
  show "files d' n = files d n" if "n \<notin> {p, tmp_of p, crc_of p, tmp_crc_of p}"
    using recover_always(2) [OF that, of ok1 ok2 see d] R r that by (simp add: unlink_files Let_def)
qed

lemma crash_self: "crash d (d\<lparr>dirty := {}, buffered := \<lambda>_. []\<rparr>)"
  by (simp add: crash_def)

lemma read_u32 [simp]: "read_crc (u32_bytes w) = Some w"
  by (simp add: read_crc_def bytes_u32_u32_bytes)

subsection \<open>The commit\<close>

definition handle :: "string \<Rightarrow> bool \<Rightarrow> futils_safew_file" where
  "handle p fl = \<lparr>path = p, tmp_path = tmp_of p, failure = fl\<rparr>"

text \<open>A sequence of \<open>futils_safew_fwrite\<close>: the bytes offered and the number of bytes taken, per call.\<close>

fun fwrites :: "(bytes \<times> nat) list \<Rightarrow> futils_safew_file \<Rightarrow> disk \<Rightarrow> futils_safew_file \<times> disk \<times> disk list" where
  "fwrites [] f d = (f, d, [])"
| "fwrites ((bs, n) # ws) f d =
    (let (_, f, d) = futils_safew_fwrite bs 1 (length bs) n f d; (f, d', tr) = fwrites ws f d in (f, d', d # tr))"

definition complete :: "(bytes \<times> nat) list \<Rightarrow> bool" where
  "complete ws \<longleftrightarrow> (\<forall>(bs, n) \<in> set ws. n = length bs)"

text \<open>While the temporary file is written everything else stays as it was.\<close>

definition writing :: "string \<Rightarrow> disk \<Rightarrow> bytes \<Rightarrow> disk \<Rightarrow> bool" where
  "writing t d0 bs d \<longleftrightarrow> dirty d - {t} = dirty d0 - {t} \<and>
     (\<exists>a. files d = (files d0)(t := Some a) \<and> a @ buffered d t = bs)"

lemma fwrites_run:
  assumes "writing (tmp_of p) d0 old d" "fwrites ws (handle p fl) d = (f, d', tr)"
  shows "f = handle p (fl \<or> \<not> complete ws) \<and> writing (tmp_of p) d0 (old @ concat (map (\<lambda>(bs, n). take n bs) ws)) d' \<and>
    (\<forall>x \<in> set tr. \<exists>bs. writing (tmp_of p) d0 bs x)"
  using assms
proof (induction ws arbitrary: old fl d tr)
  case Nil
  then show ?case by (simp add: complete_def)
next
  case (Cons w ws)
  obtain bs n where w: "w = (bs, n)" by (cases w)
  define d1 where "d1 = append_to (tmp_of p) (take n bs) d"
  have "writing (tmp_of p) d0 (old @ take n bs) d1"
    using Cons.prems(1) by (auto simp: writing_def d1_def append_to_def fun_eq_iff)
  moreover obtain tr1 where "fwrites ws (handle p (fl \<or> n \<noteq> length bs)) d1 = (f, d', tr1)" "tr = d1 # tr1"
    using Cons.prems(2) by (auto simp: w futils_safew_fwrite_def Let_def handle_def d1_def split: prod.splits if_splits)
  ultimately show ?case using Cons.IH [of "old @ take n bs" d1 "fl \<or> n \<noteq> length bs" tr1]
    by (auto simp: w complete_def)
qed

lemma complete_data: "complete ws \<Longrightarrow> concat (map (\<lambda>(bs, n). take n bs) ws) = concat (map fst ws)"
  by (induction ws) (auto simp: complete_def)

lemma fopen_run:
  assumes "futils_safew_fopen p calloc_ok unlink_ok open_ok d0 = (Some f, d, tr)"
  shows "length p < 128 \<and> f = handle p False \<and> writing (tmp_of p) d0 [] d \<and>
    tr = [unlink unlink_ok (tmp_of p) d0, d]"
proof -
  have l: "length p < 128"
    using assms by (auto simp: futils_safew_fopen_def fit_def SAFEW_PATH_MAX_LEN_def split: if_splits option.splits)
  show ?thesis using assms l unfolding futils_safew_fopen_def names_fit [OF l]
    by (auto simp: Let_def handle_def writing_def create_def unlink_def split: if_splits)
qed

text \<open>Without a checksum: what the commit answers, and every disk it passes.\<close>

lemma flush_again [simp]: "buffered d n = [] \<Longrightarrow> flush True n d = d"
  by (cases d) (simp add: flush_def fun_upd_idem split: option.split)

lemma writingI:
  "files d = (files d0)(t := Some a) \<Longrightarrow> a @ buffered d t = bs \<Longrightarrow> dirty d - {t} = dirty d0 - {t} \<Longrightarrow> writing t d0 bs d"
  by (auto simp: writing_def)

lemma writing_steps:
  assumes "writing t d0 bs d"
  shows "writing t d0 bs (flush ok t d)" "writing t d0 bs (sync ok t d)" "\<exists>bs. writing t d0 bs (close_stream ok t d)"
proof -
  obtain a where a: "files d = (files d0)(t := Some a)" "a @ buffered d t = bs" "dirty d - {t} = dirty d0 - {t}"
    using assms by (auto simp: writing_def)
  have flush: "writing t d0 bs (flush ok t d)" for ok
    using a by (cases ok) (intro writingI [of _ _ _ "a @ buffered d t"] writingI [of _ _ _ a]; simp add: flush_def)+
  then show "writing t d0 bs (flush ok t d)" by blast
  show "writing t d0 bs (sync ok t d)"
    using a by (intro writingI [of _ _ _ a]) (auto simp: sync_def)
  show "\<exists>bs. writing t d0 bs (close_stream ok t d)"
  proof (cases ok)
    case True
    then show ?thesis using flush [of True] by (auto simp: close_stream_def)
  next
    case False
    then have "writing t d0 a (close_stream ok t d)" using a by (intro writingI [of _ _ _ a]) (simp_all add: close_stream_def)
    then show ?thesis by blast
  qed
qed

lemma writing_flushed:
  assumes "writing t d0 bs d"
  defines "x \<equiv> close_stream True t (sync True t (flush True t d))"
  shows "files x = (files d0)(t := Some bs)" "buffered x t = []" "t \<notin> dirty x" "dirty x = dirty d0 - {t}"
proof -
  obtain a where a: "files d = (files d0)(t := Some a)" "a @ buffered d t = bs" "dirty d - {t} = dirty d0 - {t}"
    using assms(1) by (auto simp: writing_def)
  define f where "f = flush True t d"
  have f: "files f = (files d0)(t := Some bs)" "buffered f t = []" "dirty f - {t} = dirty d0 - {t}"
    using a by (simp_all add: f_def flush_def)
  then have x: "x = f\<lparr>dirty := dirty f - {t}\<rparr>"
    by (simp add: x_def close_stream_def sync_def flip: f_def)
  show "files x = (files d0)(t := Some bs)" "buffered x t = []" "t \<notin> dirty x" "dirty x = dirty d0 - {t}"
    using f by (simp_all add: x)
qed

lemma commit_plain:
  fixes fl ok
  assumes "writing (tmp_of p) d0 bs d"
  defines "r \<equiv> \<not> fl \<and> ok Fflush \<and> ok Fsync \<and> ok Fclose \<and> ok Rename_payload"
  shows "\<exists>x d' tr. futils_safew_fclose_commit ok (Some (handle p fl)) d = (r, d', tr) \<and>
    d' = (if r then rename (tmp_of p) p x else unlink (ok Unlink_tmp) (tmp_of p) x) \<and>
    (\<exists>bs. writing (tmp_of p) d0 bs x) \<and> (r \<longrightarrow> x = close_stream True (tmp_of p) (sync True (tmp_of p) (flush True (tmp_of p) d))) \<and>
    (\<forall>y \<in> set tr. y = d' \<or> (\<exists>bs. writing (tmp_of p) d0 bs y))"
proof -
  let ?t = "tmp_of p"
  define a where "a = (if fl then d else flush (ok Fflush) ?t d)"
  define b where "b = (if fl then d else sync (ok Fsync) ?t a)"
  define x where "x = close_stream (ok Fclose) ?t b"
  have wa: "writing ?t d0 bs a" using assms(1) writing_steps(1) by (simp add: a_def)
  have wb: "writing ?t d0 bs b" using assms(1) writing_steps(2) [OF wa] by (simp add: b_def)
  have wx: "\<exists>bs. writing ?t d0 bs x" unfolding x_def by (rule writing_steps(3) [OF wb])
  note w = wa wb wx
  then have "files x ?t \<noteq> None" by (auto simp: writing_def)
  then have "\<exists>d' tr. futils_safew_fclose_commit ok (Some (handle p fl)) d = (r, d', tr) \<and>
      d' = (if r then rename ?t p x else unlink (ok Unlink_tmp) ?t x) \<and> set tr \<subseteq> {a, b, x, d'}"
    by (cases fl; cases "ok Fflush"; cases "ok Fsync"; cases "ok Fclose"; cases "ok Rename_payload")
      (simp_all add: futils_safew_fclose_commit_def safew_fclose_commit_def Let_def handle_def a_def b_def x_def r_def)
  moreover have "r \<longrightarrow> x = close_stream True ?t (sync True ?t (flush True ?t d))"
    by (simp add: r_def x_def b_def a_def)
  ultimately show ?thesis using w by blast
qed


text \<open>With a checksum and without failures: the disks from the synchronisation to the last rename.\<close>

definition crc_stages :: "string \<Rightarrow> bytes \<Rightarrow> disk \<Rightarrow> disk list" where
  "crc_stages p new d =
    (let f = flush True (tmp_of p) d;
         s = sync True (tmp_of p) f;
         a = create (tmp_crc_of p) s;
         b = append_to (tmp_crc_of p) (u32_bytes (crc_from_fhd new)) a;
         b' = flush True (tmp_crc_of p) b;
         c = sync True (tmp_crc_of p) b';
         e = rename (tmp_of p) p c;
         g = rename (tmp_crc_of p) (crc_of p) e
     in [f, s, a, b, b', c, e, g])"

lemma commit_crc:
  assumes "length p < 128" "files d (tmp_of p) = Some old" "old @ buffered d (tmp_of p) = new"
  shows "\<exists>tr. futils_safew_fclose_commit_with_crc (\<lambda>_. True) reads_all part (Some (handle p False)) d =
      (True, crc_stages p new d ! 7, tr) \<and> set tr = set (crc_stages p new d)"
proof -
  let ?t = "tmp_of p"
  define c where "c = tmp_crc_of p"
  have c: "c \<noteq> ?t" "c \<noteq> p" "safew_create_crc_filenames p = Some \<lparr>crc_path = crc_of p, crc_tmp_path = c\<rparr>"
    using names_fit(3) [OF assms(1)] by (simp_all add: c_def)
  define s where "s = sync True ?t (flush True ?t d)"
  define b where "b = flush True c (append_to c (u32_bytes (crc_from_fhd new)) (create c s))"
  have s: "close_stream True ?t s = s" "files s ?t = Some new" "files b ?t = Some new" "buffered b c = []"
    using assms(2,3) c(1) by (auto simp: s_def b_def disk_ops)
  have b: "close_stream True c (sync True c b) = sync True c b" "files (sync True c b) ?t = Some new"
    "\<exists>y. files (rename ?t p (sync True c b)) c = Some y"
    using s(3,4) c(1,2) by (auto simp: close_stream_def sync_def rename_def b_def create_def append_to_def flush_def)
  have st: "crc_stages p new d = [flush True ?t d, s, create c s, append_to c (u32_bytes (crc_from_fhd new)) (create c s), b,
      sync True c b, rename ?t p (sync True c b), rename c (crc_of p) (rename ?t p (sync True c b))]"
    by (simp only: crc_stages_def Let_def s_def b_def c_def)
  show ?thesis
    using s(1,2) b c(3) unfolding st by (auto simp: futils_safew_fclose_commit_with_crc_def safew_fclose_commit_def handle_def
      Let_def safew_tmp_crc_create_def crc_from_file_def simp flip: s_def b_def)
qed

lemma crc_stages_disks:
  assumes d: "files d (tmp_of p) = Some t0" "t0 @ buffered d (tmp_of p) = new" "dirty d \<subseteq> {tmp_of p}"
  obtains f s a b b' c e g where "crc_stages p new d = [f, s, a, b, b', c, e, g]"
    and "files f = (files d)(tmp_of p := Some new)" "dirty f = dirty d"
    and "files s = (files d)(tmp_of p := Some new)" "dirty s = {}"
    and "tmp_crc_of p \<in> dirty a" "tmp_crc_of p \<in> dirty b" "tmp_crc_of p \<in> dirty b'"
    and "files c = (files d)(tmp_of p := Some new, tmp_crc_of p := Some (u32_bytes (crc_from_fhd new)))" "dirty c = {}"
    and "files e = (files d)(tmp_crc_of p := Some (u32_bytes (crc_from_fhd new)), p := Some new, tmp_of p := None)" "dirty e = {}"
    and "files g = (files d)(tmp_crc_of p := None, p := Some new, tmp_of p := None,
      crc_of p := Some (u32_bytes (crc_from_fhd new)))" "dirty g = {}"
proof -
  define tc where "tc = tmp_crc_of p"
  have tc: "tc \<noteq> tmp_of p" "tc \<noteq> p" "tc \<noteq> crc_of p" by (simp_all add: tc_def)
  let ?w = "u32_bytes (crc_from_fhd new)"
  define f where "f = flush True (tmp_of p) d"
  define s where "s = sync True (tmp_of p) f"
  define a where "a = create tc s"
  define b where "b = append_to tc ?w a"
  define b' where "b' = flush True tc b"
  define c where "c = sync True tc b'"
  define e where "e = rename (tmp_of p) p c"
  define g where "g = rename tc (crc_of p) e"
  have st: "crc_stages p new d = [f, s, a, b, b', c, e, g]"
    by (simp only: crc_stages_def Let_def f_def s_def a_def b_def b'_def c_def e_def g_def tc_def)
  have f: "files f = (files d)(tmp_of p := Some new)" "buffered f (tmp_of p) = []" "dirty f = dirty d"
    using d(1,2) by (simp_all add: f_def flush_def)
  have s: "files s = (files d)(tmp_of p := Some new)" "dirty s = {}"
    using f d(3) by (auto simp: s_def sync_def)
  have a: "files a = (files s)(tc := Some [])" "dirty a = {tc}" "buffered a tc = []"
    using s(2) by (simp_all add: a_def create_def)
  have b: "files b = (files s)(tc := Some [])" "dirty b = {tc}" "buffered b tc = ?w"
    using a by (simp_all add: b_def append_to_def)
  have b': "files b' = (files s)(tc := Some ?w)" "dirty b' = {tc}" "buffered b' tc = []"
    using b by (simp_all add: b'_def flush_def)
  have c: "files c = (files d)(tmp_of p := Some new, tc := Some ?w)" "dirty c = {}"
    using b' s by (simp_all add: c_def sync_def)
  have e: "files e = (files d)(tc := Some ?w, p := Some new, tmp_of p := None)" "dirty e = {}"
    using c tc by (simp_all add: e_def rename_def fun_eq_iff)
  have g: "files g = (files d)(tc := None, p := Some new, tmp_of p := None, crc_of p := Some ?w)" "dirty g = {}"
    using e tc by (simp_all add: g_def rename_def fun_eq_iff)
  show thesis
    using that [OF st f(1,3) s] a(2) b(2) b'(2) c e g unfolding tc_def by blast
qed

lemma crc_stages_end:
  assumes "files d (tmp_of p) = Some t0" "t0 @ buffered d (tmp_of p) = new" "dirty d \<subseteq> {tmp_of p}"
  defines "z \<equiv> crc_stages p new d ! 7"
  shows "(files z p, files z (crc_of p)) = (Some new, Some (u32_bytes (crc_from_fhd new)))"
    "files z (tmp_of p) = None" "files z (tmp_crc_of p) = None" "dirty z = {}"
proof -
  obtain f s a b b' c e g where st: "crc_stages p new d = [f, s, a, b, b', c, e, g]"
    and g: "files g = (files d)(tmp_crc_of p := None, p := Some new, tmp_of p := None,
      crc_of p := Some (u32_bytes (crc_from_fhd new)))" "dirty g = {}"
    by (rule crc_stages_disks [OF assms(1-3)])
  have "z = g" by (simp add: z_def st)
  then show "(files z p, files z (crc_of p)) = (Some new, Some (u32_bytes (crc_from_fhd new)))"
    "files z (tmp_of p) = None" "files z (tmp_crc_of p) = None" "dirty z = {}"
    using g by simp_all
qed

text \<open>What the next start finds.\<close>

definition recovered :: "string \<Rightarrow> disk \<Rightarrow> bytes option \<times> bytes option" where
  "recovered p y = (case file_check p y of (_, z, _) \<Rightarrow> (files z p, files z (crc_of p)))"

lemma recovered_survivor:
  assumes "length p < 128"
  shows "recovered p y = (map_option fst (surviving p y), map_option snd (surviving p y))"
  using check_gives(2) [OF assms] by (auto simp: recovered_def after_check_def split: prod.splits)

lemma surviving_whole:
  assumes "\<forall>c. files y (crc_of p) = Some c \<longrightarrow> 4 \<le> length c" "\<forall>c. files y (tmp_crc_of p) = Some c \<longrightarrow> 4 \<le> length c"
  shows "surviving p y = survivor (files y p) (files y (tmp_of p)) (files y (crc_of p)) (files y (tmp_crc_of p))"
  using assms by (auto simp: surviving_def short_first_def split: option.splits)

text \<open>A version on disk: a payload with its checksum, or nothing.\<close>

definition version :: "bytes option \<Rightarrow> bytes option \<times> bytes option" where
  "version v = (v, map_option (\<lambda>b. u32_bytes (crc_from_fhd b)) v)"

lemma check_pair_u32 [simp]: "check_pair a (u32_bytes w) \<longleftrightarrow> w = crc_from_fhd a"
  by (simp add: check_pair_def)

lemma stage_survives:
  assumes p: "length p < 128"
    and d: "files d p = fst (version old)" "files d (crc_of p) = snd (version old)" "files d (tmp_of p) = Some t0"
      "t0 @ buffered d (tmp_of p) = new" "files d (tmp_crc_of p) = None" "dirty d \<subseteq> {tmp_of p}"
    and x: "x \<in> set (d # crc_stages p new d)" "tmp_crc_of p \<notin> dirty x" "crash x y"
  shows "recovered p y = version old \<or> recovered p y = version (Some new)"
proof -
  let ?w = "u32_bytes (crc_from_fhd new)" and ?tc = "tmp_crc_of p"
  obtain f s a b b' c e g where st: "crc_stages p new d = [f, s, a, b, b', c, e, g]"
    and f: "files f = (files d)(tmp_of p := Some new)" "dirty f = dirty d"
    and s: "files s = (files d)(tmp_of p := Some new)" "dirty s = {}"
    and open_crc: "?tc \<in> dirty a" "?tc \<in> dirty b" "?tc \<in> dirty b'"
    and c: "files c = (files d)(tmp_of p := Some new, ?tc := Some ?w)" "dirty c = {}"
    and e: "files e = (files d)(?tc := Some ?w, p := Some new, tmp_of p := None)" "dirty e = {}"
    and g: "files g = (files d)(?tc := None, p := Some new, tmp_of p := None, crc_of p := Some ?w)" "dirty g = {}"
    by (rule crc_stages_disks [OF d(3,4,6)])
  have same: "files y = files x" if "dirty x = {}" using x(3) that by (auto simp: crash_def fun_eq_iff)
  have old_left: "recovered p y = version old" if "\<And>n. n \<noteq> tmp_of p \<Longrightarrow> files y n = files d n"
    using recovered_survivor [OF p, of y] surviving_whole [of y p] that [of p] that [of "crc_of p"] that [of ?tc] d
    by (cases old; cases "files y (tmp_of p)") (simp_all add: version_def)
  have new_left: "recovered p y = version (Some new)"
    if "files y = files c \<or> files y = files e \<or> files y = files g"
    using that d unfolding c(1) e(1) g(1)
    by (cases old; elim disjE; simp add: recovered_survivor [OF p] surviving_whole version_def)
  consider "x = d \<or> x = f" | "x = s" | "x = c" | "x = e" | "x = g" using x(1,2) open_crc unfolding st by auto
  then show ?thesis
  proof cases
    case 1
    then have "files y n = files d n" if "n \<noteq> tmp_of p" for n
      using x(3) d(6) f that by (auto simp: crash_def)
    then show ?thesis using old_left by blast
  next
    case 2
    then show ?thesis using same s old_left by simp
  qed (use same c(2) e(2) g(2) new_left in simp_all)
qed

text \<open>The window in which the new checksum is not on the device yet.\<close>

lemma window_loses:
  assumes p: "length p < 128"
    and d: "files d p = Some old" "files d (crc_of p) = Some (u32_bytes (crc_from_fhd old))" "files d (tmp_of p) = Some t0"
  shows "\<exists>x \<in> set (crc_stages p new d). \<exists>y. crash x y \<and> recovered p y = (None, None)"
proof -
  let ?x = "create (tmp_crc_of p) (sync True (tmp_of p) (flush True (tmp_of p) d))"
  let ?y = "?x\<lparr>dirty := {}, buffered := \<lambda>_. []\<rparr>"
  have "?x \<in> set (crc_stages p new d)" by (simp add: crc_stages_def Let_def)
  moreover have "crash ?x ?y" by (rule crash_self)
  moreover have "surviving p ?y = None"
    using d by (simp add: surviving_def short_first_def disk_ops)
  then have "recovered p ?y = (None, None)" by (simp add: recovered_survivor [OF p])
  ultimately show ?thesis by blast
qed

text \<open>A failed commit removes the checksum of the old version.\<close>

lemma failed_commit_loses:
  assumes p: "length p < 128"
    and d: "files d p = Some old" "files d (tmp_of p) = Some new"
  shows "\<exists>d' tr. futils_safew_fclose_commit_with_crc (\<lambda>c. c \<noteq> Crc_open) reads_all part (Some (handle p False)) d = (False, d', tr) \<and>
    files d' p = Some old \<and> files d' (crc_of p) = None \<and> recovered p d' = (None, None)"
  using d
  by (simp add: futils_safew_fclose_commit_with_crc_def safew_fclose_commit_def handle_def Let_def names_fit [OF p]
      safew_tmp_crc_create_def crc_from_file_def disk_ops recovered_survivor [OF p] surviving_def short_first_def)

text \<open>A crash between the two renames of the recovery.\<close>

lemma recovery_crash_loses:
  assumes p: "length p < 128"
    and d: "files d p = Some old" "files d (crc_of p) = Some (u32_bytes (crc_from_fhd old))" "files d (tmp_of p) = Some new"
      "files d (tmp_crc_of p) = Some (u32_bytes (crc_from_fhd new))" "crc_from_fhd old \<noteq> crc_from_fhd new"
  shows "\<exists>r d' tr. file_check p d = (r, d', tr) \<and> (\<exists>x \<in> set tr. recovered p x = (None, None))"
proof -
  let ?x = "rename (tmp_crc_of p) (crc_of p) d"
  obtain r d' tr where c: "file_check p d = (r, d', tr)" by (cases "file_check p d")
  have "?x \<in> set tr"
    using c d by (auto simp: futils_safew_file_check_def names_fit [OF p] recover_def rename2_def rename1_def Let_def)
  moreover have "recovered p ?x = (None, None)"
    using d by (simp add: recovered_survivor [OF p] surviving_def short_first_def rename_def)
  ultimately show ?thesis using c by blast
qed

text \<open>A payload that cannot be opened is taken for a missing one.\<close>

lemma open_failure_loses:
  assumes p: "length p < 128"
    and see: "\<And>bs. see p bs = None" "\<And>n bs. n \<noteq> p \<Longrightarrow> see n bs = Some bs"
    and d: "files d (tmp_of p) = None" "files d (tmp_crc_of p) = None"
  shows "\<exists>d' tr. futils_safew_file_check ok1 ok2 (\<lambda>_. True) see p d = (False, d', tr) \<and>
    files d' p = None \<and> files d' (crc_of p) = None"
  using see d
  by (cases "files d p"; cases "files d (crc_of p)")
    (simp_all add: futils_safew_file_check_def names_fit [OF p] recover_def look_def Let_def unlink_def)

subsection \<open>Properties\<close>

text \<open>
  Property C5.  A file written with \<open>futils_safew_fopen\<close>, any writes, and
  \<open>futils_safew_fclose_commit\<close>, whatever the system calls answer: the commit succeeds exactly when
  every write was complete and call but the removals succeeded, the name then has the new contents, and
  otherwise the old ones; a temporary file is left only when its removal fails, and no other file is
  touched.  A crash at any moment leaves the old or the complete new contents.
\<close>

theorem safew_commit_atomic:
  assumes "futils_safew_fopen p calloc_ok unlink_ok open_ok d0 = (Some f, d1, tr1)" "fwrites ws f d1 = (f', d2, tr2)"
    and "futils_safew_fclose_commit ok (Some f') d2 = (r, d', tr3)" "p \<notin> dirty d0"
  shows "(r \<longleftrightarrow> complete ws \<and> ok Fflush \<and> ok Fsync \<and> ok Fclose \<and> ok Rename_payload) \<and>
    files d' = (files d0)(tmp_of p := (if r \<or> ok Unlink_tmp then None else files d' (tmp_of p)),
      p := (if r then Some (concat (map fst ws)) else files d0 p)) \<and>
    (\<forall>x \<in> set (d0 # tr1 @ tr2 @ tr3). \<forall>y. crash x y \<longrightarrow>
      files y p = files d0 p \<or> complete ws \<and> files y p = Some (concat (map fst ws)))"
proof -
  have o: "length p < 128" "f = handle p False" "writing (tmp_of p) d0 [] d1" "tr1 = [unlink unlink_ok (tmp_of p) d0, d1]"
    using fopen_run [OF assms(1)] by blast+
  define bs where "bs = concat (map (\<lambda>(bs, n). take n bs) ws)"
  have w: "f' = handle p (\<not> complete ws)" "writing (tmp_of p) d0 bs d2" "\<forall>x \<in> set tr2. \<exists>bs. writing (tmp_of p) d0 bs x"
    using fwrites_run [OF o(3), of ws False f' d2 tr2] assms(2) unfolding o(2) bs_def by auto
  obtain x where r: "r \<longleftrightarrow> complete ws \<and> ok Fflush \<and> ok Fsync \<and> ok Fclose \<and> ok Rename_payload"
    and d': "d' = (if r then rename (tmp_of p) p x else unlink (ok Unlink_tmp) (tmp_of p) x)"
    and x: "\<exists>bs. writing (tmp_of p) d0 bs x"
    and flushed: "r \<Longrightarrow> x = close_stream True (tmp_of p) (sync True (tmp_of p) (flush True (tmp_of p) d2))"
    and tr3: "\<forall>y \<in> set tr3. y = d' \<or> (\<exists>bs. writing (tmp_of p) d0 bs y)"
    using commit_plain [OF w(2), where fl = "\<not> complete ws" and ok = ok] assms(3) unfolding w(1) by auto
  have data: "r \<Longrightarrow> bs = concat (map fst ws)" using r complete_data by (simp add: bs_def)
  note new = writing_flushed [OF w(2)]
  have fin: "files d' = (files d0)(tmp_of p := (if r \<or> ok Unlink_tmp then None else files d' (tmp_of p)),
      p := (if r then Some (concat (map fst ws)) else files d0 p))"
    using x data flushed new(1) unfolding d' by (auto simp: writing_def rename_def unlink_def fun_eq_iff)
  have quiet: "files y p = files d0 p" if "writing (tmp_of p) d0 b x" "crash x y" for b x y
  proof -
    have "p \<notin> dirty x" using that(1) assms(4) by (auto simp: writing_def)
    then show ?thesis using that by (auto simp: crash_def writing_def)
  qed
  have "files y p = files d0 p \<or> complete ws \<and> files y p = Some (concat (map fst ws))"
    if v: "v \<in> set (d0 # tr1 @ tr2 @ tr3)" and y: "crash v y" for v y
  proof -
    consider "v = d0" | "v = unlink unlink_ok (tmp_of p) d0" | "v = d1" | "v \<in> set tr2"
      | "\<exists>bs. writing (tmp_of p) d0 bs v" | "v = d'" using v o(4) tr3 by auto
    then show ?thesis
    proof cases
      case 6
      have "p \<notin> dirty d'"
        using new(3,4) flushed x assms(4) unfolding d' by (auto simp: rename_def unlink_def writing_def)
      then have "files y p = files d' p" using y 6 by (simp add: crash_def)
      then show ?thesis using fun_cong [OF fin, of p] r by (cases r) simp_all
    qed (use y assms(4) o(3) w(3) quiet in \<open>auto simp: crash_def unlink_def\<close>)
  qed
  then show ?thesis using r fin by blast
qed

lemma safew_commit_atomic_witness:
  "\<exists>d1 tr1 f' d2 tr2 d' tr3. futils_safew_fopen ''a'' True True True
      \<lparr>files = \<lambda>_. None, dirty = {}, buffered = \<lambda>_. []\<rparr> = (Some (handle ''a'' False), d1, tr1) \<and>
    fwrites [([1, 2], 2), ([3], 1)] (handle ''a'' False) d1 = (f', d2, tr2) \<and>
    futils_safew_fclose_commit (\<lambda>_. True) (Some f') d2 = (True, d', tr3) \<and> files d' ''a'' = Some [1, 2, 3]"
proof -
  let ?d0 = "\<lparr>files = \<lambda>_. None, dirty = {}, buffered = \<lambda>_. []\<rparr>" and ?ws = "[([1, 2], 2), ([3], 1)]"
  have "\<exists>d1 tr1. futils_safew_fopen ''a'' True True True ?d0 = (Some (handle ''a'' False), d1, tr1)"
    by (simp add: futils_safew_fopen_def fit_def SAFEW_PATH_MAX_LEN_def SAFEW_TMP_SUFFIX_def Let_def handle_def)
  then obtain d1 tr1 where o: "futils_safew_fopen ''a'' True True True ?d0 = (Some (handle ''a'' False), d1, tr1)" by blast
  obtain f' d2 tr2 where w: "fwrites ?ws (handle ''a'' False) d1 = (f', d2, tr2)" by (cases "fwrites ?ws (handle ''a'' False) d1")
  obtain r d' tr3 where c: "futils_safew_fclose_commit (\<lambda>_. True) (Some f') d2 = (r, d', tr3)"
    by (cases "futils_safew_fclose_commit (\<lambda>_. True) (Some f') d2")
  have "''a'' \<notin> dirty ?d0" by simp
  from safew_commit_atomic [OF o w c this]
  have s: "r \<longleftrightarrow> complete ?ws" "files d' = (files ?d0)(tmp_of ''a'' := (if r \<or> True then None else files d' (tmp_of ''a'')),
      ''a'' := (if r then Some (concat (map fst ?ws)) else files ?d0 ''a''))"
    by simp_all
  have "complete ?ws" by (simp add: complete_def)
  then have "r = True" using s(1) by simp
  moreover have "files d' ''a'' = Some [1, 2, 3]" using calculation by (subst s(2)) simp
  ultimately show ?thesis using o w c by blast
qed

text \<open>
  Property C6.  With a checksum and without failures the commit stores the new version, and after a
  crash at any moment the next \<open>futils_safew_file_check\<close> finds the old version or the new one, as
  long as the contents of the new checksum file are on the device or it does not exist.  In between
  the old version can be lost: a crash right after the creation of that file leaves it empty, and
  the check then removes everything.  A commit that fails after the names of the checksum files are
  known removes the checksum of the old version, so that the next check removes the old payload.
\<close>

theorem safew_crc_recovery:
  assumes "length p < 128" "files d p = fst (version old)" "files d (crc_of p) = snd (version old)"
    and "files d (tmp_of p) = Some t0" "t0 @ buffered d (tmp_of p) = new" "files d (tmp_crc_of p) = None" "dirty d \<subseteq> {tmp_of p}"
  shows "\<exists>d' tr. futils_safew_fclose_commit_with_crc (\<lambda>_. True) reads_all part (Some (handle p False)) d = (True, d', tr) \<and>
    (files d' p, files d' (crc_of p)) = version (Some new) \<and>
    (\<forall>x \<in> set (d # tr). \<forall>y. tmp_crc_of p \<notin> dirty x \<and> crash x y \<longrightarrow>
      recovered p y = version old \<or> recovered p y = version (Some new)) \<and>
    (old \<noteq> None \<longrightarrow> (\<exists>x \<in> set tr. \<exists>y. crash x y \<and> recovered p y = (None, None))) \<and>
    (old \<noteq> None \<longrightarrow> (\<exists>d' tr. futils_safew_fclose_commit_with_crc (\<lambda>c. c \<noteq> Crc_open) reads_all part (Some (handle p False)) d = (False, d', tr) \<and>
      files d' p = old \<and> recovered p d' = (None, None)))"
proof -
  obtain tr where c: "futils_safew_fclose_commit_with_crc (\<lambda>_. True) reads_all part (Some (handle p False)) d = (True, crc_stages p new d ! 7, tr)"
    "set tr = set (crc_stages p new d)"
    using commit_crc [OF assms(1,4,5)] by blast
  have "(files (crc_stages p new d ! 7) p, files (crc_stages p new d ! 7) (crc_of p)) = version (Some new)"
    using crc_stages_end(1) [OF assms(4,5,7)] by (simp add: version_def)
  moreover have "\<forall>x \<in> set (d # tr). \<forall>y. tmp_crc_of p \<notin> dirty x \<and> crash x y \<longrightarrow>
      recovered p y = version old \<or> recovered p y = version (Some new)"
    using stage_survives [OF assms] c(2) by auto
  moreover have "old \<noteq> None \<longrightarrow> (\<exists>x \<in> set tr. \<exists>y. crash x y \<and> recovered p y = (None, None))"
    using window_loses [OF assms(1) _ _ assms(4)] assms(2,3) c(2) by (cases old) (auto simp: version_def)
  moreover have "old \<noteq> None \<longrightarrow> (\<exists>d' tr. futils_safew_fclose_commit_with_crc (\<lambda>c. c \<noteq> Crc_open) reads_all part (Some (handle p False)) d = (False, d', tr) \<and>
      files d' p = old \<and> recovered p d' = (None, None))"
  proof
    assume "old \<noteq> None"
    then obtain a where a: "old = Some a" "files d p = Some a" using assms(2) by (auto simp: version_def)
    show "\<exists>d' tr. futils_safew_fclose_commit_with_crc (\<lambda>c. c \<noteq> Crc_open) reads_all part (Some (handle p False)) d = (False, d', tr) \<and>
        files d' p = old \<and> recovered p d' = (None, None)"
      using failed_commit_loses [OF assms(1) a(2) assms(4), of part] unfolding a(1) by blast
  qed
  ultimately show ?thesis using c(1) by blast
qed

definition sample_disk :: disk where
  "sample_disk = \<lparr>files = [''a'' \<mapsto> [1], ''a.crc'' \<mapsto> u32_bytes (crc_from_fhd [1]), ''a.tmp'' \<mapsto> []], dirty = {''a.tmp''},
     buffered = (\<lambda>_. [])(''a.tmp'' := [2])\<rparr>"

lemma safew_crc_recovery_witness:
  "\<exists>d' tr. futils_safew_fclose_commit_with_crc (\<lambda>_. True) reads_all [] (Some (handle ''a'' False)) sample_disk = (True, d', tr) \<and>
    (\<exists>x \<in> set tr. \<exists>y. crash x y \<and> recovered ''a'' y = (None, None))"
proof -
  have "length ''a'' < 128" "files sample_disk ''a'' = fst (version (Some [1]))"
    "files sample_disk (crc_of ''a'') = snd (version (Some [1]))" "files sample_disk (tmp_of ''a'') = Some []"
    "[] @ buffered sample_disk (tmp_of ''a'') = [2]"
    "files sample_disk (tmp_crc_of ''a'') = None" "dirty sample_disk \<subseteq> {tmp_of ''a''}"
    by (simp_all add: sample_disk_def version_def)
  from safew_crc_recovery [OF this, of "[]"] show ?thesis by blast
qed

text \<open>
  Property C21.  \<open>futils_safew_file_check\<close> when every system call succeeds: for every state of the four files
  it answers 0 exactly when the table of the header file finds a survivor, and keeps exactly it, with one
  exception that the table does not have: with all four files a temporary checksum of less than four bytes,
  and without a temporary payload a checksum of less than four bytes, ends the check with an error, and
  everything is removed, a matching pair included.  Whatever the renames answer, as long as files can be
  opened and read, success means that a payload with a matching checksum is there; whatever any call
  answers, the removals that succeed leave no temporary file, and no payload or checksum after a failure, and no
  other file is touched.  A payload that cannot be opened counts as missing: without temporary files
  the check then fails and removes it.  The checksum notices every change of a single byte.  A crash between the two
  renames of a recovery loses both versions.
\<close>

theorem safew_check_correct:
  fixes d :: disk
  assumes "length p < 128"
  defines "table \<equiv> survivor (files d p) (files d (tmp_of p)) (files d (crc_of p)) (files d (tmp_crc_of p))"
  shows "(\<exists>d' tr. file_check p d = (\<not> short_first p d \<and> table \<noteq> None, d', tr) \<and>
      files d' = after_check (if short_first p d then None else table) p d) \<and>
    (futils_safew_file_check ok1 ok2 ok reads_all p d = (r, d', tr) \<and> r \<longrightarrow> pair_at d' p) \<and>
    (futils_safew_file_check ok1 ok2 ok see p d = (r, d', tr) \<longrightarrow>
      (ok Unlink_tmp \<longrightarrow> files d' (tmp_of p) = None) \<and> (ok Unlink_tmp_crc \<longrightarrow> files d' (tmp_crc_of p) = None) \<and>
      (\<not> r \<longrightarrow> (ok Unlink_payload \<longrightarrow> files d' p = None) \<and> (ok Unlink_crc \<longrightarrow> files d' (crc_of p) = None)) \<and>
      (\<forall>n. n \<notin> {p, tmp_of p, crc_of p, tmp_crc_of p} \<longrightarrow> files d' n = files d n)) \<and>
    (files d (tmp_of p) = None \<and> files d (tmp_crc_of p) = None \<longrightarrow>
      (\<exists>d' tr. futils_safew_file_check ok1 ok2 (\<lambda>_. True) (reads_all(p := \<lambda>_. None)) p d = (False, d', tr) \<and>
        files d' p = None \<and> files d' (crc_of p) = None)) \<and>
    (b \<noteq> b' \<and> check_pair (xs @ b # ys) c \<longrightarrow> \<not> check_pair (xs @ b' # ys) c) \<and>
    (files d p = Some old \<and> files d (crc_of p) = Some (u32_bytes (crc_from_fhd old)) \<and> files d (tmp_of p) = Some new \<and>
      files d (tmp_crc_of p) = Some (u32_bytes (crc_from_fhd new)) \<and> crc_from_fhd old \<noteq> crc_from_fhd new \<longrightarrow>
      (\<exists>r d' tr. file_check p d = (r, d', tr) \<and> (\<exists>x \<in> set tr. recovered p x = (None, None))))"
    (is "?table \<and> ?pair \<and> ?always \<and> ?unopened \<and> ?byte \<and> ?crash")
proof -
  obtain r'' d'' tr' where c: "file_check p d = (r'', d'', tr')" by (cases "file_check p d")
  note run = check_gives [OF assms(1) c]
  have table: ?table
    using c run by (cases "short_first p d") (simp_all add: surviving_def table_def)
  have pair: ?pair using check_always(3) [OF assms(1)] by blast
  have always: ?always
    using check_always(1,2,4,5,6) [OF assms(1), of ok1 ok2 ok see d r d' tr] by blast
  have unopened: ?unopened
    using open_failure_loses [OF assms(1), of "reads_all(p := \<lambda>_. None)" d ok1 ok2] by auto
  have byte: ?byte using crc_single_byte by (auto simp: check_pair_def split: option.splits)
  have crash: ?crash using recovery_crash_loses [OF assms(1), of d old new] by blast
  show ?thesis by (intro conjI table pair always unopened byte crash)
qed

lemma safew_check_correct_witness:
  "\<exists>d' tr. file_check ''a'' sample_disk = (True, d', tr) \<and> files d' ''a'' = Some [1]"
proof -
  have p: "length ''a'' < 128" by simp
  have files: "files sample_disk ''a'' = Some [1]" "files sample_disk (crc_of ''a'') = Some (u32_bytes (crc_from_fhd [1]))"
    "files sample_disk (tmp_of ''a'') = Some []" "files sample_disk (tmp_crc_of ''a'') = None"
    by (simp_all add: sample_disk_def)
  have "\<not> short_first ''a'' sample_disk" by (simp add: short_first_def sample_disk_def)
  then obtain d' tr where "file_check ''a'' sample_disk =
      (survivor (Some [1]) (Some []) (Some (u32_bytes (crc_from_fhd [1]))) None \<noteq> None, d', tr)"
    "files d' = after_check (survivor (Some [1]) (Some []) (Some (u32_bytes (crc_from_fhd [1]))) None) ''a'' sample_disk"
    using safew_check_correct [OF p, of sample_disk, THEN conjunct1] unfolding files by auto
  moreover have "survivor (Some [1]) (Some []) (Some (u32_bytes (crc_from_fhd [1]))) None = Some ([1], u32_bytes (crc_from_fhd [1]))"
    by simp
  ultimately have "file_check ''a'' sample_disk = (True, d', tr)" "files d' ''a'' = Some [1]"
    by (simp_all add: after_check_def)
  then show ?thesis by blast
qed

end
