(* ===== verification/SafewLife.thy ===== *)
theory SafewLife
  imports Safew
begin

text \<open>
  A file protected by a checksum over its whole life (src/src/safew.c): any sequence of commits, abandoned
  or failing writes, crashes and checks, composed from the operations of \<open>Safew\<close>.  The code synchronises files but
  never the directory, so a crash may also bring back the directory of an earlier moment; the
  creations, removals and renames reach the device in order.
\<close>

section \<open>Between the operations\<close>

text \<open>\<open>at_rest p d v\<close>: the disk holds version \<open>v\<close> of the file with its checksum, and nothing temporary.\<close>

definition at_rest :: "string \<Rightarrow> disk \<Rightarrow> bytes option \<Rightarrow> bool" where
  "at_rest p d v \<longleftrightarrow> (files d p, files d (crc_of p)) = version v \<and> files d (tmp_of p) = None \<and>
    files d (tmp_crc_of p) = None \<and> dirty d = {}"

text \<open>\<open>calm p d x\<close>: at \<open>x\<close> payload and checksum are those of \<open>d\<close>, on the device, and there is no temporary checksum.\<close>

definition calm :: "string \<Rightarrow> disk \<Rightarrow> disk \<Rightarrow> bool" where
  "calm p d x \<longleftrightarrow> (\<forall>n \<in> {p, crc_of p, tmp_crc_of p}. files x n = files d n \<and> n \<notin> dirty x)"

lemma check_clean:
  assumes "length p < 128" "dirty d = {}" "file_check p d = (r, d', tr)"
  shows "dirty d' = {}"
proof -
  let ?R = "recover True True reads_all p (tmp_of p) \<lparr>crc_path = crc_of p, crc_tmp_path = tmp_crc_of p\<rparr> d"
  have ren: "dirty (fst (snd (rename1 ok a b d))) = {}" "dirty (fst (snd (rename2 ok ok' ab ab' d))) = {}" for ok ok' a b ab ab'
    using assms(2) by (cases ab; cases ab'; simp add: rename_outcomes rename_def)+
  have "dirty (fst (snd ?R)) = {}"
    using assms(2) ren
    by (cases "files d p"; cases "files d (tmp_of p)"; cases "files d (crc_of p)"; cases "files d (tmp_crc_of p)";
        simp add: recover_def Let_def split: option.split)
  then show ?thesis
    using assms(3) by (auto simp: futils_safew_file_check_def names_fit [OF assms(1)] Let_def unlink_def split: prod.splits if_splits)
qed

text \<open>A check brings the disk to rest.\<close>

lemma check_rests:
  assumes "length p < 128" "dirty d = {}" "recovered p d = version v" "file_check p d = (r, d', tr)"
  shows "at_rest p d' v"
  using check_always(1,2) [OF assms(1,4)] check_clean [OF assms(1,2,4)] assms(3,4) by (simp add: at_rest_def recovered_def)

text \<open>Whatever lies in the temporary payload, alone it changes nothing.\<close>

lemma tmp_ignored:
  assumes "length p < 128" "(files y p, files y (crc_of p)) = version v" "files y (tmp_crc_of p) = None"
  shows "recovered p y = version v"
  using recovered_survivor [OF assms(1), of y] assms(2,3)
  by (cases v; cases "files y (tmp_of p)") (simp_all add: version_def surviving_def short_first_def)

lemma crash_calm:
  assumes "length p < 128" "at_rest p d v" "calm p d x" "crash x y"
  shows "recovered p y = version v"
proof -
  have "files y n = files d n" if "n \<in> {p, crc_of p, tmp_crc_of p}" for n
    using assms(3,4) that by (auto simp: crash_def calm_def)
  then show ?thesis using assms(2) by (intro tmp_ignored [OF assms(1)]) (simp_all add: at_rest_def)
qed

lemma check_at_rest:
  assumes "length p < 128" "at_rest p d v" "file_check p d = (r, d', tr)"
  shows "at_rest p d' v" "r \<longleftrightarrow> v \<noteq> None" "\<forall>x \<in> set tr. calm p d x"
proof -
  have v: "(files d p, files d (crc_of p)) = version v" "files d (tmp_of p) = None" "files d (tmp_crc_of p) = None" "dirty d = {}"
    using assms(2) by (simp_all add: at_rest_def)
  show "at_rest p d' v" by (rule check_rests [OF assms(1) v(4) tmp_ignored [OF assms(1) v(1,3)] assms(3)])
  show "r \<longleftrightarrow> v \<noteq> None"
    using check_gives(1) [OF assms(1,3)] v by (cases v) (simp_all add: version_def surviving_def short_first_def)
  show "\<forall>x \<in> set tr. calm p d x"
    using assms(3) v
    by (cases v) (auto simp: futils_safew_file_check_def names_fit [OF assms(1)] recover_def Let_def unlink_def version_def calm_def)
qed

section \<open>Writing\<close>

lemma writing_calm: "at_rest p d v \<Longrightarrow> writing (tmp_of p) d bs x \<Longrightarrow> calm p d x"
  by (auto simp: at_rest_def calm_def writing_def)

lemma unlink_calm: "at_rest p d v \<Longrightarrow> calm p d (unlink ok (tmp_of p) d)"
  by (simp add: at_rest_def calm_def unlink_def)

lemma open_fails:
  assumes "at_rest p d v" "futils_safew_fopen p c1 c2 c3 d = (None, d', tr)"
  shows "at_rest p d' v" "\<forall>x \<in> set tr. calm p d x"
proof -
  have "tr = [] \<and> d' = d \<or> tr = [d'] \<and> d' = unlink c2 (tmp_of p) d"
    using assms(2)
    by (simp add: futils_safew_fopen_def Let_def fit_def SAFEW_TMP_SUFFIX_def split: if_splits) (auto)
  moreover have "at_rest p (unlink c2 (tmp_of p) d) v" using assms(1) by (simp add: at_rest_def unlink_def)
  ultimately show "at_rest p d' v" "\<forall>x \<in> set tr. calm p d x"
    using assms(1) unlink_calm [OF assms(1), of c2] by (elim disjE conjE; simp)+
qed

lemma write_run:
  assumes "at_rest p d v" "futils_safew_fopen p c1 c2 c3 d = (Some f, d1, tr1)" "fwrites ws f d1 = (f', d2, tr2)"
  shows "length p < 128" "f' = handle p (\<not> complete ws)"
    "writing (tmp_of p) d (concat (map (\<lambda>(bs, n). take n bs) ws)) d2"
    "\<forall>x \<in> set (tr1 @ tr2). calm p d x"
proof -
  have o: "length p < 128" "f = handle p False" "writing (tmp_of p) d [] d1" "tr1 = [unlink c2 (tmp_of p) d, d1]"
    using fopen_run [OF assms(2)] by blast+
  note w = fwrites_run [OF o(3), of ws False f' d2 tr2]
  show "length p < 128" "f' = handle p (\<not> complete ws)" "writing (tmp_of p) d (concat (map (\<lambda>(bs, n). take n bs) ws)) d2"
    using o(1) w assms(3) unfolding o(2) by simp_all
  have "\<forall>x \<in> set tr2. calm p d x" using w assms(3) writing_calm [OF assms(1)] unfolding o(2) by blast
  then show "\<forall>x \<in> set (tr1 @ tr2). calm p d x"
    using unlink_calm [OF assms(1)] writing_calm [OF assms(1) o(3)] unfolding o(4) by simp
qed

lemma commit_rests:
  assumes "at_rest p d v" "length p < 128" "writing (tmp_of p) d new d2"
    and "futils_safew_fclose_commit_with_crc (\<lambda>_. True) reads_all part (Some (handle p False)) d2 = (r, d', tr)"
  shows "r" "at_rest p d' (Some new)"
    "x \<in> set tr \<Longrightarrow> tmp_crc_of p \<notin> dirty x \<Longrightarrow> crash x y \<Longrightarrow> recovered p y = version v \<or> recovered p y = version (Some new)"
proof -
  obtain t0 where t0: "files d2 (tmp_of p) = Some t0" "t0 @ buffered d2 (tmp_of p) = new"
    using assms(3) by (auto simp: writing_def)
  have d2: "files d2 p = fst (version v)" "files d2 (crc_of p) = snd (version v)"
    "files d2 (tmp_crc_of p) = None" "dirty d2 \<subseteq> {tmp_of p}"
    using assms(1,3) by (auto simp: at_rest_def writing_def version_def)
  have c: "r" "d' = crc_stages p new d2 ! 7" "set tr = set (crc_stages p new d2)"
    using commit_crc [OF assms(2) t0, of part] assms(4) by auto
  then show "r" by simp
  show "at_rest p d' (Some new)"
    using crc_stages_end [OF t0 d2(4)] unfolding c(2) by (simp add: at_rest_def version_def)
  show "x \<in> set tr \<Longrightarrow> tmp_crc_of p \<notin> dirty x \<Longrightarrow> crash x y \<Longrightarrow> recovered p y = version v \<or> recovered p y = version (Some new)"
    by (rule stage_survives [OF assms(2) d2(1,2) t0 d2(3,4)]) (use c(3) in simp_all)
qed

text \<open>A commit that fails before the checksum is started leaves the version of before.\<close>

lemma early_failure_rests:
  assumes d: "at_rest p d v" and p: "p \<noteq> ''''" and w: "writing (tmp_of p) d bs d2"
    and bad: "fl \<or> \<not> ok Fflush \<or> \<not> ok Fsync \<or> \<not> ok Fclose" and un: "ok Unlink_tmp"
    and c: "futils_safew_fclose_commit_with_crc ok see part (Some (handle p fl)) d2 = (r, d', tr)"
  shows "\<not> r" "at_rest p d' v" "\<forall>x \<in> set tr. calm p d x"
proof -
  let ?t = "tmp_of p"
  define a where "a = (if fl then d2 else flush (ok Fflush) ?t d2)"
  define b where "b = (if fl then d2 else sync (ok Fsync) ?t a)"
  define x where "x = close_stream (ok Fclose) ?t b"
  define u where "u = unlink True ?t x"
  define u1 where "u1 = unlink (ok Unlink_crc) '''' u"
  have wa: "writing ?t d bs a" using w writing_steps(1) by (simp add: a_def)
  have wb: "writing ?t d bs b" using w writing_steps(2) [OF wa] by (simp add: b_def)
  obtain bs' where wx: "writing ?t d bs' x" using writing_steps(3) [OF wb] unfolding x_def by blast
  have ret: "\<not> r" and d': "d' = unlink (ok Unlink_tmp_crc) '''' u1" and tr: "set tr \<subseteq> {a, b, x, u, u1, d'}"
    using c bad un
    by (cases fl; cases "ok Fflush"; cases "ok Fsync"; cases "ok Fclose";
        auto simp: futils_safew_fclose_commit_with_crc_def safew_fclose_commit_def Let_def handle_def a_def b_def x_def u_def u1_def)+
  show "\<not> r" by (rule ret)
  have u: "at_rest p u v" "calm p d u"
    using wx d by (auto simp: u_def unlink_def writing_def at_rest_def calm_def)
  have skip: "at_rest p (unlink k '''' z) v \<and> calm p d (unlink k '''' z)" if "at_rest p z v" "calm p d z" for k z
    using that p by (simp add: at_rest_def calm_def unlink_def)
  have u1: "at_rest p u1 v" "calm p d u1" using skip u unfolding u1_def by blast+
  then show "at_rest p d' v" using skip unfolding d' by blast
  have "calm p d d'" using skip u1 unfolding d' by blast
  then show "\<forall>x \<in> set tr. calm p d x"
    using tr u(2) u1(2) writing_calm [OF d wa] writing_calm [OF d wb] writing_calm [OF d wx] by blast
qed

lemma rollback_rests:
  assumes "at_rest p d v" "writing (tmp_of p) d bs d2" "futils_safew_fclose_rollback (Some (handle p fl)) c True d2 = (r, d', tr)"
  shows "at_rest p d' v" "\<forall>x \<in> set tr. calm p d x"
proof -
  define x where "x = close_stream c (tmp_of p) d2"
  obtain bs' where wx: "writing (tmp_of p) d bs' x" using writing_steps(3) [OF assms(2)] unfolding x_def by blast
  have tr: "tr = [x, d']" "d' = unlink True (tmp_of p) x"
    using assms(3) by (auto simp: futils_safew_fclose_rollback_def handle_def x_def Let_def)
  have "at_rest p d' v \<and> calm p d d'"
    using wx assms(1) by (auto simp: tr unlink_def writing_def at_rest_def calm_def)
  then show "at_rest p d' v" "\<forall>x \<in> set tr. calm p d x"
    using writing_calm [OF assms(1) wx] tr(1) by auto
qed

section \<open>The life of the file\<close>

text \<open>
  \<open>life p ds tried settled acked\<close>: the last of \<open>ds\<close> is a disk the application can be left with, and \<open>ds\<close> are the
  disks passed since the directory was last known to be on the device, to one of which a crash may fall
  back; \<open>tried\<close> are the contents whose commit was started, in order, the first \<open>acked\<close> of them contain the
  last one whose commit answered success, and the first \<open>settled\<close> the last one that had answered success
  when the directory reached the device.  A crash during an operation is one that falls back to a disk
  passed during it; after a crash the application checks the file first.

  Left out are the cases in which a version is known to be lost (\<open>safew_crc_recovery\<close>, \<open>safew_check_correct\<close>):
  a crash while the new checksum file is not on the device, a crash inside the check that follows a crash,
  a commit that fails after the checksum was started, a failing system call in a check, and a failing
  removal of the temporary payload.
\<close>

inductive life :: "string \<Rightarrow> disk list \<Rightarrow> bytes list \<Rightarrow> nat \<Rightarrow> nat \<Rightarrow> bool" for p where
  fresh: "length p < 128 \<Longrightarrow> p \<noteq> '''' \<Longrightarrow> files d p = None \<Longrightarrow> files d (tmp_of p) = None \<Longrightarrow> files d (crc_of p) = None \<Longrightarrow>
    files d (tmp_crc_of p) = None \<Longrightarrow> dirty d = {} \<Longrightarrow> life p [d] [] 0 0"
| settle: "life p ds tried settled acked \<Longrightarrow> life p [last ds] tried acked acked"
| check: "life p ds tried settled acked \<Longrightarrow> file_check p (last ds) = (r, d', tr) \<Longrightarrow> life p (ds @ tr @ [d']) tried settled acked"
| refused: "life p ds tried settled acked \<Longrightarrow> futils_safew_fopen p c1 c2 c3 (last ds) = (None, d', tr) \<Longrightarrow>
    life p (ds @ tr @ [d']) tried settled acked"
| abandon: "life p ds tried settled acked \<Longrightarrow> futils_safew_fopen p c1 c2 c3 (last ds) = (Some f, d1, tr1) \<Longrightarrow>
    fwrites ws f d1 = (f', d2, tr2) \<Longrightarrow> futils_safew_fclose_rollback (Some f') c4 True d2 = (r, d', tr3) \<Longrightarrow>
    life p (ds @ tr1 @ tr2 @ tr3 @ [d']) tried settled acked"
| early_failure: "life p ds tried settled acked \<Longrightarrow> futils_safew_fopen p c1 c2 c3 (last ds) = (Some f, d1, tr1) \<Longrightarrow>
    fwrites ws f d1 = (f', d2, tr2) \<Longrightarrow> \<not> (complete ws \<and> ok Fflush \<and> ok Fsync \<and> ok Fclose) \<Longrightarrow> ok Unlink_tmp \<Longrightarrow>
    futils_safew_fclose_commit_with_crc ok see part (Some f') d2 = (r, d', tr3) \<Longrightarrow>
    life p (ds @ tr1 @ tr2 @ tr3 @ [d']) tried settled acked"
| commit: "life p ds tried settled acked \<Longrightarrow> futils_safew_fopen p c1 c2 c3 (last ds) = (Some f, d1, tr1) \<Longrightarrow>
    fwrites ws f d1 = (f', d2, tr2) \<Longrightarrow> complete ws \<Longrightarrow>
    futils_safew_fclose_commit_with_crc (\<lambda>_. True) reads_all part (Some f') d2 = (r, d', tr3) \<Longrightarrow>
    life p (ds @ tr1 @ tr2 @ filter (\<lambda>x. tmp_crc_of p \<notin> dirty x) tr3 @ [d']) (tried @ [concat (map fst ws)])
      settled (if r then length tried + 1 else acked)"
| crash: "life p ds tried settled acked \<Longrightarrow> x \<in> set ds \<Longrightarrow> crash x y \<Longrightarrow> file_check p y = (r, d', tr) \<Longrightarrow>
    life p [y, d'] tried settled settled"

text \<open>Version \<open>k\<close> of the file: nothing at first, then the contents tried.\<close>

definition nth_version :: "bytes list \<Rightarrow> nat \<Rightarrow> bytes option" where
  "nth_version tried k = (if k = 0 then None else Some (tried ! (k - 1)))"

lemma nth_version_append:
  "k \<le> length tried \<Longrightarrow> nth_version (tried @ [b]) k = nth_version tried k"
  "nth_version (tried @ [b]) (length tried + 1) = Some b"
  by (auto simp: nth_version_def nth_append)

text \<open>A crash at \<open>x\<close> leaves a version from the \<open>low\<close>-th on.\<close>

definition keeps :: "string \<Rightarrow> bytes list \<Rightarrow> nat \<Rightarrow> disk \<Rightarrow> bool" where
  "keeps p tried low x \<longleftrightarrow> (\<forall>y. crash x y \<longrightarrow> (\<exists>k. low \<le> k \<and> k \<le> length tried \<and> recovered p y = version (nth_version tried k)))"

definition alive :: "string \<Rightarrow> disk list \<Rightarrow> bytes list \<Rightarrow> nat \<Rightarrow> nat \<Rightarrow> bool" where
  "alive p ds tried settled acked \<longleftrightarrow> length p < 128 \<and> p \<noteq> '''' \<and> ds \<noteq> [] \<and> settled \<le> acked \<and>
     (\<exists>k. acked \<le> k \<and> k \<le> length tried \<and> at_rest p (last ds) (nth_version tried k)) \<and> (\<forall>x \<in> set ds. keeps p tried settled x)"

lemma aliveI:
  assumes "alive p ds tried settled acked" "acked \<le> k" "k \<le> length tried" "at_rest p (last ds) (nth_version tried k)"
    and "at_rest p d' (nth_version tried k)" "\<forall>x \<in> set tr. calm p (last ds) x"
  shows "alive p (ds @ tr @ [d']) tried settled acked"
proof -
  have a: "length p < 128" "p \<noteq> ''''" "settled \<le> acked" "\<forall>x \<in> set ds. keeps p tried settled x"
    using assms(1) by (simp_all add: alive_def)
  have "recovered p y = version (nth_version tried k)" if "x \<in> set tr" "crash x y" for x y
    using crash_calm [OF a(1) assms(4)] assms(6) that by blast
  moreover have "calm p d' d'" using assms(5) by (simp add: calm_def at_rest_def)
  then have "recovered p y = version (nth_version tried k)" if "crash d' y" for y
    by (rule crash_calm [OF a(1) assms(5) _ that])
  ultimately have "keeps p tried settled x" if "x \<in> set (tr @ [d'])" for x
    using that assms(2,3) a(3) unfolding keeps_def by (metis Un_iff empty_iff insert_iff le_trans list.set set_append)
  then show ?thesis using a assms(2,3,5) by (auto simp: alive_def)
qed

lemma crash_clean: "crash x y \<Longrightarrow> dirty y = {}"
  by (simp add: crash_def)

lemma keeps_at_rest:
  assumes "length p < 128" "at_rest p d (nth_version tried k)" "low \<le> k" "k \<le> length tried"
  shows "keeps p tried low d"
proof -
  have "calm p d d" using assms(2) by (simp add: calm_def at_rest_def)
  then show ?thesis using crash_calm [OF assms(1,2)] assms(3,4) unfolding keeps_def by blast
qed

lemma keeps_more: "keeps p tried low x \<Longrightarrow> keeps p (tried @ [b]) low x"
  unfolding keeps_def by (metis le_SucI length_append_singleton nth_version_append(1))

lemma alive_commit:
  assumes a: "alive p ds tried settled acked" and k: "acked \<le> k" "k \<le> length tried" "at_rest p (last ds) (nth_version tried k)"
    and o: "futils_safew_fopen p c1 c2 c3 (last ds) = (Some f, d1, tr1)" "fwrites ws f d1 = (f', d2, tr2)" "complete ws"
    and c: "futils_safew_fclose_commit_with_crc (\<lambda>_. True) reads_all part (Some f') d2 = (r, d', tr3)"
  shows "alive p (ds @ tr1 @ tr2 @ filter (\<lambda>x. tmp_crc_of p \<notin> dirty x) tr3 @ [d']) (tried @ [concat (map fst ws)])
      settled (if r then length tried + 1 else acked)"
proof -
  let ?new = "concat (map fst ws)" and ?low = "settled"
  have l: "length p < 128" "p \<noteq> ''''" "settled \<le> acked" "\<forall>x \<in> set ds. keeps p tried settled x"
    using a by (simp_all add: alive_def)
  note w = write_run [OF k(3) o(1,2)]
  have f: "f' = handle p False" and new: "writing (tmp_of p) (last ds) ?new d2"
    using w(2,3) o(3) by (simp_all add: complete_data)
  note cr = commit_rests [OF k(3) l(1) new c [unfolded f]]
  have "at_rest p d' (nth_version (tried @ [?new]) (length tried + 1))" using cr(2) by (simp only: nth_version_append)
  moreover have "keeps p (tried @ [?new]) settled d'"
    by (rule keeps_at_rest [OF l(1) calculation]) (use l(3) k in simp_all)
  moreover have "keeps p (tried @ [?new]) settled x" if "x \<in> set (tr1 @ tr2)" for x
  proof -
    have "recovered p y = version (nth_version tried k)" if "crash x y" for y
      using crash_calm [OF l(1) k(3)] w(4) that \<open>x \<in> set (tr1 @ tr2)\<close> by blast
    then have "keeps p tried settled x" unfolding keeps_def using l(3) k(1,2) le_trans by blast
    then show ?thesis by (rule keeps_more)
  qed
  moreover have "keeps p (tried @ [?new]) settled x" if x: "x \<in> set tr3" "tmp_crc_of p \<notin> dirty x" for x
    unfolding keeps_def
  proof (intro allI impI)
    fix y assume y: "crash x y"
    consider "recovered p y = version (nth_version (tried @ [?new]) k)"
      | "recovered p y = version (nth_version (tried @ [?new]) (length tried + 1))"
      using cr(3) [OF x y] k(2) by (auto simp: nth_version_append simp del: One_nat_def)
    then show "\<exists>j. settled \<le> j \<and> j \<le> length (tried @ [?new]) \<and> recovered p y = version (nth_version (tried @ [?new]) j)"
    proof cases
      case 1
      then show ?thesis using l(3) k(1,2) by (intro exI [of _ k]) simp
    next
      case 2
      then show ?thesis using l(3) k(1,2) by (intro exI [of _ "length tried + 1"]) simp
    qed
  qed
  moreover have "\<forall>x \<in> set ds. keeps p (tried @ [?new]) settled x" using l(4) keeps_more by blast
  ultimately show ?thesis using l cr(1) k(1,2) unfolding alive_def by (auto intro!: exI [of _ "length tried + 1"])
qed

lemma life_alive: "life p ds tried settled acked \<Longrightarrow> alive p ds tried settled acked"
proof (induction rule: life.induct)
  case (fresh d)
  then have "at_rest p d (nth_version [] 0)" by (simp add: at_rest_def version_def nth_version_def)
  then show ?case using fresh(1,2) keeps_at_rest [of p d "[]" 0 0] by (auto simp: alive_def)
next
  case (settle ds tried settled acked)
  then show ?case using keeps_at_rest [of p "last ds" tried _ acked] by (auto simp: alive_def)
next
  case (check ds tried settled acked r d' tr)
  then obtain k where k: "acked \<le> k" "k \<le> length tried" "at_rest p (last ds) (nth_version tried k)" "length p < 128"
    by (auto simp: alive_def)
  show ?case by (rule aliveI [OF check.IH k(1-3) check_at_rest(1,3) [OF k(4,3) check.hyps(2)]])
next
  case (refused ds tried settled acked c1 c2 c3 d' tr)
  then obtain k where k: "acked \<le> k" "k \<le> length tried" "at_rest p (last ds) (nth_version tried k)" by (auto simp: alive_def)
  show ?case by (rule aliveI [OF refused.IH k open_fails [OF k(3) refused.hyps(2)]])
next
  case (abandon ds tried settled acked c1 c2 c3 f d1 tr1 ws f' d2 tr2 c4 r d' tr3)
  then obtain k where k: "acked \<le> k" "k \<le> length tried" "at_rest p (last ds) (nth_version tried k)" by (auto simp: alive_def)
  note w = write_run [OF k(3) abandon.hyps(2,3)]
  note r = rollback_rests [OF k(3) w(3) abandon.hyps(4) [unfolded w(2)]]
  have "\<forall>x \<in> set (tr1 @ tr2 @ tr3). calm p (last ds) x" using w(4) r(2) by auto
  from aliveI [OF abandon.IH k r(1) this] show ?case by simp
next
  case (early_failure ds tried settled acked c1 c2 c3 f d1 tr1 ws f' d2 tr2 ok see part r d' tr3)
  then obtain k where k: "acked \<le> k" "k \<le> length tried" "at_rest p (last ds) (nth_version tried k)" "p \<noteq> ''''"
    by (auto simp: alive_def)
  note w = write_run [OF k(3) early_failure.hyps(2,3)]
  have bad: "\<not> complete ws \<or> \<not> ok Fflush \<or> \<not> ok Fsync \<or> \<not> ok Fclose" using early_failure.hyps(4) by blast
  note r = early_failure_rests [OF k(3,4) w(3) bad early_failure.hyps(5,6) [unfolded w(2)]]
  have "\<forall>x \<in> set (tr1 @ tr2 @ tr3). calm p (last ds) x" using w(4) r(3) by auto
  from aliveI [OF early_failure.IH k(1-3) r(2) this] show ?case by simp
next
  case (commit ds tried settled acked c1 c2 c3 f d1 tr1 ws f' d2 tr2 part r d' tr3)
  then obtain k where k: "acked \<le> k" "k \<le> length tried" "at_rest p (last ds) (nth_version tried k)" by (auto simp: alive_def)
  show ?case by (rule alive_commit [OF commit.IH k commit.hyps(2-5)])
next
  case (crash ds tried settled acked x y r d' tr)
  then obtain k where k: "settled \<le> k" "k \<le> length tried" "recovered p y = version (nth_version tried k)"
    and a: "length p < 128" "p \<noteq> ''''" by (auto simp: alive_def keeps_def)
  have rest: "at_rest p d' (nth_version tried k)"
    by (rule check_rests [OF a(1) crash_clean [OF crash.hyps(3)] k(3) crash.hyps(4)])
  have "files z = files y" if "crash y z" for z
    using that crash_clean [OF crash.hyps(3)] by (auto simp: crash_def)
  then have "recovered p z = version (nth_version tried k)" if "crash y z" for z
    using k(3) that by (simp only: recovered_survivor [OF a(1)] surviving_def short_first_def)
  then have "keeps p tried settled y" using k(1,2) unfolding keeps_def by blast
  then show ?case using rest k(1,2) a keeps_at_rest [OF a(1) rest k(1,2)] by (auto simp: alive_def)
qed

section \<open>Properties\<close>

text \<open>
  Property C20.  Durability over the whole life of a file protected by a checksum, on a file system that
  brings creations, removals and renames to the device in order, perhaps late (no directory is ever
  synchronised).  Any number of the following may happen: checks, opens that are refused, abandoned writes,
  commits that succeed, commits that fail by an incomplete write or by \<open>fflush\<close>, \<open>fsync\<close> or \<open>fclose\<close> of the payload, and crashes at any
  moment but while the new checksum file is not on the device or inside the check
  that follows a crash, each crash followed by a check; the checks and the removals of the temporary payload
  meet no failing system call, and no commit fails after its checksum was started.  Then the disk holds one of the versions whose
  commit was started, whole, with its checksum and without temporary files, never one older than the last
  version whose commit answered success since the last crash; the check answers success exactly when there is a
  version at all; and after a crash the check finds such a version again, never one older than the last one that
  was acknowledged when the directory reached the device, which may be older than the last one acknowledged.
\<close>

theorem safew_durable:
  assumes "life p ds tried settled acked"
  shows "(\<exists>k. acked \<le> k \<and> k \<le> length tried \<and> at_rest p (last ds) (nth_version tried k) \<and>
      (\<forall>r d' tr. file_check p (last ds) = (r, d', tr) \<longrightarrow> (r \<longleftrightarrow> 0 < k) \<and> files d' p = nth_version tried k)) \<and>
    (\<forall>x \<in> set ds. \<forall>y. crash x y \<longrightarrow>
      (\<exists>k. settled \<le> k \<and> k \<le> length tried \<and> recovered p y = version (nth_version tried k)))"
proof -
  have a: "alive p ds tried settled acked" by (rule life_alive [OF assms])
  then obtain k where k: "length p < 128" "acked \<le> k" "k \<le> length tried" "at_rest p (last ds) (nth_version tried k)"
    by (auto simp: alive_def)
  have "(r \<longleftrightarrow> 0 < k) \<and> files d' p = nth_version tried k" if "file_check p (last ds) = (r, d', tr)" for r d' tr
    using check_at_rest [OF k(1,4) that] by (simp add: at_rest_def version_def nth_version_def split: if_splits)
  then show ?thesis using k a unfolding alive_def keeps_def by blast
qed

lemma safew_durable_witness:
  "\<exists>d. life ''a'' [d] [[1, 2]] 1 1 \<and> files d ''a'' = Some [1, 2]"
proof -
  let ?d0 = "\<lparr>files = \<lambda>_. None, dirty = {}, buffered = \<lambda>_. []\<rparr>" and ?ws = "[([1, 2], 2)] :: (bytes \<times> nat) list"
  have l: "life ''a'' [?d0] [] 0 0" by (rule life.fresh) simp_all
  have "\<exists>d1 tr1. futils_safew_fopen ''a'' True True True ?d0 = (Some (handle ''a'' False), d1, tr1)"
    by (simp add: futils_safew_fopen_def fit_def SAFEW_PATH_MAX_LEN_def SAFEW_TMP_SUFFIX_def Let_def handle_def)
  then obtain d1 tr1 where o: "futils_safew_fopen ''a'' True True True (last [?d0]) = (Some (handle ''a'' False), d1, tr1)"
    by auto
  obtain f' d2 tr2 where w: "fwrites ?ws (handle ''a'' False) d1 = (f', d2, tr2)" by (cases "fwrites ?ws (handle ''a'' False) d1")
  have c: "complete ?ws" by (simp add: complete_def)
  have rest: "at_rest ''a'' (last [?d0]) None" by (simp add: at_rest_def version_def)
  have f: "f' = handle ''a'' False" and new: "writing (tmp_of ''a'') (last [?d0]) (concat (map fst ?ws)) d2"
    using write_run(2,3) [OF rest o w] c by (simp_all add: complete_data)
  obtain r d' tr3 where r: "futils_safew_fclose_commit_with_crc (\<lambda>_. True) reads_all [] (Some f') d2 = (r, d', tr3)"
    by (cases "futils_safew_fclose_commit_with_crc (\<lambda>_. True) reads_all [] (Some f') d2")
  have "length ''a'' < 128" by simp
  then have r1: "r = True" using commit_rests(1) [OF rest _ new r [unfolded f]] by simp
  have "life ''a'' ([?d0] @ tr1 @ tr2 @ filter (\<lambda>x. tmp_crc_of ''a'' \<notin> dirty x) tr3 @ [d']) [[1, 2]] 0 1"
    using life.commit [OF l o w c r] unfolding r1 by simp
  from life.settle [OF this] have life: "life ''a'' [d'] [[1, 2]] 1 1" by simp
  from safew_durable [OF this] have "at_rest ''a'' d' (Some [1, 2])" by (auto simp: nth_version_def le_Suc_eq)
  then show ?thesis using life by (auto simp: at_rest_def version_def)
qed

end
