(* ===== verification/Utf8String.thy ===== *)
theory Utf8String
  imports Prelude
begin

text \<open>
  Component \<open>string\<close> (src/src/string.c): sanitising and checking UTF-8 texts.

  A C string is the list of its bytes before the NUL.  \<open>iconv\<close> between UTF-8 and \<open>WCHAR_T\<close> (32 bits
  per character) is the encoding of RFC 3629: a character is converted whole or not at all, an
  invalid sequence is \<open>EILSEQ\<close> (84), a truncated one \<open>EINVAL\<close>, a full output buffer \<open>E2BIG\<close>.
\<close>

type_synonym wchar = u32

definition EILSEQ :: error where
  "EILSEQ = Errno 84"

section \<open>UTF-8\<close>

definition scalar_value :: "nat \<Rightarrow> bool" where
  "scalar_value n \<longleftrightarrow> n < 0xD800 \<or> 0xE000 \<le> n \<and> n < 0x110000"

definition byte :: "nat \<Rightarrow> u8" where
  "byte n = of_nat n"

definition utf8_bytes :: "nat \<Rightarrow> u8 list" where
  "utf8_bytes n =
    (if n < 0x80 then [byte n]
     else if n < 0x800 then [byte (0xC0 + n div 64), byte (0x80 + n mod 64)]
     else if n < 0x10000 then [byte (0xE0 + n div 64 div 64), byte (0x80 + n div 64 mod 64), byte (0x80 + n mod 64)]
     else [byte (0xF0 + n div 64 div 64 div 64), byte (0x80 + n div 64 div 64 mod 64), byte (0x80 + n div 64 mod 64), byte (0x80 + n mod 64)])"

definition utf8_enc :: "wchar \<Rightarrow> u8 list res" where
  "utf8_enc c = (if scalar_value (unat c) then Inr (utf8_bytes (unat c)) else Inl EILSEQ)"

text \<open>The continuation bytes of a character, and one character with the bytes behind it.\<close>

primrec utf8_tail :: "nat \<Rightarrow> nat \<Rightarrow> u8 list \<Rightarrow> (nat \<times> u8 list) res" where
  "utf8_tail 0 v bs = Inr (v, bs)"
| "utf8_tail (Suc k) v bs = (case bs of
     [] \<Rightarrow> Inl EINVAL
   | b # bs \<Rightarrow> if 0x80 \<le> unat b \<and> unat b < 0xC0 then utf8_tail k (v * 64 + (unat b - 0x80)) bs else Inl EILSEQ)"

definition utf8_dec :: "u8 list \<Rightarrow> (wchar \<times> u8 list) res" where
  "utf8_dec bs = (case bs of
     [] \<Rightarrow> Inl EINVAL
   | a # bs \<Rightarrow>
      let n = unat a in
      if n < 0x80 then Inr (of_nat n, bs)
      else if n < 0xC2 \<or> 0xF8 \<le> n then Inl EILSEQ
      else let (k, v, least) = (if n < 0xE0 then (1, n - 0xC0, 0x80) else if n < 0xF0 then (2, n - 0xE0, 0x800) else (3, n - 0xF0, 0x10000))
           in bindR (utf8_tail k v bs) (\<lambda>(v, bs).
              if least \<le> v \<and> scalar_value v then Inr (of_nat v, bs) else Inl EILSEQ))"

lemma utf8_tail_shorter: "utf8_tail k v bs = Inr (w, bs') \<Longrightarrow> length bs' \<le> length bs"
  by (induction k arbitrary: v bs) (auto split: list.splits if_splits, fastforce)

lemma utf8_dec_shorter: "utf8_dec bs = Inr (c, bs') \<Longrightarrow> length bs' < length bs"
  by (auto simp: utf8_dec_def Let_def bindR_Inr_iff dest!: utf8_tail_shorter split: list.splits if_splits)

text \<open>The two calls of \<open>iconv\<close>: what was converted, and the error that stopped it.\<close>

function iconv_dec :: "nat \<Rightarrow> u8 list \<Rightarrow> wchar list \<times> error option" where
  "iconv_dec space bs =
    (if bs = [] then ([], None)
     else case utf8_dec bs of
       Inl e \<Rightarrow> ([], Some e)
     | Inr (c, bs') \<Rightarrow> if space = 0 then ([], Some E2BIG) else (case iconv_dec (space - 1) bs' of (cs, e) \<Rightarrow> (c # cs, e)))"
  by auto
termination by (relation "measure (\<lambda>(space, bs). length bs)") (auto dest: utf8_dec_shorter)

declare iconv_dec.simps [simp del]

primrec iconv_enc :: "nat \<Rightarrow> wchar list \<Rightarrow> u8 list \<times> error option" where
  "iconv_enc space [] = ([], None)"
| "iconv_enc space (c # cs) = (case utf8_enc c of
     Inl e \<Rightarrow> ([], Some e)
   | Inr bs \<Rightarrow> if space < length bs then ([], Some E2BIG) else (case iconv_enc (space - length bs) cs of (bs', e) \<Rightarrow> (bs @ bs', e)))"

section \<open>The functions of the component\<close>

text \<open>Which of the calls of the system succeed.\<close>

record string_env =
  can_decode :: bool
  can_alloc :: bool
  can_encode :: bool

definition to_wchar_string :: "string_env \<Rightarrow> u8 list \<Rightarrow> wchar list res" where
  "to_wchar_string env input =
    (if \<not> can_decode env then Inl ENOSYS
     else if \<not> can_alloc env then Inl ENOMEM
     else case iconv_dec (length input) input of (cs, e) \<Rightarrow> (case e of Some e \<Rightarrow> Inl e | None \<Rightarrow> Inr cs))"

text \<open>\<open>output\<close>: the buffer before and after.\<close>

definition to_utf8_string :: "string_env \<Rightarrow> wchar list \<Rightarrow> u8 list \<Rightarrow> nat \<Rightarrow> nat res \<times> u8 list" where
  "to_utf8_string env input output max_output_len =
    (if \<not> can_encode env then (Inl ENOSYS, output)
     else case iconv_enc (max_output_len - 1) (takeWhile (\<lambda>c. c \<noteq> 0) input) of (bs, e) \<Rightarrow>
       (if e \<noteq> None \<and> e \<noteq> Some E2BIG then (Inl (the e), mem_write 0 bs output)
        else (Inr (length bs), mem_write 0 (bs @ [0]) output)))"

text \<open>\<open>wcschr\<close> also finds the terminator.\<close>

definition wcschr :: "wchar list \<Rightarrow> wchar \<Rightarrow> bool" where
  "wcschr s c \<longleftrightarrow> c \<in> set s \<or> c = 0"

definition futils_string_sanitize_utf8 ::
  "string_env \<Rightarrow> u8 list option \<Rightarrow> u8 list option \<Rightarrow> nat \<Rightarrow> wchar list option \<Rightarrow> wchar \<Rightarrow> nat res \<times> u8 list option" where
  "futils_string_sanitize_utf8 env input output max_output_size forbidden_chars replacement_char =
    (case (input, output) of
       (Some input, Some out) \<Rightarrow>
         if max_output_size < 2 then (Inl EINVAL, output)
         else (case to_wchar_string env input of
           Inl e \<Rightarrow> (Inl e, output)
         | Inr w \<Rightarrow>
             let w = (case forbidden_chars of None \<Rightarrow> w
                      | Some f \<Rightarrow> map (\<lambda>c. if wcschr f c then replacement_char else c) w)
             in (case to_utf8_string env w out max_output_size of (r, out) \<Rightarrow> (r, Some out)))
     | _ \<Rightarrow> (Inl EINVAL, output))"

definition futils_string_check_utf8 ::
  "string_env \<Rightarrow> u8 list option \<Rightarrow> nat \<Rightarrow> nat \<Rightarrow> wchar list option \<Rightarrow> unit res" where
  "futils_string_check_utf8 env input max_bytes max_wchars forbidden_chars = (case input of
     None \<Rightarrow> Inl EINVAL
   | Some input \<Rightarrow>
      if max_bytes > 0 \<and> length input \<ge> max_bytes then Inl E2BIG
      else bindR (to_wchar_string env input) (\<lambda>w.
        if max_wchars > 0 \<and> length w > max_wchars then Inl E2BIG
        else (case forbidden_chars of None \<Rightarrow> Inr ()
              | Some f \<Rightarrow> if list_ex (wcschr f) w then Inl EPROTO else Inr ())))"

section \<open>The encoding\<close>

lemma unat_byte [simp]: "n < 256 \<Longrightarrow> unat (byte n) = n"
  by (simp add: byte_def unat_of_nat_small)

lemma byte_unat [simp]: "byte (unat b) = b"
  by (simp add: byte_def)

lemma utf8_tail_byte: "k < 64 \<Longrightarrow> utf8_tail (Suc n) v (byte (0x80 + k) # bs) = utf8_tail n (v * 64 + k) bs"
  by simp

lemma unat_of_nat_wchar: "n < 0x110000 \<Longrightarrow> unat (of_nat n :: wchar) = n"
  by (simp add: unat_of_nat_small)

lemma utf8_dec_bytes:
  assumes "scalar_value n"
  shows "utf8_dec (utf8_bytes n @ bs) = Inr (of_nat n, bs)"
proof -
  have n: "n < 0x110000" using assms by (auto simp: scalar_value_def)
  define q where "q = n div 64"
  define p where "p = q div 64"
  have e: "n = q * 64 + n mod 64" "q = p * 64 + q mod 64" "p = p div 64 * 64 + p mod 64" by (simp_all add: q_def p_def)
  have m: "n mod 64 < 64" "q mod 64 < 64" "p mod 64 < 64" by simp_all
  consider "n < 0x80" | "0x80 \<le> n" "n < 0x800" | "0x800 \<le> n" "n < 0x10000" | "0x10000 \<le> n" by linarith
  then show ?thesis
  proof cases
    case 1
    then show ?thesis by (simp add: utf8_bytes_def utf8_dec_def)
  next
    case 2
    then have "2 \<le> q" "q < 0x20" using e m by linarith+
    moreover have "utf8_tail 1 q (byte (0x80 + n mod 64) # bs) = Inr (n, bs)"
      using utf8_tail_byte [OF m(1), of 0 q bs] e(1) by simp
    ultimately show ?thesis using 2 assms by (simp add: utf8_bytes_def utf8_dec_def q_def [symmetric] Let_def del: utf8_tail.simps)
  next
    case 3
    then have "p < 0x10" using e m by linarith
    moreover have "utf8_tail 2 p (byte (0x80 + q mod 64) # byte (0x80 + n mod 64) # bs) = Inr (n, bs)"
      unfolding numeral_2_eq_2 utf8_tail_byte [OF m(2)] utf8_tail_byte [OF m(1)] e(2) [symmetric] e(1) [symmetric] by simp
    ultimately show ?thesis using 3 assms by (simp add: utf8_bytes_def utf8_dec_def q_def [symmetric] p_def [symmetric] Let_def del: utf8_tail.simps)
  next
    case 4
    then have "p div 64 < 8" using e m n by linarith
    moreover have "utf8_tail 3 (p div 64) (byte (0x80 + p mod 64) # byte (0x80 + q mod 64) # byte (0x80 + n mod 64) # bs) = Inr (n, bs)"
      unfolding numeral_3_eq_3 utf8_tail_byte [OF m(3)] utf8_tail_byte [OF m(2)] utf8_tail_byte [OF m(1)]
        e(3) [symmetric] e(2) [symmetric] e(1) [symmetric] by simp
    ultimately show ?thesis using 4 assms by (simp add: utf8_bytes_def utf8_dec_def q_def [symmetric] p_def [symmetric] Let_def del: utf8_tail.simps)
  qed
qed

lemma utf8_tail_SucE:
  assumes "utf8_tail (Suc k) v bs = Inr r"
  obtains d bs1 where "d < 64" "bs = byte (0x80 + d) # bs1" "utf8_tail k (v * 64 + d) bs1 = Inr r"
proof (cases bs)
  case (Cons b bs1)
  then have b: "0x80 \<le> unat b" "unat b < 0xC0" "utf8_tail k (v * 64 + (unat b - 0x80)) bs1 = Inr r"
    using assms by (simp_all split: if_splits)
  then have "byte (0x80 + (unat b - 0x80)) = b" by simp
  then show thesis using that [of "unat b - 0x80" bs1] b Cons by simp
qed (use assms in simp)

lemma digit64: "d < 64 \<Longrightarrow> (x * 64 + d) div 64 = x" "d < 64 \<Longrightarrow> (x * 64 + d) mod 64 = d" for x d :: nat
  by simp_all

lemma utf8_dec_sound:
  assumes "utf8_dec bs = Inr (c, bs')"
  shows "scalar_value (unat c) \<and> bs = utf8_bytes (unat c) @ bs'"
proof -
  obtain a bs1 where bs: "bs = a # bs1" using assms by (cases bs) (simp_all add: utf8_dec_def)
  define n where "n = unat a"
  have a: "a = byte n" "n < 256" using unat_bound [of a] by (simp_all add: n_def)
  show ?thesis
  proof (cases "n < 0x80")
    case True
    then have "c = of_nat n" "bs' = bs1" using assms by (simp_all add: utf8_dec_def bs n_def)
    then show ?thesis using True a by (simp add: bs unat_of_nat_small scalar_value_def utf8_bytes_def)
  next
    case False
    define kvl :: "nat \<times> nat \<times> nat" where
      "kvl = (if n < 0xE0 then (1, n - 0xC0, 0x80) else if n < 0xF0 then (2, n - 0xE0, 0x800) else (3, n - 0xF0, 0x10000))"
    obtain k v least where kvl: "kvl = (k, v, least)" by (rule prod_cases3)
    have g: "0xC2 \<le> n" "n < 0xF8" using assms False by (simp_all add: utf8_dec_def bs n_def [symmetric] Let_def split: if_splits)
    have "bindR (utf8_tail k v bs1) (\<lambda>(v, bs). if least \<le> v \<and> scalar_value v then Inr (of_nat v :: wchar, bs) else Inl EILSEQ) = Inr (c, bs')"
      using assms False g unfolding utf8_dec_def bs list.case n_def [symmetric] Let_def kvl_def [symmetric] kvl prod.case by simp
    then obtain w where w: "utf8_tail k v bs1 = Inr (w, bs')" "least \<le> w" "scalar_value w" "c = of_nat w"
      by (auto simp: bindR_Inr_iff split: if_splits)
    have "w < 0x110000" using w(3) by (auto simp: scalar_value_def)
    then have c: "unat c = w" using w(4) by (simp add: unat_of_nat_wchar)
    consider "n < 0xE0" | "0xE0 \<le> n" "n < 0xF0" | "0xF0 \<le> n" by linarith
    then show ?thesis
    proof cases
      case 1
      then have k: "k = Suc 0" "v = n - 0xC0" "least = 0x80" using kvl by (simp_all add: kvl_def)
      obtain d bs2 where d: "d < 64" "bs1 = byte (0x80 + d) # bs2" "utf8_tail 0 (v * 64 + d) bs2 = Inr (w, bs')"
        using w(1) unfolding k(1) by (rule utf8_tail_SucE)
      have "w = v * 64 + d" "bs' = bs2" using d(3) by simp_all
      moreover then have "w div 64 = v" "w mod 64 = d" "w < 0x800" using d(1) 1 k by simp_all
      ultimately show ?thesis using 1 g w(2,3) k d(2) by (simp add: c bs a utf8_bytes_def)
    next
      case 2
      then have k: "k = Suc (Suc 0)" "v = n - 0xE0" "least = 0x800" using kvl by (simp_all add: kvl_def)
      obtain d bs2 where d: "d < 64" "bs1 = byte (0x80 + d) # bs2" "utf8_tail (Suc 0) (v * 64 + d) bs2 = Inr (w, bs')"
        using w(1) unfolding k(1) by (rule utf8_tail_SucE)
      obtain d' bs3 where d': "d' < 64" "bs2 = byte (0x80 + d') # bs3" "utf8_tail 0 ((v * 64 + d) * 64 + d') bs3 = Inr (w, bs')"
        using d(3) by (rule utf8_tail_SucE)
      have w': "w = (v * 64 + d) * 64 + d'" "bs' = bs3" using d'(3) by simp_all
      have q: "w div 64 div 64 = v" "w div 64 mod 64 = d" "w mod 64 = d'"
        unfolding w'(1) by (simp_all only: digit64 [OF d(1)] digit64 [OF d'(1)])
      have "\<not> w < 0x80" "\<not> w < 0x800" "w < 0x10000" using w'(1) w(2) d(1) d'(1) 2 k by simp_all
      then have "utf8_bytes w = [byte (0xE0 + v), byte (0x80 + d), byte (0x80 + d')]"
        unfolding utf8_bytes_def q by simp
      moreover have "n = 0xE0 + v" using 2 k by simp
      ultimately show ?thesis using w(3) w'(2) d(2) d'(2) by (simp add: c bs a)
    next
      case 3
      then have k: "k = Suc (Suc (Suc 0))" "v = n - 0xF0" "least = 0x10000" using kvl by (simp_all add: kvl_def)
      obtain d bs2 where d: "d < 64" "bs1 = byte (0x80 + d) # bs2" "utf8_tail (Suc (Suc 0)) (v * 64 + d) bs2 = Inr (w, bs')"
        using w(1) unfolding k(1) by (rule utf8_tail_SucE)
      obtain d' bs3 where d': "d' < 64" "bs2 = byte (0x80 + d') # bs3" "utf8_tail (Suc 0) ((v * 64 + d) * 64 + d') bs3 = Inr (w, bs')"
        using d(3) by (rule utf8_tail_SucE)
      obtain d'' bs4 where d'': "d'' < 64" "bs3 = byte (0x80 + d'') # bs4" "utf8_tail 0 (((v * 64 + d) * 64 + d') * 64 + d'') bs4 = Inr (w, bs')"
        using d'(3) by (rule utf8_tail_SucE)
      have w': "w = ((v * 64 + d) * 64 + d') * 64 + d''" "bs' = bs4" using d''(3) by simp_all
      have q: "w div 64 div 64 div 64 = v" "w div 64 div 64 mod 64 = d" "w div 64 mod 64 = d'" "w mod 64 = d''"
        unfolding w'(1) by (simp_all only: digit64 [OF d(1)] digit64 [OF d'(1)] digit64 [OF d''(1)])
      have "\<not> w < 0x80" "\<not> w < 0x800" "\<not> w < 0x10000" using w(2) k by simp_all
      then have "utf8_bytes w = [byte (0xF0 + v), byte (0x80 + d), byte (0x80 + d'), byte (0x80 + d'')]"
        unfolding utf8_bytes_def q by simp
      moreover have "n = 0xF0 + v" using 3 k by simp
      ultimately show ?thesis using w(3) w'(2) d(2) d'(2) d''(2) by (simp add: c bs a)
    qed
  qed
qed

text \<open>Texts of characters.\<close>

definition utf8 :: "wchar list \<Rightarrow> u8 list" where
  "utf8 cs = concat (map (\<lambda>c. utf8_bytes (unat c)) cs)"

definition valid_chars :: "wchar list \<Rightarrow> bool" where
  "valid_chars cs \<longleftrightarrow> list_all (\<lambda>c. scalar_value (unat c)) cs"

lemma utf8_simps [simp]: "utf8 [] = []" "utf8 (c # cs) = utf8_bytes (unat c) @ utf8 cs"
  by (simp_all add: utf8_def)

lemma valid_chars_simps [simp]: "valid_chars []" "valid_chars (c # cs) \<longleftrightarrow> scalar_value (unat c) \<and> valid_chars cs"
  by (simp_all add: valid_chars_def)

lemma valid_chars_take: "valid_chars cs \<Longrightarrow> valid_chars (take k cs)"
  by (auto simp: valid_chars_def list_all_iff dest: in_set_takeD)

lemma length_utf8_bytes: "0 < length (utf8_bytes n)" "length (utf8_bytes n) \<le> 4"
  by (simp_all add: utf8_bytes_def)

lemma length_utf8: "length cs \<le> length (utf8 cs)"
proof (induction cs)
  case (Cons c cs)
  show ?case using Cons length_utf8_bytes(1) [of "unat c"] unfolding utf8_simps length_append list.size by linarith
qed simp

lemma byte_eq_0: "n < 256 \<Longrightarrow> 0 = byte n \<longleftrightarrow> n = 0"
  using unat_byte [of n] unat_eq_zero [of "byte n"] by auto

lemma zero_in_utf8_bytes:
  assumes "scalar_value n"
  shows "0 \<in> set (utf8_bytes n) \<longleftrightarrow> n = 0"
proof -
  have "n < 0x110000" using assms by (auto simp: scalar_value_def)
  then have "n div 64 div 64 div 64 < 8" by simp
  moreover have "n < 0x10000 \<Longrightarrow> n div 64 div 64 < 0x10" "n < 0x800 \<Longrightarrow> n div 64 < 0x20" by simp_all
  moreover have "n div 64 div 64 mod 64 < 64" "n div 64 mod 64 < 64" "n mod 64 < 64" by simp_all
  ultimately show ?thesis unfolding utf8_bytes_def by (simp only: set_simps insert_iff empty_iff simp_thms split: if_split) (simp add: byte_eq_0)
qed

lemma zero_in_utf8: "valid_chars cs \<Longrightarrow> 0 \<in> set (utf8 cs) \<longleftrightarrow> 0 \<in> set cs"
  by (induction cs) (auto simp: zero_in_utf8_bytes unat_eq_0)

lemma iconv_dec_utf8: "valid_chars cs \<Longrightarrow> length cs \<le> space \<Longrightarrow> iconv_dec space (utf8 cs) = (cs, None)"
proof (induction cs arbitrary: space)
  case Nil
  then show ?case by (simp add: iconv_dec.simps)
next
  case (Cons c cs)
  then show ?case
    using length_utf8_bytes(1) [of "unat c"] utf8_dec_bytes [of "unat c" "utf8 cs"]
    by (subst iconv_dec.simps) auto
qed

lemma iconv_dec_sound: "iconv_dec space bs = (cs, None) \<Longrightarrow> valid_chars cs \<and> bs = utf8 cs"
proof (induction space bs arbitrary: cs rule: iconv_dec.induct)
  case (1 space bs)
  show ?case
  proof (cases "bs = []")
    case True
    then show ?thesis using 1(2) by (simp add: iconv_dec.simps)
  next
    case False
    obtain c bs' where d: "utf8_dec bs = Inr (c, bs')"
      using 1(2) False by (subst (asm) iconv_dec.simps) (auto split: sum.splits)
    then obtain cs' where cs: "cs = c # cs'" "iconv_dec (space - 1) bs' = (cs', None)" "space \<noteq> 0"
      using 1(2) False by (subst (asm) iconv_dec.simps) (auto split: if_splits prod.splits)
    then show ?thesis using 1(1) [OF False d refl cs(3) cs(2)] utf8_dec_sound [OF d] by simp
  qed
qed

text \<open>How many characters fit into a number of bytes.\<close>

primrec fitting :: "nat \<Rightarrow> wchar list \<Rightarrow> nat" where
  "fitting space [] = 0"
| "fitting space (c # cs) =
    (if space < length (utf8_bytes (unat c)) then 0 else Suc (fitting (space - length (utf8_bytes (unat c))) cs))"

lemma fitting_le: "fitting space cs \<le> length cs"
  by (induction cs arbitrary: space) simp_all

lemma fitting_fits: "length (utf8 (take (fitting space cs) cs)) \<le> space"
proof (induction cs arbitrary: space)
  case (Cons c cs)
  show ?case using Cons [of "space - length (utf8_bytes (unat c))"] by auto
qed simp

lemma fitting_most: "fitting space cs < length cs \<Longrightarrow> space < length (utf8 (take (Suc (fitting space cs)) cs))"
proof (induction cs arbitrary: space)
  case (Cons c cs)
  show ?case using Cons(1) [of "space - length (utf8_bytes (unat c))"] Cons(2) by (auto split: if_splits)
qed simp

lemma iconv_enc_valid:
  "valid_chars cs \<Longrightarrow> iconv_enc space cs = (utf8 (take (fitting space cs) cs), if fitting space cs < length cs then Some E2BIG else None)"
  by (induction cs arbitrary: space) (simp_all add: utf8_enc_def)

section \<open>Sanitising and checking\<close>

definition env_ok :: "string_env \<Rightarrow> bool" where
  "env_ok env \<longleftrightarrow> can_decode env \<and> can_alloc env \<and> can_encode env"

text \<open>The characters of the result, before it is cut.\<close>

definition replaced :: "wchar list option \<Rightarrow> wchar \<Rightarrow> wchar list \<Rightarrow> wchar list" where
  "replaced forbidden repl cs = (case forbidden of None \<Rightarrow> cs | Some f \<Rightarrow> map (\<lambda>c. if c \<in> set f then repl else c) cs)"

definition allowed :: "wchar list option \<Rightarrow> wchar list \<Rightarrow> bool" where
  "allowed forbidden cs \<longleftrightarrow> (case forbidden of None \<Rightarrow> True | Some f \<Rightarrow> set f \<inter> set cs = {})"

lemma to_wchar_string_ok: "env_ok env \<Longrightarrow> valid_chars cs \<Longrightarrow> to_wchar_string env (utf8 cs) = Inr cs"
  by (simp add: to_wchar_string_def env_ok_def iconv_dec_utf8 length_utf8)

lemma to_wchar_string_iff:
  assumes "env_ok env"
  shows "to_wchar_string env bs = Inr cs \<longleftrightarrow> valid_chars cs \<and> bs = utf8 cs"
proof
  assume "to_wchar_string env bs = Inr cs"
  then have "iconv_dec (length bs) bs = (cs, None)"
    using assms by (simp add: to_wchar_string_def env_ok_def split: prod.splits option.splits)
  then show "valid_chars cs \<and> bs = utf8 cs" by (rule iconv_dec_sound)
qed (use to_wchar_string_ok [OF assms] in auto)

lemma replaced_valid: "valid_chars cs \<Longrightarrow> scalar_value (unat repl) \<Longrightarrow> valid_chars (replaced forbidden repl cs)"
  by (auto simp: replaced_def valid_chars_def list_all_iff split: option.split)

lemma replaced_nonzero: "0 \<notin> set cs \<Longrightarrow> repl \<noteq> 0 \<Longrightarrow> 0 \<notin> set (replaced forbidden repl cs)"
  by (auto simp: replaced_def split: option.split)

lemma replaced_allowed: "allowed forbidden [repl] \<Longrightarrow> allowed forbidden (replaced forbidden repl cs)"
  by (auto simp: replaced_def allowed_def split: option.splits)

lemma check_iff:
  assumes "env_ok env" "0 \<notin> set bs"
  shows "futils_string_check_utf8 env (Some bs) max_bytes max_wchars forbidden = Inr () \<longleftrightarrow>
    (max_bytes = 0 \<or> length bs < max_bytes) \<and>
    (\<exists>cs. valid_chars cs \<and> bs = utf8 cs \<and> (max_wchars = 0 \<or> length cs \<le> max_wchars) \<and> allowed forbidden cs)"
proof -
  have ex: "list_ex (wcschr f) cs \<longleftrightarrow> set f \<inter> set cs \<noteq> {}" if "valid_chars cs" "bs = utf8 cs" for f cs
    using zero_in_utf8 [OF that(1)] assms(2) that(2) by (auto simp: list_ex_iff wcschr_def)
  show ?thesis
  proof (cases "to_wchar_string env bs")
    case (Inl e)
    then have "\<not> (\<exists>cs. valid_chars cs \<and> bs = utf8 cs)"
      using to_wchar_string_ok [OF assms(1)] by (metis Inl_Inr_False)
    then show ?thesis using Inl by (auto simp: futils_string_check_utf8_def)
  next
    case (Inr cs)
    then have cs: "valid_chars cs" "bs = utf8 cs" using to_wchar_string_iff [OF assms(1)] by auto
    have u: "cs' = cs" if "valid_chars cs'" "bs = utf8 cs'" for cs'
      using to_wchar_string_ok [OF assms(1) that(1)] that(2) Inr by simp
    have "futils_string_check_utf8 env (Some bs) max_bytes max_wchars forbidden = Inr () \<longleftrightarrow>
      (max_bytes = 0 \<or> length bs < max_bytes) \<and> (max_wchars = 0 \<or> length cs \<le> max_wchars) \<and> allowed forbidden cs"
      using ex [OF cs] by (cases forbidden) (auto simp: futils_string_check_utf8_def Inr allowed_def)
    then show ?thesis using u cs by blast
  qed
qed

text \<open>
  Property C15.  Sanitising a valid UTF-8 text replaces exactly its forbidden characters and keeps the
  longest beginning of whole characters that fits with its terminator; the buffer behind it is
  untouched, the number returned is that of the bytes without the terminator, and the result passes
  \<open>futils_string_check_utf8\<close> for the same buffer size and the same forbidden characters, if the
  replacement is not forbidden itself.
\<close>

theorem sanitize_correct:
  assumes "env_ok env" "valid_chars cs" "0 \<notin> set cs"
    and "scalar_value (unat repl)" "repl \<noteq> 0" "allowed forbidden [repl]"
    and "2 \<le> max_size" "max_size \<le> length buf"
  shows "\<exists>k p. k \<le> length cs \<and> p = utf8 (take k (replaced forbidden repl cs)) \<and>
    futils_string_sanitize_utf8 env (Some (utf8 cs)) (Some buf) max_size forbidden repl =
      (Inr (length p), Some (p @ 0 # drop (Suc (length p)) buf)) \<and>
    length p < max_size \<and>
    (k < length cs \<longrightarrow> max_size \<le> length (utf8 (take (Suc k) (replaced forbidden repl cs)))) \<and>
    futils_string_check_utf8 env (Some p) max_size 0 forbidden = Inr ()"
proof -
  define w where "w = replaced forbidden repl cs"
  have w: "valid_chars w" "0 \<notin> set w" "allowed forbidden w" "length w = length cs"
    using assms(2-6) by (simp_all add: w_def replaced_valid replaced_nonzero replaced_allowed)
      (simp add: replaced_def split: option.split)
  define k where "k = fitting (max_size - 1) w"
  define p where "p = utf8 (take k w)"
  have k: "k \<le> length cs" "length p < max_size" "k < length cs \<Longrightarrow> max_size \<le> length (utf8 (take (Suc k) w))"
    using fitting_le [of "max_size - 1" w] fitting_fits [of "max_size - 1" w] fitting_most [of "max_size - 1" w] assms(7)
    by (simp_all add: k_def p_def w(4))
  have tw: "takeWhile (\<lambda>c. c \<noteq> 0) w = w" using w(2) by (auto simp: takeWhile_eq_all_conv)
  have "to_utf8_string env w buf max_size = (Inr (length p), mem_write 0 (p @ [0]) buf)"
    using assms(1) unfolding to_utf8_string_def env_ok_def tw iconv_enc_valid [OF w(1)] k_def [symmetric] p_def [symmetric] by simp
  moreover have "(case forbidden of None \<Rightarrow> cs | Some f \<Rightarrow> map (\<lambda>c. if wcschr f c then repl else c) cs) = w"
    using assms(3) by (auto simp: w_def replaced_def wcschr_def split: option.split)
  moreover have "mem_write 0 (p @ [0]) buf = p @ 0 # drop (Suc (length p)) buf" by (simp add: mem_write_def)
  ultimately have "futils_string_sanitize_utf8 env (Some (utf8 cs)) (Some buf) max_size forbidden repl =
      (Inr (length p), Some (p @ 0 # drop (Suc (length p)) buf))"
    using assms(7) by (simp add: futils_string_sanitize_utf8_def to_wchar_string_ok [OF assms(1,2)] Let_def)
  moreover have "futils_string_check_utf8 env (Some p) max_size 0 forbidden = Inr ()"
  proof -
    have v: "valid_chars (take k w)" by (rule valid_chars_take [OF w(1)])
    have "0 \<notin> set p" using zero_in_utf8 [OF v] w(2) by (auto simp: p_def dest: in_set_takeD)
    moreover have "allowed forbidden (take k w)" using w(3) by (auto simp: allowed_def split: option.splits dest: in_set_takeD)
    ultimately show ?thesis using check_iff [OF assms(1)] v k(2) by (auto simp: p_def)
  qed
  ultimately show ?thesis using k unfolding w_def p_def by blast
qed

theorem sanitize_correct_witness:
  "\<exists>k p. p = utf8 (take k [0x61, 0x5F, 0xE9]) \<and>
    futils_string_sanitize_utf8 \<lparr>can_decode = True, can_alloc = True, can_encode = True\<rparr>
      (Some (utf8 [0x61, 0x2F, 0xE9])) (Some [1, 2, 3, 4, 5, 6]) 4 (Some [0x2F]) 0x5F = (Inr (length p), Some (p @ 0 # drop (Suc (length p)) [1, 2, 3, 4, 5, 6])) \<and>
    length p < 4 \<and>
    futils_string_check_utf8 \<lparr>can_decode = True, can_alloc = True, can_encode = True\<rparr> (Some p) 4 0 (Some [0x2F]) = Inr ()"
  using sanitize_correct [of "\<lparr>can_decode = True, can_alloc = True, can_encode = True\<rparr>" "[0x61, 0x2F, 0xE9]" "0x5F" "Some [0x2F]" 4 "[1, 2, 3, 4, 5, 6]"]
  by (simp add: env_ok_def scalar_value_def allowed_def replaced_def del: utf8_simps) blast

text \<open>
  The check accepts exactly the valid UTF-8 texts within both limits that hold none of the
  forbidden characters.
\<close>

theorem check_utf8_exact:
  assumes "env_ok env" "0 \<notin> set bs"
  shows "futils_string_check_utf8 env (Some bs) max_bytes max_wchars forbidden = Inr () \<longleftrightarrow>
    (max_bytes = 0 \<or> length bs < max_bytes) \<and>
    (\<exists>cs. valid_chars cs \<and> bs = utf8 cs \<and> (max_wchars = 0 \<or> length cs \<le> max_wchars) \<and> allowed forbidden cs)"
  by (rule check_iff [OF assms])

theorem check_utf8_exact_witness:
  "futils_string_check_utf8 \<lparr>can_decode = True, can_alloc = True, can_encode = True\<rparr> (Some (utf8 [0x61, 0xE9])) 4 2 (Some [0x2F]) = Inr ()"
proof -
  have v: "valid_chars [0x61, 0xE9]" by (simp add: scalar_value_def)
  have "0 \<notin> set (utf8 [0x61, 0xE9])" "length (utf8 [0x61, 0xE9]) = 3"
    unfolding zero_in_utf8 [OF v] by (simp_all add: utf8_bytes_def)
  moreover have "\<exists>cs. valid_chars cs \<and> utf8 [0x61, 0xE9] = utf8 cs \<and> (2 = (0 :: nat) \<or> length cs \<le> 2) \<and> allowed (Some [0x2F]) cs"
    by (rule exI [of _ "[0x61, 0xE9]"]) (use v in \<open>simp add: allowed_def\<close>)
  moreover have "env_ok \<lparr>can_decode = True, can_alloc = True, can_encode = True\<rparr>" by (simp add: env_ok_def)
  ultimately show ?thesis by (intro check_utf8_exact [THEN iffD2]) simp_all
qed

end
