(* ===== verification/Fsize.thy ===== *)
theory Fsize
  imports Timetools
begin

text \<open>
  Component \<open>fs\<close> (src/src/fs.c): the size of the regular files in a directory.

  The file system is what \<open>opendir\<close> with \<open>readdir\<close> and \<open>lstat\<close> report for a path: the names in the order
  they are read, with \<open>.\<close> and \<open>..\<close> anywhere among them, and type and size.  The recursion into
  sub-directories is bounded by \<open>fuel\<close>, the number of directory levels; \<open>None\<close>: more levels.  A sum
  outside \<open>int64_t\<close> is \<open>Fault\<close>.  The variable \<open>ret\<close> of the code is the \<open>Inl\<close> of the result; it is never
  negative at the end of the loop, so the sum is returned there.
\<close>

datatype file_type = Regular | Directory | Other_type

record file_stat =
  st_mode :: file_type
  st_size :: nat

record file_system =
  opendir_at :: "string \<Rightarrow> string list res"
  lstat_at :: "string \<Rightarrow> file_stat res"
  can_malloc :: bool

definition FILENAME_MAX :: nat where
  "FILENAME_MAX = 4096"

definition entry_path :: "string \<Rightarrow> string \<Rightarrow> string" where
  "entry_path path name = take (FILENAME_MAX - 1) (path @ ''/'' @ name)"

primrec dir_entries ::
  "(string \<Rightarrow> int res option) \<Rightarrow> file_system \<Rightarrow> string \<Rightarrow> bool \<Rightarrow> string list \<Rightarrow> int \<Rightarrow> int res option" where
  "dir_entries sub fs path recursive [] acc = Some (Inr acc)"
| "dir_entries sub fs path recursive (name # names) acc =
    (if name = ''.'' \<or> name = ''..'' then dir_entries sub fs path recursive names acc
     else let filepath = entry_path path name in
       case lstat_at fs filepath of
         Inl e \<Rightarrow> Some (Inl e)
       | Inr st \<Rightarrow>
           if st_mode st = Regular
           then (case s64 (acc + int (st_size st)) of Inl e \<Rightarrow> Some (Inl e) | Inr acc \<Rightarrow> dir_entries sub fs path recursive names acc)
           else if st_mode st = Directory \<and> recursive
           then (case sub filepath of
               None \<Rightarrow> None
             | Some (Inl e) \<Rightarrow> Some (Inl e)
             | Some (Inr n) \<Rightarrow> (case s64 (acc + n) of Inl e \<Rightarrow> Some (Inl e) | Inr acc \<Rightarrow> dir_entries sub fs path recursive names acc))
           else dir_entries sub fs path recursive names acc)"

primrec futils_fs_dir_size :: "nat \<Rightarrow> file_system \<Rightarrow> string \<Rightarrow> bool \<Rightarrow> int res option" where
  "futils_fs_dir_size 0 fs path recursive = None"
| "futils_fs_dir_size (Suc fuel) fs path recursive =
    (case opendir_at fs path of
       Inl e \<Rightarrow> Some (Inl e)
     | Inr names \<Rightarrow>
         if \<not> can_malloc fs then Some (Inl ENOMEM)
         else dir_entries (\<lambda>p. futils_fs_dir_size fuel fs p True) fs path recursive names 0)"

section \<open>Directory trees\<close>

datatype tree = File nat | Special | Dir entries
  and entries = No_entry | Entry string tree entries

primrec tree_size :: "tree \<Rightarrow> nat" and entries_size :: "entries \<Rightarrow> nat" where
  "tree_size (File n) = n"
| "tree_size Special = 0"
| "tree_size (Dir es) = entries_size es"
| "entries_size No_entry = 0"
| "entries_size (Entry name t es) = tree_size t + entries_size es"

text \<open>The sum of the files directly in a directory.\<close>

primrec direct_size :: "entries \<Rightarrow> nat" where
  "direct_size No_entry = 0"
| "direct_size (Entry name t es) = (case t of File n \<Rightarrow> n | _ \<Rightarrow> 0) + direct_size es"

primrec tree_depth :: "tree \<Rightarrow> nat" and entries_depth :: "entries \<Rightarrow> nat" where
  "tree_depth (File n) = 0"
| "tree_depth Special = 0"
| "tree_depth (Dir es) = Suc (entries_depth es)"
| "entries_depth No_entry = 0"
| "entries_depth (Entry name t es) = max (tree_depth t) (entries_depth es)"

primrec entry_names :: "entries \<Rightarrow> string list" where
  "entry_names No_entry = []"
| "entry_names (Entry name t es) = name # entry_names es"

text \<open>What the file system reports under a path is the tree.\<close>

primrec tree_at :: "file_system \<Rightarrow> string \<Rightarrow> tree \<Rightarrow> bool" and entries_at :: "file_system \<Rightarrow> string \<Rightarrow> entries \<Rightarrow> bool" where
  "tree_at fs path (File n) \<longleftrightarrow> lstat_at fs path = Inr \<lparr>st_mode = Regular, st_size = n\<rparr>"
| "tree_at fs path Special \<longleftrightarrow> (case lstat_at fs path of Inl e \<Rightarrow> False | Inr st \<Rightarrow> st_mode st = Other_type)"
| "tree_at fs path (Dir es) \<longleftrightarrow>
    (case lstat_at fs path of Inl e \<Rightarrow> False | Inr st \<Rightarrow> st_mode st = Directory) \<and>
    (case opendir_at fs path of Inl e \<Rightarrow> False | Inr names \<Rightarrow> filter (\<lambda>n. n \<noteq> ''.'' \<and> n \<noteq> ''..'') names = entry_names es) \<and>
    entries_at fs path es"
| "entries_at fs path No_entry \<longleftrightarrow> True"
| "entries_at fs path (Entry name t es) \<longleftrightarrow>
    length path + 1 + length name < FILENAME_MAX \<and> tree_at fs (path @ ''/'' @ name) t \<and> entries_at fs path es"

lemma entry_path_short: "length path + 1 + length name < FILENAME_MAX \<Longrightarrow> entry_path path name = path @ ''/'' @ name"
  by (simp add: entry_path_def)

lemma dir_entries_dots:
  "dir_entries sub fs path recursive names acc =
   dir_entries sub fs path recursive (filter (\<lambda>n. n \<noteq> ''.'' \<and> n \<noteq> ''..'') names) acc"
  by (induction names arbitrary: acc) (auto simp: Let_def split: sum.split option.split)

lemma dots_entry_names: "filter (\<lambda>n. n \<noteq> ''.'' \<and> n \<noteq> ''..'') names = entry_names es \<Longrightarrow> list_all (\<lambda>n. n \<noteq> ''.'' \<and> n \<noteq> ''..'') (entry_names es)"
  by (drule sym) (simp add: list_all_iff)

lemma entries_direct:
  "entries_at fs path es \<Longrightarrow> list_all (\<lambda>n. n \<noteq> ''.'' \<and> n \<noteq> ''..'') (entry_names es) \<Longrightarrow> 0 \<le> acc \<Longrightarrow> acc + int (direct_size es) < 2 ^ 63 \<Longrightarrow>
   dir_entries sub fs path False (entry_names es) acc = Some (Inr (acc + int (direct_size es)))"
proof (induction "entry_names es" arbitrary: es acc)
  case Nil
  then show ?case by (cases es) simp_all
next
  case (Cons name names)
  then obtain t es' where es: "es = Entry name t es'" "names = entry_names es'" by (cases es) auto
  show ?case
    using Cons(1) [of es'] Cons(3-) by (cases t) (auto simp: es entry_path_short s64_def Let_def split: sum.splits)
qed

lemma entries_recursive:
  "tree_at fs path t \<Longrightarrow> can_malloc fs \<Longrightarrow> tree_depth t \<le> fuel \<Longrightarrow> int (tree_size t) < 2 ^ 63 \<Longrightarrow> (\<exists>es. t = Dir es) \<Longrightarrow>
    futils_fs_dir_size fuel fs path True = Some (Inr (int (tree_size t)))"
  "entries_at fs path es \<Longrightarrow> can_malloc fs \<Longrightarrow> entries_depth es \<le> fuel \<Longrightarrow>
    list_all (\<lambda>n. n \<noteq> ''.'' \<and> n \<noteq> ''..'') (entry_names es) \<Longrightarrow> 0 \<le> acc \<Longrightarrow> acc + int (entries_size es) < 2 ^ 63 \<Longrightarrow>
    dir_entries (\<lambda>p. futils_fs_dir_size fuel fs p True) fs path True (entry_names es) acc = Some (Inr (acc + int (entries_size es)))"
proof (induction t and es arbitrary: path fuel and path fuel acc)
  case (Dir es)
  obtain names where n: "opendir_at fs path = Inr names" "filter (\<lambda>n. n \<noteq> ''.'' \<and> n \<noteq> ''..'') names = entry_names es"
    using Dir.prems(1) by (auto split: sum.splits)
  obtain k where k: "fuel = Suc k" "entries_depth es \<le> k" using Dir.prems(3) by (cases fuel) auto
  show ?case
    using Dir.IH [of path k 0] Dir.prems dots_entry_names [OF n(2)] k
    by (simp add: n(1) dir_entries_dots [of _ _ _ _ names] n(2))
next
  case (Entry name t es)
  have e: "entry_path path name = path @ ''/'' @ name" using Entry.prems(1) by (intro entry_path_short) simp
  have rest: "dir_entries (\<lambda>p. futils_fs_dir_size fuel fs p True) fs path True (entry_names es) s = Some (Inr (s + int (entries_size es)))"
    if "0 \<le> s" "s + int (entries_size es) < 2 ^ 63" for s
    using Entry.IH(2) [of path fuel s] Entry.prems that by simp
  show ?case
  proof (cases t)
    case (File n)
    then show ?thesis using Entry.prems rest [of "acc + int n"] by (simp add: e s64_def)
  next
    case Special
    then show ?thesis using Entry.prems rest [of acc] by (auto simp: e split: sum.splits)
  next
    case (Dir es')
    obtain st where st: "lstat_at fs (path @ ''/'' @ name) = Inr st" "st_mode st = Directory"
      using Entry.prems(1) Dir by (auto split: sum.splits)
    have "futils_fs_dir_size fuel fs (path @ ''/'' @ name) True = Some (Inr (int (tree_size t)))"
      using Entry.IH(1) [of "path @ ''/'' @ name" fuel] Entry.prems Dir by simp
    then show ?thesis using Entry.prems rest [of "acc + int (tree_size t)"] st by (simp add: e s64_def)
  qed
qed simp_all

text \<open>
  Property C16.  On a file system that holds a finite tree of directories at a path, with all paths
  shorter than \<open>FILENAME_MAX\<close>, the recursive size is the sum over all regular files of the tree, found
  with as many levels of recursion as the tree has, and the size without recursion the sum over the
  files directly in the directory.
\<close>

theorem dir_size_correct:
  assumes "tree_at fs path (Dir es)" "can_malloc fs" "tree_depth (Dir es) \<le> fuel" "int (tree_size (Dir es)) < 2 ^ 63"
  shows "futils_fs_dir_size fuel fs path True = Some (Inr (int (tree_size (Dir es)))) \<and>
    futils_fs_dir_size fuel fs path False = Some (Inr (int (direct_size es)))"
proof
  show "futils_fs_dir_size fuel fs path True = Some (Inr (int (tree_size (Dir es))))"
    by (rule entries_recursive(1) [OF assms]) simp
  obtain names where n: "opendir_at fs path = Inr names" "filter (\<lambda>n. n \<noteq> ''.'' \<and> n \<noteq> ''..'') names = entry_names es"
    using assms(1) by (auto split: sum.splits)
  obtain k where k: "fuel = Suc k" using assms(3) by (cases fuel) auto
  have "direct_size es' \<le> entries_size es'" for es'
    by (induction "entry_names es'" arbitrary: es') (case_tac es'; force split: tree.split)+
  from this [of es] show "futils_fs_dir_size fuel fs path False = Some (Inr (int (direct_size es)))"
    using entries_direct [of fs path es 0] assms dots_entry_names [OF n(2)]
    by (simp add: k n(1) dir_entries_dots [of _ _ _ _ names] n(2))
qed

definition sample_fs :: file_system where
  "sample_fs = \<lparr>opendir_at = (\<lambda>p. if p = ''a'' then Inr [''.'', ''f'', ''d'', ''..''] else if p = ''a/d'' then Inr [''g''] else Inl ENOENT),
    lstat_at = (\<lambda>p. if p = ''a'' \<or> p = ''a/d'' then Inr \<lparr>st_mode = Directory, st_size = 0\<rparr>
      else if p = ''a/f'' then Inr \<lparr>st_mode = Regular, st_size = 10\<rparr>
      else if p = ''a/d/g'' then Inr \<lparr>st_mode = Regular, st_size = 32\<rparr> else Inl ENOENT),
    can_malloc = True\<rparr>"

theorem dir_size_correct_witness:
  "futils_fs_dir_size 2 sample_fs ''a'' True = Some (Inr 42) \<and> futils_fs_dir_size 2 sample_fs ''a'' False = Some (Inr 10)"
  using dir_size_correct [of sample_fs "''a''" "Entry ''f'' (File 10) (Entry ''d'' (Dir (Entry ''g'' (File 32) No_entry)) No_entry)" 2]
  by (simp add: sample_fs_def FILENAME_MAX_def)

end
