(* ===== verification/Synctools.thy ===== *)
theory Synctools
  imports Prelude
begin

text \<open>
  Component \<open>synctools\<close> (src/src/synctools.c): flushing a file and its folder to the disk.

  The system answers \<open>open\<close> (with or without \<open>O_DIRECTORY\<close>) and \<open>fsync\<close>; the calls made are recorded in
  order.  Log messages are left out.  Passing \<open>NULL\<close> to \<open>strdup\<close> is \<open>Fault\<close>.
\<close>

record sync_system =
  open_answer :: "string \<Rightarrow> bool \<Rightarrow> int res"
  fsync_answer :: "int \<Rightarrow> unit res"
  strdup_ok :: bool

datatype sync_call = Open string bool | Fsync int | Close int

definition synctool :: "sync_system \<Rightarrow> string option \<Rightarrow> bool \<Rightarrow> unit res \<times> sync_call list" where
  "synctool sys path directory = (case path of
     None \<Rightarrow> (Inl EINVAL, [])
   | Some p \<Rightarrow> (case open_answer sys p directory of
       Inl e \<Rightarrow> (Inl e, [Open p directory])
     | Inr fd \<Rightarrow> (fsync_answer sys fd, [Open p directory, Fsync fd, Close fd])))"

definition sync_file :: "sync_system \<Rightarrow> string option \<Rightarrow> unit res \<times> sync_call list" where
  "sync_file sys filepath = synctool sys filepath False"

definition sync_folder :: "sync_system \<Rightarrow> string option \<Rightarrow> unit res \<times> sync_call list" where
  "sync_folder sys folderpath = synctool sys folderpath True"

text \<open>\<open>strrchr\<close>: the text up to the last slash, with it.\<close>

definition up_to_last_slash :: "string \<Rightarrow> string option" where
  "up_to_last_slash p = (if CHR ''/'' \<in> set p then Some (rev (dropWhile (\<lambda>c. c \<noteq> CHR ''/'') (rev p))) else None)"

definition sync_file_and_folder :: "sync_system \<Rightarrow> string option \<Rightarrow> unit res \<times> sync_call list" where
  "sync_file_and_folder sys filepath =
    (let (ret, calls) = sync_file sys filepath in
     case filepath of
       None \<Rightarrow> (Inl Fault, calls)
     | Some p \<Rightarrow>
         if \<not> strdup_ok sys then (Inl ENOMEM, calls)
         else (case up_to_last_slash p of
           None \<Rightarrow> (Inl EINVAL, calls)
         | Some folderpath \<Rightarrow> (let (ret, calls') = sync_folder sys (Some folderpath) in (ret, calls @ calls'))))"

section \<open>Order of the calls and result\<close>

text \<open>Every descriptor that is opened is closed.\<close>

definition opened :: "sync_system \<Rightarrow> sync_call list \<Rightarrow> int list" where
  "opened sys calls = concat (map (\<lambda>c. case c of Open p d \<Rightarrow> (case open_answer sys p d of Inl _ \<Rightarrow> [] | Inr fd \<Rightarrow> [fd]) | _ \<Rightarrow> []) calls)"

definition closed :: "sync_call list \<Rightarrow> int list" where
  "closed calls = concat (map (\<lambda>c. case c of Close fd \<Rightarrow> [fd] | _ \<Rightarrow> []) calls)"

lemma opened_append: "opened sys (a @ b) = opened sys a @ opened sys b" "closed (a @ b) = closed a @ closed b"
  by (simp_all add: opened_def closed_def)

lemma synctool_closes: "opened sys (snd (synctool sys p d)) = closed (snd (synctool sys p d))"
  by (auto simp: synctool_def opened_def closed_def split: option.splits sum.splits)

lemma up_to_last_slash:
  "up_to_last_slash (d @ CHR ''/'' # f) = Some (d @ ''/'')" if "CHR ''/'' \<notin> set f"
proof -
  have "dropWhile (\<lambda>c. c \<noteq> CHR ''/'') (rev f @ CHR ''/'' # rev d) = CHR ''/'' # rev d"
    using that by (subst dropWhile_append2) auto
  then show ?thesis by (simp add: up_to_last_slash_def)
qed

text \<open>
  Property C17.  For a file with a folder in its path, \<open>sync_file_and_folder\<close> first opens and flushes the
  file and then the folder, closes every descriptor it opened, and returns the result of the folder
  alone: when the file cannot be opened or flushed, it reports success as long as the folder is
  flushed.
\<close>

theorem sync_file_and_folder_correct:
  assumes "CHR ''/'' \<notin> set f" "strdup_ok sys"
  shows "sync_file_and_folder sys (Some (d @ CHR ''/'' # f)) =
      (fst (sync_folder sys (Some (d @ ''/''))), snd (sync_file sys (Some (d @ CHR ''/'' # f))) @ snd (sync_folder sys (Some (d @ ''/'')))) \<and>
    opened sys (snd (sync_file_and_folder sys (Some (d @ CHR ''/'' # f)))) = closed (snd (sync_file_and_folder sys (Some (d @ CHR ''/'' # f)))) \<and>
    (fst (sync_file_and_folder sys (Some (d @ CHR ''/'' # f))) = Inr () \<longleftrightarrow>
      (\<exists>fd. open_answer sys (d @ ''/'') True = Inr fd \<and> fsync_answer sys fd = Inr ()))"
proof -
  have eq: "sync_file_and_folder sys (Some (d @ CHR ''/'' # f)) =
      (fst (sync_folder sys (Some (d @ ''/''))), snd (sync_file sys (Some (d @ CHR ''/'' # f))) @ snd (sync_folder sys (Some (d @ ''/''))))"
    using assms(2) by (simp add: sync_file_and_folder_def up_to_last_slash [OF assms(1)] case_prod_unfold Let_def)
  moreover have "fst (sync_folder sys (Some (d @ ''/''))) = Inr () \<longleftrightarrow> (\<exists>fd. open_answer sys (d @ ''/'') True = Inr fd \<and> fsync_answer sys fd = Inr ())"
    by (auto simp: sync_folder_def synctool_def split: sum.splits)
  ultimately show ?thesis
    by (simp add: opened_append synctool_closes sync_file_def sync_folder_def)
qed

theorem sync_file_and_folder_correct_witness:
  "sync_file_and_folder \<lparr>open_answer = (\<lambda>p dir. if dir then Inr 3 else Inl EIO), fsync_answer = (\<lambda>_. Inr ()), strdup_ok = True\<rparr> (Some ''d/f'') =
    (Inr (), [Open ''d/f'' False, Open ''d/'' True, Fsync 3, Close 3])"
  using sync_file_and_folder_correct [of "''f''" "\<lparr>open_answer = (\<lambda>p dir. if dir then Inr 3 else Inl EIO), fsync_answer = (\<lambda>_. Inr ()), strdup_ok = True\<rparr>" "''d''"]
  by (simp add: sync_folder_def sync_file_def synctool_def)

end
