(* ===== verification/Inotify.thy ===== *)
theory Inotify
  imports Fdutils
begin

text \<open>
  Component \<open>inotify\<close> (src/src/inotify.c): creating a watch and walking through the received events.

  The system answers \<open>inotify_init\<close>, \<open>inotify_add_watch\<close>, \<open>ioctl\<close>, \<open>malloc\<close> and \<open>read\<close>; the kernel state of
  the descriptors is that of \<open>fdutils\<close>.  \<open>inotify_walk\<close> reads the events from the bytes of the buffer at
  their offsets; an access or a pointer outside the buffer is \<open>Fault\<close>.  As the length of an event is
  taken from the buffer the loop need not end: then the result is \<open>None\<close>.
\<close>

record inotify_system =
  init_answer :: "int res"
  watch_answer :: "int \<Rightarrow> string \<Rightarrow> u32 \<Rightarrow> unit res"

definition inotify_destroy :: "int \<Rightarrow> int list" where
  "inotify_destroy fd = (if fd \<ge> 0 then [fd] else [])"

text \<open>The descriptor or -1, the descriptors closed, and the state of the kernel.\<close>

definition inotify_create ::
  "inotify_system \<Rightarrow> 's fcntl_ops \<Rightarrow> string \<Rightarrow> u32 \<Rightarrow> 's \<Rightarrow> int \<times> int list \<times> 's" where
  "inotify_create sys k path watch_mask s = (case init_answer sys of
     Inl e \<Rightarrow> (-1, inotify_destroy (-1), s)
   | Inr fd \<Rightarrow>
       (let s = snd (fd_set_close_on_exec k fd s) in
        case watch_answer sys fd path watch_mask of
          Inl e \<Rightarrow> (-1, inotify_destroy fd, s)
        | Inr _ \<Rightarrow> (fd, [], s)))"

text \<open>An event as the callback sees it.\<close>

record inotify_event =
  wd :: u32
  mask_of :: u32
  cookie :: u32
  name_bytes :: "u8 list"

definition u32_at :: "u8 list \<Rightarrow> int \<Rightarrow> u32" where
  "u32_at buf off = bytes_u32 (take 4 (drop (nat off) buf))"

definition EVENT_SIZE :: int where
  "EVENT_SIZE = 16"

definition event_at :: "u8 list \<Rightarrow> int \<Rightarrow> inotify_event" where
  "event_at buf off = \<lparr>wd = u32_at buf off, mask_of = u32_at buf (off + 4), cookie = u32_at buf (off + 8),
     name_bytes = take (unat (u32_at buf (off + 12))) (drop (nat (off + EVENT_SIZE)) buf)\<rparr>"

partial_function (option) inotify_walk ::
  "u8 list \<Rightarrow> int \<Rightarrow> int \<Rightarrow> inotify_event list \<Rightarrow> (unit res \<times> inotify_event list) option" where
  "inotify_walk buf off count seen =
    (if count < EVENT_SIZE then Some (Inr (), seen)
     else if off < 0 \<or> off + EVENT_SIZE > int (length buf) then Some (Inl Fault, seen)
     else let seen = seen @ [event_at buf off];
              len = sint (of_int EVENT_SIZE + u32_at buf (off + 12));
              off = off + len
          in if off < 0 \<or> off > int (length buf) then Some (Inl Fault, seen)
             else inotify_walk buf off (count - len) seen)"

text \<open>
  \<open>pending\<close>: the answer of \<open>ioctl\<close>; \<open>heap\<close>, \<open>stack\<close>: the memory before the call, the first one if \<open>malloc\<close>
  succeeds; \<open>received\<close>: the answer of \<open>read\<close> for a number of bytes.  Bytes that do not fit the buffer are
  written behind it, a \<open>Fault\<close>.  The last result counts the blocks from \<open>malloc\<close> that were not freed.
\<close>

definition inotify_process_fd ::
  "int res \<Rightarrow> (nat \<Rightarrow> u8 list option) \<Rightarrow> u8 list \<Rightarrow> (nat \<Rightarrow> u8 list res) \<Rightarrow> (unit res \<times> inotify_event list \<times> nat) option" where
  "inotify_process_fd pending heap stack received = (case pending of
     Inl e \<Rightarrow> Some (Inr (), [], 0)
   | Inr count \<Rightarrow>
      if count \<le> 0 then Some (Inr (), [], 0)
      else (let on_heap = count > 512 in
       case (if on_heap then heap (nat count) else Some stack) of
         None \<Rightarrow> Some (Inr (), [], 0)
       | Some evbuf \<Rightarrow>
          (let blocks = (if on_heap then 1 else 0);
               release = (\<lambda>(r, seen). (r, seen, if on_heap then blocks - 1 else blocks))
           in case received (nat count) of
             Inl e \<Rightarrow> Some (release (Inr (), []))
           | Inr bs \<Rightarrow>
              if length bs > length evbuf then Some (Inl Fault, [], blocks)
              else if int (length bs) = count
              then map_option release (inotify_walk (mem_write 0 bs evbuf) 0 count [])
              else Some (release (Inr (), [])))))"

text \<open>A failing creation closes exactly the descriptor it opened; a created one is closed on exec.\<close>

lemma inotify_create_correct:
  assumes "inotify_create sys table_ops path watch_mask t = (fd, closed, t')" "init_answer sys = Inr n" "0 \<le> n"
  shows "(fd = -1 \<and> closed = [n]) \<or>
    (fd = n \<and> closed = [] \<and> (t n \<noteq> None \<longrightarrow> fd_has_close_on_exec table_ops n t' = 1))"
proof -
  obtain r t1 where c: "fd_set_close_on_exec table_ops n t = (r, t1)" by (rule prod.exhaust)
  show ?thesis
    using assms fd_set_close_on_exec_correct [OF c]
    by (auto simp: inotify_create_def inotify_destroy_def c split: sum.splits)
qed

section \<open>Events in memory\<close>

definition event_bytes :: "inotify_event \<Rightarrow> u8 list" where
  "event_bytes e = u32_bytes (wd e) @ u32_bytes (mask_of e) @ u32_bytes (cookie e) @ u32_bytes (of_nat (length (name_bytes e))) @ name_bytes e"

definition events_bytes :: "inotify_event list \<Rightarrow> u8 list" where
  "events_bytes es = concat (map event_bytes es)"

lemma length_event_bytes: "length (event_bytes e) = 16 + length (name_bytes e)"
  by (simp add: event_bytes_def)

lemma events_bytes_simps [simp]: "events_bytes [] = []" "events_bytes (e # es) = event_bytes e @ events_bytes es"
  by (simp_all add: events_bytes_def)

lemma u32_at_append: "off = int (length pre) \<Longrightarrow> u32_at (pre @ u32_bytes w @ rest) off = w"
  by (simp add: u32_at_def bytes_u32_u32_bytes)

lemma event_at_bytes:
  assumes "length (name_bytes e) < 2 ^ 31"
  shows "event_at (pre @ event_bytes e @ rest) (int (length pre)) = e"
    "u32_at (pre @ event_bytes e @ rest) (int (length pre) + 12) = of_nat (length (name_bytes e))"
proof -
  have w: "u32_at (pre @ event_bytes e @ rest) (int (length pre)) = wd e"
    using u32_at_append [of "int (length pre)" pre] by (simp add: event_bytes_def)
  have m: "u32_at (pre @ event_bytes e @ rest) (int (length pre) + 4) = mask_of e"
    using u32_at_append [of "int (length pre) + 4" "pre @ u32_bytes (wd e)"] by (simp add: event_bytes_def)
  have c: "u32_at (pre @ event_bytes e @ rest) (int (length pre) + 8) = cookie e"
    using u32_at_append [of "int (length pre) + 8" "pre @ u32_bytes (wd e) @ u32_bytes (mask_of e)"] by (simp add: event_bytes_def)
  have l: "u32_at (pre @ event_bytes e @ rest) (int (length pre) + 12) = of_nat (length (name_bytes e))"
    using u32_at_append [of "int (length pre) + 12" "pre @ u32_bytes (wd e) @ u32_bytes (mask_of e) @ u32_bytes (cookie e)"]
    by (simp add: event_bytes_def)
  have n: "unat (of_nat (length (name_bytes e)) :: u32) = length (name_bytes e)" using assms by (simp add: unat_of_nat_small)
  show "u32_at (pre @ event_bytes e @ rest) (int (length pre) + 12) = of_nat (length (name_bytes e))" by (rule l)
  have "drop (nat (int (length pre) + EVENT_SIZE)) (pre @ event_bytes e @ rest) = name_bytes e @ rest"
    by (simp add: EVENT_SIZE_def nat_add_distrib event_bytes_def)
  then show "event_at (pre @ event_bytes e @ rest) (int (length pre)) = e"
    by (simp add: event_at_def w m c l n)
qed

lemma sint_of_int32: "- (2 ^ 31) \<le> x \<Longrightarrow> x < 2 ^ 31 \<Longrightarrow> sint (of_int x :: u32) = x"
  by (simp add: sint_sbintrunc' signed_take_bit_int_eq_self)

lemma inotify_walk_events:
  assumes "list_all (\<lambda>e. length (name_bytes e) < 2 ^ 30) es"
  shows "inotify_walk (pre @ events_bytes es @ rest) (int (length pre)) (int (length (events_bytes es))) seen = Some (Inr (), seen @ es)"
  using assms
proof (induction es arbitrary: pre seen)
  case Nil
  then show ?case by (subst inotify_walk.simps) (simp add: EVENT_SIZE_def)
next
  case (Cons e es)
  define buf where "buf = pre @ event_bytes e @ events_bytes es @ rest"
  have n: "length (name_bytes e) < 2 ^ 30" "length (name_bytes e) < 2 ^ 31" using Cons.prems by simp_all
  note e = event_at_bytes [OF n(2), of pre "events_bytes es @ rest", folded buf_def]
  define len where "len = int (length (event_bytes e))"
  have "of_int EVENT_SIZE + u32_at buf (int (length pre) + 12) = of_int len"
    by (simp add: e(2) len_def length_event_bytes EVENT_SIZE_def)
  moreover have "sint (of_int len :: u32) = len"
    using n(1) by (intro sint_of_int32) (simp_all add: len_def length_event_bytes)
  ultimately have len: "sint (of_int EVENT_SIZE + u32_at buf (int (length pre) + 12)) = len" by simp
  have "inotify_walk buf (int (length pre)) (int (length (events_bytes (e # es)))) seen =
    inotify_walk buf (int (length pre) + len) (int (length (events_bytes (e # es))) - len) (seen @ [e])"
    unfolding inotify_walk.simps [of buf "int (length pre)"] len Let_def e(1)
    by (simp add: EVENT_SIZE_def length_event_bytes buf_def len_def)
  also have "\<dots> = Some (Inr (), seen @ e # es)"
    using Cons.IH [of "pre @ event_bytes e" "seen @ [e]"] Cons.prems by (simp add: buf_def len_def)
  finally show ?case by (simp add: buf_def)
qed

text \<open>
  Property C40.  When the bytes received are those of a sequence of events, the callback is called for
  exactly these events, in order and with all their data, the loop ends, neither the read nor the loop
  leaves the buffer, whether it is the one of 512 bytes on the stack or, above that, one from the heap, and
  a buffer from the heap is freed.
\<close>

theorem inotify_process_correct:
  assumes "list_all (\<lambda>e. length (name_bytes e) < 2 ^ 30) es" "es \<noteq> []"
    and "length stack = 512" "512 < length (events_bytes es) \<longrightarrow> (\<exists>chunk. heap (length (events_bytes es)) = Some chunk \<and> length chunk = length (events_bytes es))"
  shows "inotify_process_fd (Inr (int (length (events_bytes es)))) heap stack (\<lambda>n. Inr (events_bytes es)) = Some (Inr (), es, 0)"
proof -
  have "0 < length (events_bytes es)" using assms(2) by (cases es) (simp_all add: length_event_bytes)
  moreover have "inotify_walk (mem_write 0 (events_bytes es) buf) 0 (int (length (events_bytes es))) [] = Some (Inr (), es)" for buf
    using inotify_walk_events [OF assms(1), of "[]" "drop (length (events_bytes es)) buf" "[]"] by (simp add: mem_write_def)
  ultimately show ?thesis using assms(3,4) by (auto simp: inotify_process_fd_def Let_def)
qed

theorem inotify_process_correct_witness:
  "\<exists>e. name_bytes e = [102] @ replicate 600 0 \<and> length (events_bytes [e]) = 617 \<and>
     inotify_process_fd (Inr 617) (\<lambda>n. Some (replicate n 7)) (replicate 512 0) (\<lambda>n. Inr (events_bytes [e])) = Some (Inr (), [e], 0)"
proof -
  let ?e = "\<lparr>wd = 1, mask_of = 0x100, cookie = 0, name_bytes = [102] @ replicate 600 0\<rparr>"
  have "length (events_bytes [?e]) = 617" by (simp add: length_event_bytes)
  then show ?thesis
    using inotify_process_correct [of "[?e]" "replicate 512 0" "\<lambda>n. Some (replicate n 7)"] by (intro exI [of _ ?e]) simp
qed

end
