(* ===== verification/Cxx.thy ===== *)
theory Cxx
  imports Prelude
begin

text \<open>
  The C++ layer (src/src/string.cpp, src/src/fs.cpp) and the macros of src/include/futils/futils.h.

  A \<open>std::string\<close> is its sequence of characters, which may hold NUL; what C sees of it ends at the first
  NUL.  \<open>tolower\<close> is that of the C locale, and \<open>dirname\<close> and \<open>basename\<close> of the C library follow the steps
  of POSIX (where the choice is free, \<open>//\<close> counts as \<open>/\<close>).
\<close>

section \<open>Macros\<close>

definition FUTILS_MIN :: "'a :: linorder \<Rightarrow> 'a \<Rightarrow> 'a" where
  "FUTILS_MIN a b = (if a < b then a else b)"

definition FUTILS_MAX :: "'a :: linorder \<Rightarrow> 'a \<Rightarrow> 'a" where
  "FUTILS_MAX a b = (if a > b then a else b)"

definition FUTILS_BOUND :: "'a :: linorder \<Rightarrow> 'a \<Rightarrow> 'a \<Rightarrow> 'a" where
  "FUTILS_BOUND a m M = (if a < m then m else if a > M then M else a)"

lemma futils_min_max: "FUTILS_MIN a b = min a b" "FUTILS_MAX a b = max a b"
  by (auto simp: FUTILS_MIN_def FUTILS_MAX_def min_def max_def)

text \<open>The bounded value is the nearest of the interval; with the bounds exchanged it is one of them.\<close>

lemma futils_bound:
  "m \<le> M \<Longrightarrow> FUTILS_BOUND a m M = max m (min a M)"
  "M < m \<Longrightarrow> FUTILS_BOUND a m M = (if a < m then m else M)"
  by (auto simp: FUTILS_BOUND_def min_def max_def)

section \<open>string.cpp\<close>

definition startsWith :: "string \<Rightarrow> string \<Rightarrow> bool" where
  "startsWith fullString prefix \<longleftrightarrow>
    length fullString \<ge> length prefix \<and> take (length prefix) fullString = prefix"

definition endsWith :: "string \<Rightarrow> string \<Rightarrow> bool" where
  "endsWith fullString suffix \<longleftrightarrow>
    length fullString \<ge> length suffix \<and>
    take (length suffix) (drop (length fullString - length suffix) fullString) = suffix"

definition tolower :: "char \<Rightarrow> char" where
  "tolower c = (let n = of_char c :: nat in if 65 \<le> n \<and> n \<le> 90 then char_of (n + 32) else c)"

definition convertToLowerCase :: "string \<Rightarrow> string" where
  "convertToLowerCase s = map tolower s"

lemma startsWith_iff: "startsWith s p \<longleftrightarrow> (\<exists>rest. s = p @ rest)"
proof
  show "startsWith s p \<Longrightarrow> \<exists>rest. s = p @ rest"
    unfolding startsWith_def by (metis append_take_drop_id)
qed (auto simp: startsWith_def)

lemma endsWith_iff: "endsWith s p \<longleftrightarrow> (\<exists>front. s = front @ p)"
proof
  assume "endsWith s p"
  then have "drop (length s - length p) s = p" by (simp add: endsWith_def)
  then show "\<exists>front. s = front @ p" by (metis append_take_drop_id)
qed (auto simp: endsWith_def)

lemma endsWith_rev: "endsWith s p = startsWith (rev s) (rev p)"
  by (auto simp: endsWith_iff startsWith_iff) (metis rev_append rev_rev_ident)

section \<open>fs.cpp\<close>

text \<open>The characters up to the first NUL, as \<open>strdup(path.c_str())\<close> copies them.\<close>

definition c_str :: "string \<Rightarrow> string" where
  "c_str path = takeWhile (\<lambda>c. c \<noteq> CHR 0x00) path"

definition strip_slashes :: "string \<Rightarrow> string" where
  "strip_slashes p = rev (dropWhile (\<lambda>c. c = CHR ''/'') (rev p))"

definition after_last_slash :: "string \<Rightarrow> string" where
  "after_last_slash p = rev (takeWhile (\<lambda>c. c \<noteq> CHR ''/'') (rev p))"

definition posix_basename :: "string \<Rightarrow> string" where
  "posix_basename p =
    (if p = [] then ''.''
     else if strip_slashes p = [] then ''/''
     else after_last_slash (strip_slashes p))"

definition posix_dirname :: "string \<Rightarrow> string" where
  "posix_dirname p =
    (let q = strip_slashes p; front = rev (dropWhile (\<lambda>c. c \<noteq> CHR ''/'') (rev q)) in
     if p = [] then ''.''
     else if q = [] then ''/''
     else if front = [] then ''.''
     else if strip_slashes front = [] then ''/''
     else strip_slashes front)"

definition fs_dirname :: "string \<Rightarrow> string" where
  "fs_dirname path = posix_dirname (c_str path)"

definition wrap_basename :: "string \<Rightarrow> string" where
  "wrap_basename path = posix_basename path"

definition fs_basename :: "string \<Rightarrow> string" where
  "fs_basename path = wrap_basename (c_str path)"

lemma c_str_id: "CHR 0x00 \<notin> set p \<Longrightarrow> c_str p = p"
  by (auto simp: c_str_def takeWhile_eq_all_conv)

lemma dropWhile_slashes: "dropWhile (\<lambda>c. c = CHR ''/'') (replicate n CHR ''/'' @ p) = dropWhile (\<lambda>c. c = CHR ''/'') p"
  by (induction n) simp_all

lemma strip_slashes_replicate [simp]: "strip_slashes (p @ replicate n CHR ''/'') = strip_slashes p"
  by (simp add: strip_slashes_def dropWhile_slashes)

lemma strip_slashes_id: "p \<noteq> [] \<Longrightarrow> last p \<noteq> CHR ''/'' \<Longrightarrow> strip_slashes p = p"
  by (cases p rule: rev_cases) (simp_all add: strip_slashes_def)

text \<open>
  A directory and a name put together with slashes are taken apart again, whatever the number of
  slashes between them and behind the name.
\<close>

lemma dirname_basename:
  assumes "d \<noteq> []" "last d \<noteq> CHR ''/''" "b \<noteq> []" "CHR ''/'' \<notin> set b" "CHR 0x00 \<notin> set (d @ b)"
    and path: "path = d @ replicate (Suc m) CHR ''/'' @ b @ replicate n CHR ''/''"
  shows "fs_dirname path = d" "fs_basename path = b"
proof -
  have nul: "c_str path = path" using assms(5) by (intro c_str_id) (auto simp: path)
  have "last b \<noteq> CHR ''/''" using assms(3,4) last_in_set by metis
  then have q: "strip_slashes path = d @ replicate (Suc m) CHR ''/'' @ b"
    using strip_slashes_replicate [of "d @ replicate (Suc m) CHR ''/'' @ b" n] assms(3)
      strip_slashes_id [of "d @ replicate (Suc m) CHR ''/'' @ b"] by (simp add: path)
  have tw: "takeWhile (\<lambda>c. c \<noteq> CHR ''/'') (rev (d @ replicate (Suc m) CHR ''/'' @ b)) = rev b"
    "dropWhile (\<lambda>c. c \<noteq> CHR ''/'') (rev (d @ replicate (Suc m) CHR ''/'' @ b)) = rev (d @ replicate (Suc m) CHR ''/'')"
    using assms(4) by (simp_all add: takeWhile_append dropWhile_append)
  have "path \<noteq> []" using assms(1) by (simp add: path)
  moreover have "strip_slashes (d @ replicate (Suc m) CHR ''/'') = d"
    using strip_slashes_id [OF assms(1,2)] by (simp only: strip_slashes_replicate)
  ultimately show "fs_dirname path = d" "fs_basename path = b"
    using assms(1,3) nul q tw
    by (simp_all only: fs_dirname_def fs_basename_def wrap_basename_def posix_dirname_def posix_basename_def
        after_last_slash_def Let_def) simp_all
qed

end
