(* ===== verification/Spec2Isabelle.thy ===== *)
theory Spec2Isabelle
  imports Varint ListEntry Hash ChachaVectors RandWin RandText RandShuffle SystimeText DynmboxThreads Winsock SafewLife
    Utf8String Fsize Synctools Inotify Cxx
begin

text \<open>
  Verification development of libfutils, a C library of small utilities for embedded programs.  Every
  module under src/ that contains code is modelled; this header says where, how and what is shown.

  \<^bold>\<open>The program's parts and how they interact.\<close>

    \<^item> \<open>list\<close> (include/futils/list.h) is the intrusive circular list; \<open>hash\<close> (src/hash.c) keeps its
      entries in one such list, in insertion order, beside its buckets.
    \<^item> \<open>random\<close> (src/random.c, include/futils/random.h) draws entropy from the system, stretches it with
      ChaCha20 in a pool per thread, and serves bytes, integers, bounded integers, texts and shuffles.
    \<^item> \<open>varint\<close> (src/varint.c) encodes integers in groups of seven bits.
    \<^item> \<open>timetools\<close> (src/timetools.c) computes with stamps; \<open>dynmbox\<close> uses it for its deadlines.
    \<^item> \<open>systimetools\<close> (src/systimetools.c) parses and prints dates and sets the system time.
    \<^item> \<open>mbox\<close> and \<open>dynmbox\<close> (src/mbox.c, src/dynmbox.c) are mailboxes between threads, over a pipe (POSIX)
      or a pair of sockets (Windows).
    \<^item> \<open>safew\<close> (src/safew.c) replaces files so that a crash leaves one complete version; \<open>synctools\<close>
      (src/synctools.c) forces a file and its folder to the disk.
    \<^item> \<open>string\<close>, \<open>fs\<close>, \<open>fdutils\<close>, \<open>inotify\<close> (src/string.c, src/fs.c, src/fdutils.c, src/inotify.c): UTF-8
      texts, sizes of directories, descriptor flags and file watches; \<open>inotify\<close>, \<open>mbox\<close> and \<open>dynmbox\<close> use
      \<open>fdutils\<close>, the mailboxes to make their pipes non-blocking.  A small C++ layer (src/string.cpp, src/fs.cpp) stands beside them.

  \<^bold>\<open>The theories.\<close>  Definitions have the names of the C functions (with a suffix where one C function
  becomes several, such as a loop), and a record has the fields of its struct.

    \<^item> \<open>Prelude\<close>: integer types as words, the error values, checked access to byte arrays, little-endian
      storage and the lemmas on them.
    \<^item> \<open>Fifo\<close> and \<open>Dict\<close>: the contracts of a queue and of a dictionary as locales, with what follows for
      every sequence of operations (of a queue, every sequence in which each insertion is accepted when it is
      made).  \<open>fifo\<close> is interpreted on the list (\<open>DList\<close>), on the pipe mailbox
      (\<open>Mbox\<close>) and on the ring buffer (\<open>Dynmbox\<close>), \<open>dict\<close> on the hash table (\<open>Hash\<close>).  Other interfaces:
      \<open>varint_codec\<close> (\<open>Varint\<close>, one interpretation per integer type), \<open>walk_side\<close> (\<open>ListEntry\<close>, the two
      directions of a ring) and \<open>fcntl_kernel\<close> (\<open>Fdutils\<close>, a table of descriptors).
    \<^item> \<open>Varint\<close>: reader, writer and the twelve typed functions, with the look-ahead byte of the reader.
    \<^item> \<open>DList\<close>, \<open>ListEntry\<close>: the list operations on a store of nodes; the walking macros, the ones over
      containing structures and the ones whose body may delete the current node.
    \<^item> \<open>Hash\<close>: the whole table over entry memory, bucket chains and list nodes.
    \<^item> \<open>Chacha\<close>, \<open>ChachaVectors\<close>: the generator and a published test vector; \<open>Pool\<close>: entropy, seed eras
      and the pool; \<open>RandWin\<close>: the Windows entropy; \<open>RandMax\<close>: integers and rejection; \<open>RandText\<close>: random
      texts; \<open>RandShuffle\<close>: the shuffle in memory.
    \<^item> \<open>Timetools\<close>: all stamps, conversions and clock variants.
    \<^item> \<open>Systimetools\<close>: all operations; \<open>SystimeCalendar\<close>, \<open>SystimeCtx\<close>, \<open>SystimeText\<close>: its lemmas on the
      calendar, the context and the texts.
    \<^item> \<open>Mbox\<close>, \<open>Dynmbox\<close>: the POSIX mailboxes; \<open>DynmboxThreads\<close>: threads that block on the condition variable
      of a mailbox, wake and interleave; \<open>Winsock\<close>: the socket pair and the Windows mailboxes.
    \<^item> \<open>Safew\<close>: writing, committing and checking a file on a disk that can crash, with the buffers of the
      streams (a file that was not flushed before \<open>fsync\<close> is not safe); \<open>SafewLife\<close>: the whole life of a file, over
      sequences of these operations and crashes, on a file system whose directory may lag behind.
    \<^item> \<open>Synctools\<close>, \<open>Fsize\<close> (fs.c), \<open>Fdutils\<close>, \<open>Inotify\<close>, \<open>Utf8String\<close> (string.c), \<open>Cxx\<close> (the C++ layer and
      the macros of futils.h).
\<close>

text \<open>
  \<^bold>\<open>How state and errors correspond to the code.\<close>  A function into \<open>'a res\<close> returns a negative errno as
  \<open>Inl\<close> and success as \<open>Inr\<close>; \<open>Inl Fault\<close> is undefined behaviour (an access outside an object, a signed
  overflow, an over-long shift, a division by zero, in the date parsers and the watch events also a read or
  write outside the text or the buffer).  \<open>None\<close> is a call that does not return: an endless
  loop, a blocked thread, a failed assertion, an abort, and in the components with a memory of their own
  also an invalid access.  So every theorem with a result \<open>Some\<close> says that the code returns.  A pointer
  compared with NULL is an \<open>option\<close>.  The operating system is an argument: the answers it gives (scripts
  in \<open>Pool\<close> and \<open>Mbox\<close>, functions from call numbers or names elsewhere) and, where the code changes
  something outside itself, a state with a log of the calls made.

  \<^bold>\<open>What is shown.\<close>

    \<^item> Refinements of an abstract specification: the hash table is a dictionary, list and mailboxes are
      queues, the pool is an endless stream of bytes that erases what it gave out, the time context is a
      pair of optional parts.
    \<^item> Safety of files without checksum across crashes at any moment, of files with checksum but for the
      window in which the new checksum is not on the device (\<open>Safew\<close>), and for their whole life (\<open>SafewLife\<close>,
      whose text lists the losses that are excluded),
      of walks that delete (\<open>ListEntry\<close>), of memory (\<open>Varint\<close>, \<open>Inotify\<close>, \<open>SystimeText\<close>).
    \<^item> Functional correctness on every branch: insertion, lookup and removal, stamps and calendars, texts
      and encodings, directory sizes.
    \<^item> Liveness of the mailbox: a stored message is signalled on the pipe, and no blocked producer is left
      behind (\<open>Dynmbox\<close>, \<open>DynmboxThreads\<close>).
    \<^item> Round trips: variable-length integers for all six types, dates through each of the three formats,
      units of time.
    \<^item> Random numbers: the bounded generators return the first accepted draw, every value is equally
      likely, and every permutation comes from one sequence of draws.
    \<^item> Where the code does not do what it promises, a theorem states exactly what it does instead: for
      instance the base64 tail, the equal nanoseconds of \<open>time_timespec_diff\<close>, the month table, the lost
      failures of \<open>sync_file_and_folder\<close> and of \<open>rand_s\<close>, the constant entries that removal frees.

  \<^bold>\<open>Bounds, fuel and loops.\<close>  Loops that may not end are \<open>partial_function (option)\<close>, and their return is
  a theorem: the list walks on rings, the chains of the hash table, the copies of the ring buffer, the
  walk over watch events.  The rejection loop of \<open>rand_maximum_loop\<close> ends exactly when some draw is
  accepted, which more than half of the draws are.  Retried system calls consume a finite script.
  \<open>futils_fs_dir_size\<close> alone has fuel, the levels of directories; the depth of the tree is enough.
  \<open>size_t\<close>, \<open>time_t\<close>, \<open>long\<close> and pointers have 64 bits, \<open>int\<close> and \<open>unsigned\<close> 32; bytes are stored
  little-endian.  Library functions of C and POSIX that the code calls (\<open>strtol\<close>, \<open>strtoll\<close>, \<open>gmtime_r\<close>,
  \<open>snprintf\<close> for its three formats, \<open>iconv\<close> from and to UTF-8, \<open>tolower\<close>, \<open>dirname\<close>) are definitions from
  their standards.

  \<^bold>\<open>Not modelled.\<close>  The floating-point product that scales ticks on Mach systems without \<open>clock_gettime\<close>
  is an argument of \<open>time_get_monotonic_internal_mach\<close>.  Log messages have no effect on any
  result and are left out.  The mutexes have no state of their own: the critical sections are the atomic
  steps of the interleavings in \<open>Dynmbox\<close> and \<open>DynmboxThreads\<close>, and of concurrent threads \<open>Pool\<close> knows only what they do to the
  seed era.  Files on a disk: creations, removals and renames reach the device in order; a failing \<open>fflush\<close> or
  \<open>fclose\<close> stores none of the buffered bytes (the code then removes the file).  The left shift of a negative
  value in the signed writers of \<open>Varint\<close> is taken to be the shift of the two's complement representation, as the
  compilers of the library define it.  The unit tests and the statistical tool under tests/ are no part of the library.
\<close>

end

